(* ===== verification/VS_Prelude.thy ===== *)
theory VS_Prelude
  imports Main "HOL-Library.Word" "HOL-Library.Monad_Syntax" "HOL-Library.List_Lexorder"
begin

text \<open>
  Shared vocabulary of the development: the machine integer types of the Rust sources, the option
  monad in which a panic (a failed \<^verbatim>\<open>assert!\<close>, an \<^verbatim>\<open>unwrap()\<close> of \<^verbatim>\<open>None\<close>, an index out of
  range, a division by zero) is the value \<open>None\<close>, and the generic lemmas on lists, words and that
  monad which the component theories share.

  Arithmetic on \<open>u32\<close> and \<open>u64\<close> wraps around, as it does in the release build the README asks for
  (\<^verbatim>\<open>cargo build --release\<close>, no \<^verbatim>\<open>overflow-checks\<close> in any \<^verbatim>\<open>Cargo.toml\<close>).
\<close>

subsection \<open>Machine integers, bytes and hashes\<close>

type_synonym u8 = "8 word"
type_synonym u32 = "32 word"
type_synonym u64 = "64 word"
type_synonym u256 = "256 word"
type_synonym bytes = "u8 list"

text \<open>An \<open>i32\<close> is the integer its bit pattern denotes; \<open>as_i32\<close> is Rust's cast \<^verbatim>\<open>x as i32\<close>.\<close>

type_synonym i32 = int

definition as_i32 :: "u32 \<Rightarrow> i32" where
  "as_i32 x = sint x"

abbreviation (input) u32_MAX :: u32 where
  "u32_MAX \<equiv> - 1"

text \<open>
  \<open>UInt256\<close> compares its 32 bytes lexicographically, most significant first, which is the order of
  the numbers they denote; block identifiers are such values.
\<close>

type_synonym block_hash = u256
type_synonym block_id = u256

subsection \<open>Panics\<close>

named_theorems panic_simps \<open>rewriting with the panic monad\<close>

definition rs_assert :: "bool \<Rightarrow> unit option" where
  "rs_assert b = (if b then Some () else None)"

text \<open>Rust's slice indexing \<^verbatim>\<open>xs[i]\<close> and indexed assignment \<^verbatim>\<open>xs[i] = v\<close>: both panic out of range.\<close>

definition index :: "'a list \<Rightarrow> nat \<Rightarrow> 'a option" where
  "index xs i = (if i < length xs then Some (xs ! i) else None)"

definition index_set :: "'a list \<Rightarrow> nat \<Rightarrow> 'a \<Rightarrow> 'a list option" where
  "index_set xs i v = (if i < length xs then Some (xs[i := v]) else None)"

lemma rs_assert_simps [simp, panic_simps]:
  "rs_assert True = Some ()" "rs_assert False = None"
  by (simp_all add: rs_assert_def)

lemma rs_assert_eq_Some [simp]: "rs_assert b = Some u \<longleftrightarrow> b"
  by (simp add: rs_assert_def)

lemma index_in_range [simp]: "i < length xs \<Longrightarrow> index xs i = Some (xs ! i)"
  by (simp add: index_def)

lemma index_eq_Some_iff: "index xs i = Some x \<longleftrightarrow> i < length xs \<and> xs ! i = x"
  by (auto simp: index_def)

lemma index_set_in_range [simp]: "i < length xs \<Longrightarrow> index_set xs i v = Some (xs[i := v])"
  by (simp add: index_set_def)

lemma index_set_eq_Some_iff: "index_set xs i v = Some ys \<longleftrightarrow> i < length xs \<and> ys = xs[i := v]"
  by (auto simp: index_set_def)

subsection \<open>Loops that may panic\<close>

text \<open>
  \<^verbatim>\<open>for x in xs { if p(x) { return Some(x); } } None\<close>, where evaluating \<open>p\<close> may panic.
\<close>

fun find_first :: "('a \<Rightarrow> bool option) \<Rightarrow> 'a list \<Rightarrow> 'a option option" where
  "find_first p [] = Some None"
| "find_first p (x # xs) =
     do { b \<leftarrow> p x; if b then Some (Some x) else find_first p xs }"

text \<open>\<^verbatim>\<open>for x in xs { if p(x) { out.push(x); } }\<close>\<close>

fun filter_loop :: "('a \<Rightarrow> bool option) \<Rightarrow> 'a list \<Rightarrow> 'a list option" where
  "filter_loop p [] = Some []"
| "filter_loop p (x # xs) =
     do { b \<leftarrow> p x; ys \<leftarrow> filter_loop p xs; Some (if b then x # ys else ys) }"

lemma find_first_total:
  assumes "\<And>x. x \<in> set xs \<Longrightarrow> p x = Some (P x)"
  shows "find_first p xs = Some (List.find P xs)"
  using assms by (induction xs) auto

lemma filter_loop_total:
  assumes "\<And>x. x \<in> set xs \<Longrightarrow> p x = Some (P x)"
  shows "filter_loop p xs = Some (filter P xs)"
  using assms by (induction xs) auto

lemma find_None_iff_set: "List.find P xs = None \<longleftrightarrow> (\<forall>x \<in> set xs. \<not> P x)"
  by (auto simp: find_None_iff)

lemma find_SomeD: "List.find P xs = Some x \<Longrightarrow> x \<in> set xs \<and> P x"
  by (auto simp: find_Some_iff)

lemma find_neq_None: "List.find P xs \<noteq> None \<longleftrightarrow> (\<exists>x \<in> set xs. P x)"
  by (simp add: find_None_iff_set)

subsection \<open>Ranges of u32\<close>

text \<open>The values of the Rust range \<^verbatim>\<open>0..n\<close>.\<close>

definition range_u32 :: "u32 \<Rightarrow> u32 list" where
  "range_u32 n = map word_of_nat [0..<unat n]"

lemma unat_word_of_nat_u32: "i < 2 ^ 32 \<Longrightarrow> unat (word_of_nat i :: u32) = i"
  by (simp add: unat_of_nat take_bit_nat_eq_self)

lemma unat_u32_less: "unat (n :: u32) < 2 ^ 32"
  by (rule order.strict_trans2 [OF unsigned_less]) simp

lemma map_unat_range_u32 [simp]: "map unat (range_u32 n) = [0..<unat n]"
proof -
  have "unat (word_of_nat i :: u32) = i" if "i < unat n" for i
    using that unat_u32_less [of n] by (intro unat_word_of_nat_u32) simp
  then show ?thesis
    by (auto simp: range_u32_def intro: map_idI)
qed

lemma set_range_u32 [simp]: "i \<in> set (range_u32 n) \<longleftrightarrow> i < n"
proof
  assume "i \<in> set (range_u32 n)"
  then have "unat i \<in> set (map unat (range_u32 n))" by (simp only: set_map imageI)
  then show "i < n" by (simp add: word_less_nat_alt)
next
  assume "i < n"
  then show "i \<in> set (range_u32 n)"
    by (auto simp: range_u32_def word_less_nat_alt image_iff intro!: bexI [of _ "unat i"])
qed

lemma distinct_range_u32 [simp]: "distinct (range_u32 n)"
  using distinct_map [of unat "range_u32 n"] by simp

subsection \<open>Arithmetic without wrap-around\<close>

lemma sint_small_u32: "unat (x :: u32) < 2 ^ 31 \<Longrightarrow> sint x = int (unat x)"
proof -
  assume "unat x < 2 ^ 31"
  then have "int (unat x) < int (2 ^ 31)" by (rule of_nat_less_iff [THEN iffD2])
  then have "uint x < 2 ^ 31" by simp
  moreover have "- (2 ^ 31) \<le> uint x" by (rule order.trans [of _ 0]) simp_all
  ultimately have "signed_take_bit 31 (uint x) = uint x"
    by (simp only: signed_take_bit_int_eq_self_iff)
  then show ?thesis by (simp add: sint_uint)
qed

lemma unat_add_u32: "unat (x :: u32) + unat y < 2 ^ 32 \<Longrightarrow> unat (x + y) = unat x + unat y"
  by (subst unat_add_lem [THEN iffD1]) auto

lemma unat_add_u64: "unat (x :: u64) + unat y < 2 ^ 64 \<Longrightarrow> unat (x + y) = unat x + unat y"
  by (subst unat_add_lem [THEN iffD1]) auto

lemma unat_sum_list_u64:
  "sum_list (map (\<lambda>x. unat (f x)) xs) < 2 ^ 64 \<Longrightarrow> unat (sum_list (map f xs) :: u64) = sum_list (map (\<lambda>x. unat (f x)) xs)"
proof (induction xs)
  case (Cons x xs)
  then have "unat (sum_list (map f xs)) = sum_list (map (\<lambda>x. unat (f x)) xs)" by simp
  with Cons.prems show ?case by (simp add: unat_add_u64)
qed simp

subsection \<open>Lists\<close>

lemma sorted_wrt_nth_mono:
  assumes "sorted_wrt (<) (map f xs)" and "i < length xs" and "j < length xs"
  shows "(f (xs ! i) :: 'k::linorder) < f (xs ! j) \<longleftrightarrow> i < j"
proof -
  have "f (xs ! i) < f (xs ! j)" if "i < j"
    using sorted_wrt_nth_less [OF assms(1), of i j] that assms by simp
  moreover have "f (xs ! j) < f (xs ! i)" if "j < i"
    using sorted_wrt_nth_less [OF assms(1), of j i] that assms by simp
  ultimately show ?thesis
    by (metis less_irrefl linorder_neqE_nat order.asym)
qed

end
