(* ===== verification/VS_Vector.thy ===== *)
theory VS_Vector
  imports VS_Prelude
begin

text \<open>
  The immutable vectors of the validator session (\<^verbatim>\<open>validator-session/src/vector.rs\<close> and the option
  wrappers of \<^verbatim>\<open>utils.rs\<close>): \<^verbatim>\<open>Vector\<close>, \<^verbatim>\<open>SortedVector\<close>, their push, change, modify and merge.

  A vector object is the list of its items. Its hash, pool and instance counter are not part of the
  model: the hash is a function of the items, and the other two only say where the object lives. The
  code compares items by address, because the cache keeps one object per value; the model compares
  values. Where the cache misses, the code takes the long way instead of a shortcut; the lemmas on
  the shortcuts below show that both ways give the same vector.

  The sorted vector is specified by a finite map from keys to items (\<open>key_map\<close>): a push is an update
  of that map and a merge is the pointwise combination of two maps.
\<close>

subsection \<open>Vector\<close>

definition vector_at :: "'a list \<Rightarrow> nat \<Rightarrow> 'a option" where
  "vector_at data i = do { rs_assert (i \<le> length data); index data i }"

definition vector_push :: "'a list \<Rightarrow> 'a \<Rightarrow> 'a list" where
  "vector_push data v = data @ [v]"

definition vector_change :: "'a list \<Rightarrow> nat \<Rightarrow> 'a \<Rightarrow> 'a list option" where
  "vector_change data i v = do { rs_assert (i \<le> length data); index_set data i v }"

definition vector_modify :: "'a list \<Rightarrow> ('a \<Rightarrow> 'a) \<Rightarrow> 'a list" where
  "vector_modify data modifier = map modifier data"

text \<open>
  The first loop of \<^verbatim>\<open>merge_impl\<close>: whether the left, respectively the right vector already is the
  merged one.
\<close>

fun vector_ret_flags :: "'a list \<Rightarrow> 'a list \<Rightarrow> bool \<times> bool" where
  "vector_ret_flags [] [] = (True, True)"
| "vector_ret_flags [] (r # rs) = (False, True)"
| "vector_ret_flags (l # ls) [] = (True, False)"
| "vector_ret_flags (l # ls) (r # rs) =
     (if l \<noteq> r then (False, False) else vector_ret_flags ls rs)"

text \<open>The second loop: item by item, with the tail of the longer vector copied or merged with itself.\<close>

fun vector_merge_items :: "bool \<Rightarrow> ('a \<Rightarrow> 'a \<Rightarrow> 'a option) \<Rightarrow> 'a list \<Rightarrow> 'a list \<Rightarrow> 'a list option" where
  "vector_merge_items merge_all merge_fn [] [] = Some []"
| "vector_merge_items merge_all merge_fn [] (r # rs) =
     do { x \<leftarrow> (if \<not> merge_all then Some r else merge_fn r r);
          items \<leftarrow> vector_merge_items merge_all merge_fn [] rs;
          Some (x # items) }"
| "vector_merge_items merge_all merge_fn (l # ls) [] =
     do { x \<leftarrow> (if \<not> merge_all then Some l else merge_fn l l);
          items \<leftarrow> vector_merge_items merge_all merge_fn ls [];
          Some (x # items) }"
| "vector_merge_items merge_all merge_fn (l # ls) (r # rs) =
     do { x \<leftarrow> merge_fn l r;
          items \<leftarrow> vector_merge_items merge_all merge_fn ls rs;
          Some (x # items) }"

definition vector_merge_impl ::
  "'a list \<Rightarrow> 'a list \<Rightarrow> bool \<Rightarrow> ('a \<Rightarrow> 'a \<Rightarrow> 'a option) \<Rightarrow> 'a list option" where
  "vector_merge_impl left right merge_all merge_fn =
     (let flags = vector_ret_flags left right in
      if \<not> merge_all \<and> fst flags then Some left
      else if \<not> merge_all \<and> snd flags then Some right
      else vector_merge_items merge_all merge_fn left right)"

text \<open>\<^verbatim>\<open>VectorMerge::merge\<close> and \<^verbatim>\<open>merge_custom\<close>: a merge that may stop early.\<close>

definition vector_merge_custom ::
  "'a list \<Rightarrow> 'a list \<Rightarrow> ('a \<Rightarrow> 'a \<Rightarrow> 'a option) \<Rightarrow> 'a list option" where
  "vector_merge_custom left right merge_fn = vector_merge_impl left right False merge_fn"

subsection \<open>The option wrappers\<close>

definition vector_create_wrapper :: "'a list \<Rightarrow> 'a list option" where
  "vector_create_wrapper data = (if length data = 0 then None else Some data)"

definition vector_wrapper_len :: "'a list option \<Rightarrow> nat" where
  "vector_wrapper_len self = (case self of Some data \<Rightarrow> length data | None \<Rightarrow> 0)"

definition vector_wrapper_at :: "'a list option \<Rightarrow> nat \<Rightarrow> 'a option" where
  "vector_wrapper_at self i = do { data \<leftarrow> self; vector_at data i }"

definition vector_wrapper_iter :: "'a list option \<Rightarrow> 'a list" where
  "vector_wrapper_iter self = (case self of Some data \<Rightarrow> data | None \<Rightarrow> [])"

definition vector_wrapper_push :: "'a list option \<Rightarrow> 'a \<Rightarrow> 'a list option" where
  "vector_wrapper_push self v =
     Some (case self of Some data \<Rightarrow> vector_push data v | None \<Rightarrow> vector_push [] v)"

definition vector_wrapper_change :: "'a list option \<Rightarrow> nat \<Rightarrow> 'a \<Rightarrow> 'a list option option" where
  "vector_wrapper_change self i v =
     (case self of
        Some data \<Rightarrow> do { data' \<leftarrow> vector_change data i v; Some (Some data') }
      | None \<Rightarrow> Some None)"

definition vector_wrapper_modify :: "'a list option \<Rightarrow> ('a \<Rightarrow> 'a) \<Rightarrow> 'a list option" where
  "vector_wrapper_modify self modifier =
     (case self of Some data \<Rightarrow> Some (vector_modify data modifier) | None \<Rightarrow> None)"

definition vector_wrapper_merge_impl ::
  "'a list option \<Rightarrow> 'a list option \<Rightarrow> bool \<Rightarrow> ('a \<Rightarrow> 'a \<Rightarrow> 'a option) \<Rightarrow> 'a list option option" where
  "vector_wrapper_merge_impl left right merge_all merge_fn =
     (if \<not> merge_all \<and> left = None then Some right
      else if \<not> merge_all \<and> right = None then Some left
      else if \<not> merge_all \<and> left = right then Some left
      else do { left_ptr \<leftarrow> left; right_ptr \<leftarrow> right;
                data \<leftarrow> vector_merge_impl left_ptr right_ptr merge_all merge_fn;
                Some (Some data) })"

text \<open>\<^verbatim>\<open>Merge for Option<T>\<close> and \<^verbatim>\<open>Merge for bool\<close>.\<close>

definition option_merge :: "('a \<Rightarrow> 'a \<Rightarrow> 'a option) \<Rightarrow> 'a option \<Rightarrow> 'a option \<Rightarrow> 'a option option" where
  "option_merge merge_fn left right =
     (case left of None \<Rightarrow> Some right
      | Some l \<Rightarrow>
         (case right of None \<Rightarrow> Some left
          | Some r \<Rightarrow> if l = r then Some left else do { x \<leftarrow> merge_fn l r; Some (Some x) }))"

definition bool_merge :: "bool \<Rightarrow> bool \<Rightarrow> bool option" where
  "bool_merge left right = Some (left \<or> right)"

subsection \<open>Sorted vector\<close>

datatype search_result = Found nat | Missing nat

text \<open>
  Indexing with a signed value that was cast by \<^verbatim>\<open>as usize\<close>: a negative value becomes an index beyond
  the length of every vector, so it panics.
\<close>

definition index_int :: "'a list \<Rightarrow> int \<Rightarrow> 'a option" where
  "index_int data i = (if 0 \<le> i then index data (nat i) else None)"

text \<open>The binary search of \<^verbatim>\<open>SortedVectorWrapper::push\<close>.\<close>

function sorted_vector_search ::
  "('a \<Rightarrow> 'a \<Rightarrow> bool) \<Rightarrow> 'a list \<Rightarrow> 'a \<Rightarrow> int \<Rightarrow> int \<Rightarrow> search_result option" where
  "sorted_vector_search lt data v left right =
     (if right - left > 1 then
        do { middle_value \<leftarrow> index_int data ((right + left) div 2);
             if lt middle_value v
             then sorted_vector_search lt data v ((right + left) div 2) right
             else if lt v middle_value
             then sorted_vector_search lt data v left ((right + left) div 2)
             else Some (Found (nat ((right + left) div 2))) }
      else Some (Missing (nat right)))"
  by pat_completeness auto
termination
  by (relation "measure (\<lambda>(lt, data, v, left, right). nat (right - left))") auto

declare sorted_vector_search.simps [simp del]

definition sorted_vector_push ::
  "('a \<Rightarrow> 'a \<Rightarrow> bool) \<Rightarrow> 'a list option \<Rightarrow> 'a \<Rightarrow> 'a list option option" where
  "sorted_vector_push lt self v =
     (case self of
        Some data \<Rightarrow>
          do { result \<leftarrow> sorted_vector_search lt data v (- 1) (int (length data));
               (case result of
                  Found middle \<Rightarrow>
                    do { middle_value \<leftarrow> index data middle;
                         if middle_value = v then Some self
                         else do { data' \<leftarrow> index_set data middle v; Some (Some data') } }
                | Missing right \<Rightarrow>
                    Some (Some (take right data @ [v] @
                      (if length data > right then drop right data else [])))) }
      | None \<Rightarrow> Some (Some [v]))"

fun sorted_vector_ret_flags ::
  "('a \<Rightarrow> 'a \<Rightarrow> bool) \<Rightarrow> 'a list \<Rightarrow> 'a list \<Rightarrow> bool \<Rightarrow> bool \<Rightarrow> bool \<times> bool" where
  "sorted_vector_ret_flags lt [] [] ret_left ret_right = (ret_left, ret_right)"
| "sorted_vector_ret_flags lt [] (r # rs) ret_left ret_right = (False, ret_right)"
| "sorted_vector_ret_flags lt (l # ls) [] ret_left ret_right = (ret_left, False)"
| "sorted_vector_ret_flags lt (l # ls) (r # rs) ret_left ret_right =
     (if lt l r then sorted_vector_ret_flags lt ls (r # rs) ret_left False
      else if lt r l then sorted_vector_ret_flags lt (l # ls) rs False ret_right
      else if l \<noteq> r then (False, False)
      else sorted_vector_ret_flags lt ls rs ret_left ret_right)"

fun sorted_vector_merge_items ::
  "('a \<Rightarrow> 'a \<Rightarrow> bool) \<Rightarrow> ('a \<Rightarrow> 'a \<Rightarrow> 'a option) \<Rightarrow> 'a list \<Rightarrow> 'a list \<Rightarrow> 'a list option" where
  "sorted_vector_merge_items lt merge_fn [] rs = Some rs"
| "sorted_vector_merge_items lt merge_fn (l # ls) [] = Some (l # ls)"
| "sorted_vector_merge_items lt merge_fn (l # ls) (r # rs) =
     (if lt l r then
        do { items \<leftarrow> sorted_vector_merge_items lt merge_fn ls (r # rs); Some (l # items) }
      else if lt r l then
        do { items \<leftarrow> sorted_vector_merge_items lt merge_fn (l # ls) rs; Some (r # items) }
      else
        do { x \<leftarrow> merge_fn l r;
             items \<leftarrow> sorted_vector_merge_items lt merge_fn ls rs;
             Some (x # items) })"

definition sorted_vector_merge_impl ::
  "('a \<Rightarrow> 'a \<Rightarrow> bool) \<Rightarrow> 'a list \<Rightarrow> 'a list \<Rightarrow> ('a \<Rightarrow> 'a \<Rightarrow> 'a option) \<Rightarrow> 'a list option" where
  "sorted_vector_merge_impl lt left right merge_fn =
     (let flags = sorted_vector_ret_flags lt left right True True in
      if fst flags then Some left
      else if snd flags then Some right
      else sorted_vector_merge_items lt merge_fn left right)"

definition sorted_vector_wrapper_merge ::
  "('a \<Rightarrow> 'a \<Rightarrow> bool) \<Rightarrow> 'a list option \<Rightarrow> 'a list option \<Rightarrow> ('a \<Rightarrow> 'a \<Rightarrow> 'a option)
    \<Rightarrow> 'a list option option" where
  "sorted_vector_wrapper_merge lt left right merge_fn =
     (if left = None then Some right
      else if right = None then Some left
      else if left = right then Some left
      else do { left_ptr \<leftarrow> left; right_ptr \<leftarrow> right;
                data \<leftarrow> sorted_vector_merge_impl lt left_ptr right_ptr merge_fn;
                Some (Some data) })"

subsection \<open>Access and update\<close>

lemma vector_at_in_range [simp]: "i < length data \<Longrightarrow> vector_at data i = Some (data ! i)"
  by (simp add: vector_at_def)

lemma vector_at_out_of_range [simp]: "\<not> i < length data \<Longrightarrow> vector_at data i = None"
  by (simp add: vector_at_def rs_assert_def index_def)

lemma vector_change_in_range [simp]:
  "i < length data \<Longrightarrow> vector_change data i v = Some (data[i := v])"
  by (simp add: vector_change_def)

lemma vector_change_out_of_range [simp]: "\<not> i < length data \<Longrightarrow> vector_change data i v = None"
  by (simp add: vector_change_def rs_assert_def index_set_def)

lemma vector_at_eq_Some: "vector_at data i = Some x \<longleftrightarrow> i < length data \<and> data ! i = x"
  by (cases "i < length data") auto

lemma vector_change_eq_Some:
  "vector_change data i v = Some ys \<longleftrightarrow> i < length data \<and> ys = data[i := v]"
  by (cases "i < length data") auto

lemma vector_wrapper_simps [simp]:
  "vector_wrapper_len None = 0" "vector_wrapper_len (Some xs) = length xs"
  "vector_wrapper_at None i = None" "vector_wrapper_at (Some xs) i = vector_at xs i"
  "vector_wrapper_iter None = []" "vector_wrapper_iter (Some xs) = xs"
  "vector_wrapper_push None v = Some [v]" "vector_wrapper_push (Some xs) v = Some (xs @ [v])"
  "vector_wrapper_change None i v = Some None"
  "vector_wrapper_modify None f = None" "vector_wrapper_modify (Some xs) f = Some (map f xs)"
  by (simp_all add: vector_wrapper_len_def vector_wrapper_at_def vector_wrapper_iter_def
      vector_wrapper_push_def vector_push_def vector_wrapper_change_def vector_wrapper_modify_def
      vector_modify_def)

lemma vector_wrapper_change_in_range [simp]:
  "i < length xs \<Longrightarrow> vector_wrapper_change (Some xs) i v = Some (Some (xs[i := v]))"
  by (simp add: vector_wrapper_change_def)

subsection \<open>Merging vectors\<close>

text \<open>The specification of a vector merge: combine item by item, keep the tail of the longer vector.\<close>

fun list_join :: "('a \<Rightarrow> 'a \<Rightarrow> 'a) \<Rightarrow> 'a list \<Rightarrow> 'a list \<Rightarrow> 'a list" where
  "list_join g [] ys = ys"
| "list_join g (x # xs) [] = x # xs"
| "list_join g (x # xs) (y # ys) = g x y # list_join g xs ys"

lemma length_list_join [simp]: "length (list_join g xs ys) = max (length xs) (length ys)"
  by (induction g xs ys rule: list_join.induct) auto

lemma list_join_Nil2 [simp]: "list_join g xs [] = xs"
  by (cases xs) auto

lemma nth_list_join:
  "i < length xs \<Longrightarrow> i < length ys \<Longrightarrow> list_join g xs ys ! i = g (xs ! i) (ys ! i)"
  by (induction g xs ys arbitrary: i rule: list_join.induct) (auto simp: nth_Cons split: nat.splits)

lemma list_join_commute:
  assumes "\<And>x y. x \<in> set xs \<Longrightarrow> y \<in> set ys \<Longrightarrow> g x y = g y x"
  shows "list_join g xs ys = list_join g ys xs"
  using assms by (induction g xs ys rule: list_join.induct) auto

lemma list_join_assoc:
  assumes "\<And>x y z. g (g x y) z = g x (g y z)"
  shows "list_join g (list_join g xs ys) zs = list_join g xs (list_join g ys zs)"
proof (induction xs arbitrary: ys zs)
  case (Cons x xs)
  then show ?case using assms by (cases ys; cases zs) auto
qed simp

lemma list_join_idem: "(\<And>x. x \<in> set xs \<Longrightarrow> g x x = x) \<Longrightarrow> list_join g xs xs = xs"
  by (induction xs) auto

lemma vector_merge_items_total:
  assumes "\<And>x y. x \<in> set ls \<union> set rs \<Longrightarrow> y \<in> set ls \<union> set rs \<Longrightarrow> f x y = Some (g x y)"
    and "\<And>x. x \<in> set ls \<union> set rs \<Longrightarrow> merge_all \<Longrightarrow> g x x = x"
  shows "vector_merge_items merge_all f ls rs = Some (list_join g ls rs)"
  using assms
proof (induction merge_all f ls rs rule: vector_merge_items.induct)
  case (4 merge_all merge_fn l ls r rs)
  then have "vector_merge_items merge_all merge_fn ls rs = Some (list_join g ls rs)" by simp
  with "4.prems" show ?case by simp
qed auto

text \<open>
  The shortcuts of \<^verbatim>\<open>merge_impl\<close> are sound: where one of the flags survives the first loop, the second
  loop would have produced that vector, provided merging an item with itself gives it back.
\<close>

lemma vector_ret_flags_left:
  "fst (vector_ret_flags ls rs) \<Longrightarrow> (\<And>x. x \<in> set ls \<union> set rs \<Longrightarrow> g x x = x) \<Longrightarrow> list_join g ls rs = ls"
  by (induction ls rs rule: vector_ret_flags.induct) (auto split: if_splits)

lemma vector_ret_flags_right:
  "snd (vector_ret_flags ls rs) \<Longrightarrow> (\<And>x. x \<in> set ls \<union> set rs \<Longrightarrow> g x x = x) \<Longrightarrow> list_join g ls rs = rs"
  by (induction ls rs rule: vector_ret_flags.induct) (auto split: if_splits)

lemma vector_merge_impl_total:
  assumes "\<And>x y. x \<in> set ls \<union> set rs \<Longrightarrow> y \<in> set ls \<union> set rs \<Longrightarrow> f x y = Some (g x y)"
    and "\<And>x. x \<in> set ls \<union> set rs \<Longrightarrow> g x x = x"
  shows "vector_merge_impl ls rs merge_all f = Some (list_join g ls rs)"
  using vector_merge_items_total [where f = f and g = g and ls = ls and rs = rs] assms
    vector_ret_flags_left [of ls rs g] vector_ret_flags_right [of ls rs g]
  by (simp add: vector_merge_impl_def Let_def)

text \<open>
  With \<open>merge_all\<close> every item goes through the merge function, so the function need not keep an item
  merged with itself.
\<close>

lemma vector_merge_impl_all:
  assumes "length ls = length rs"
    and "\<And>i. i < length ls \<Longrightarrow> f (ls ! i) (rs ! i) = Some (g (ls ! i) (rs ! i))"
  shows "vector_merge_impl ls rs True f = Some (map2 g ls rs)"
proof -
  have "vector_merge_items True f ls rs = Some (map2 g ls rs)" using assms
  proof (induction ls rs rule: list_induct2)
    case (Cons l ls r rs)
    have "f l r = Some (g l r)" using Cons.prems [of 0] by simp
    moreover have "vector_merge_items True f ls rs = Some (map2 g ls rs)"
      using Cons.IH Cons.prems by (metis Suc_less_eq length_Cons nth_Cons_Suc)
    ultimately show ?case by simp
  qed simp
  then show ?thesis by (simp add: vector_merge_impl_def)
qed

lemma list_join_eq_map2: "length xs = length ys \<Longrightarrow> list_join g xs ys = map2 g xs ys"
  by (induction g xs ys rule: list_join.induct) auto

subsection \<open>Sorted vectors as finite maps\<close>

definition key_sorted :: "('a \<Rightarrow> 'k::linorder) \<Rightarrow> 'a list \<Rightarrow> bool" where
  "key_sorted key xs \<longleftrightarrow> sorted_wrt (<) (map key xs)"

definition key_map :: "('a \<Rightarrow> 'k) \<Rightarrow> 'a list \<Rightarrow> 'k \<rightharpoonup> 'a" where
  "key_map key xs = map_of (map (\<lambda>x. (key x, x)) xs)"

text \<open>The specification of a sorted merge, with a total function for two items of the same key.\<close>

fun key_merge :: "('a \<Rightarrow> 'k::linorder) \<Rightarrow> ('a \<Rightarrow> 'a \<Rightarrow> 'a) \<Rightarrow> 'a list \<Rightarrow> 'a list \<Rightarrow> 'a list" where
  "key_merge key g [] rs = rs"
| "key_merge key g (l # ls) [] = l # ls"
| "key_merge key g (l # ls) (r # rs) =
     (if key l < key r then l # key_merge key g ls (r # rs)
      else if key r < key l then r # key_merge key g (l # ls) rs
      else g l r # key_merge key g ls rs)"

lemma key_merge_Nil2 [simp]: "key_merge key g ls [] = ls"
  by (cases ls) auto

lemma key_sorted_simps [simp]:
  "key_sorted key []"
  "key_sorted key (x # xs) \<longleftrightarrow> (\<forall>y \<in> set xs. key x < key y) \<and> key_sorted key xs"
  by (auto simp: key_sorted_def)

lemma key_sorted_append:
  "key_sorted key (xs @ ys) \<longleftrightarrow>
     key_sorted key xs \<and> key_sorted key ys \<and> (\<forall>x \<in> set xs. \<forall>y \<in> set ys. key x < key y)"
  by (induction xs) auto

lemma key_map_simps [simp]:
  "key_map key [] k = None"
  "key_map key (x # xs) k = (if key x = k then Some x else key_map key xs k)"
  by (auto simp: key_map_def)

lemma key_map_SomeD: "key_map key xs k = Some x \<Longrightarrow> x \<in> set xs \<and> key x = k"
  by (induction xs) (auto split: if_splits)

lemma key_map_None_iff: "key_map key xs k = None \<longleftrightarrow> k \<notin> key ` set xs"
  by (induction xs) auto

lemma key_map_member: "key_sorted key xs \<Longrightarrow> x \<in> set xs \<Longrightarrow> key_map key xs (key x) = Some x"
  by (induction xs) auto

lemma key_map_in_set_iff:
  "key_sorted key xs \<Longrightarrow> key_map key xs k = Some x \<longleftrightarrow> x \<in> set xs \<and> key x = k"
  using key_map_member key_map_SomeD by fastforce

lemma key_sorted_inj: "key_sorted key xs \<Longrightarrow> x \<in> set xs \<Longrightarrow> y \<in> set xs \<Longrightarrow> key x = key y \<Longrightarrow> x = y"
  by (metis key_map_member option.inject)

lemma dom_key_map: "dom (key_map key xs) = key ` set xs"
  by (auto simp: key_map_None_iff dom_def simp flip: not_None_eq)

text \<open>A sorted vector is determined by its map.\<close>

lemma key_map_inject:
  assumes "key_sorted key xs" and "key_sorted key ys" and "key_map key xs = key_map key ys"
  shows "xs = ys"
proof -
  have "set xs = set ys"
    using assms key_map_in_set_iff by (metis subsetI subset_antisym)
  moreover have "sorted_wrt (\<lambda>x y. key x < key y) xs" "sorted_wrt (\<lambda>x y. key x < key y) ys"
    using assms by (simp_all add: key_sorted_def sorted_wrt_map)
  ultimately show ?thesis
  proof (induction xs arbitrary: ys)
    case (Cons x xs)
    then obtain y ys' where ys: "ys = y # ys'" by (cases ys) auto
    from Cons.prems have "x = y"
      unfolding ys by (metis dual_order.asym insert_iff list.simps(15) sorted_wrt.simps(2))
    with Cons.prems have "set xs = set ys'"
      unfolding ys by (simp add: set_eq_iff) (metis order_less_irrefl)
    with Cons \<open>x = y\<close> show ?case unfolding ys by simp
  qed simp
qed

lemma key_merge_keys:
  assumes "\<And>x y. x \<in> set ls \<Longrightarrow> y \<in> set rs \<Longrightarrow> key x = key y \<Longrightarrow> key (g x y) = key x"
  shows "key ` set (key_merge key g ls rs) = key ` set ls \<union> key ` set rs"
  using assms
proof (induction key g ls rs rule: key_merge.induct)
  case (3 key g l ls r rs)
  consider "key l < key r" | "key r < key l" | "key l = key r" by force
  then show ?case
  proof cases
    case 3
    with "3.prems" have "key (g l r) = key r" by simp
    moreover have "key ` set (key_merge key g ls rs) = key ` set ls \<union> key ` set rs"
      using 3 "3.prems" by (intro "3.IH") auto
    ultimately show ?thesis using 3 by auto
  qed (use "3.IH" "3.prems" in auto)
qed auto

lemma key_merge_sorted:
  assumes "key_sorted key ls" and "key_sorted key rs"
    and "\<And>x y. x \<in> set ls \<Longrightarrow> y \<in> set rs \<Longrightarrow> key x = key y \<Longrightarrow> key (g x y) = key x"
  shows "key_sorted key (key_merge key g ls rs)"
  using assms
proof (induction key g ls rs rule: key_merge.induct)
  case (3 key g l ls r rs)
  have below: "\<forall>z \<in> set (key_merge key g xs ys). k < key z"
    if "\<forall>x \<in> set xs. k < key x" "\<forall>y \<in> set ys. k < key y" "set xs \<subseteq> set (l # ls)" "set ys \<subseteq> set (r # rs)"
    for k xs ys
  proof -
    have "key ` set (key_merge key g xs ys) = key ` set xs \<union> key ` set ys"
      using that "3.prems"(3) by (intro key_merge_keys) blast
    then have "key z \<in> key ` set xs \<union> key ` set ys" if "z \<in> set (key_merge key g xs ys)" for z
      using that by blast
    with that(1,2) show ?thesis by fastforce
  qed
  consider "key l < key r" | "key r < key l" | "key l = key r" by force
  then show ?case
  proof cases
    case 1
    with "3.prems" have "\<forall>z \<in> set (key_merge key g ls (r # rs)). key l < key z"
      by (intro below) auto
    moreover have "key_sorted key (key_merge key g ls (r # rs))"
      using 1 "3.prems" by (intro "3.IH"(1)) auto
    ultimately show ?thesis using 1 by simp
  next
    case 2
    with "3.prems" have "\<forall>z \<in> set (key_merge key g (l # ls) rs). key r < key z"
      by (intro below) auto
    moreover have "key_sorted key (key_merge key g (l # ls) rs)"
      using 2 "3.prems" by (intro "3.IH"(2)) auto
    ultimately show ?thesis using 2 by (auto dest: order.asym)
  next
    case 3
    with "3.prems" have "\<forall>z \<in> set (key_merge key g ls rs). key l < key z"
      by (intro below) auto
    moreover have "key_sorted key (key_merge key g ls rs)"
      using 3 "3.prems" by (intro "3.IH"(3)) auto
    moreover have "key (g l r) = key l" using 3 "3.prems" by simp
    ultimately show ?thesis using 3 by simp
  qed
qed auto

lemma key_map_merge:
  assumes "key_sorted key ls" and "key_sorted key rs"
    and "\<And>x y. x \<in> set ls \<Longrightarrow> y \<in> set rs \<Longrightarrow> key x = key y \<Longrightarrow> key (g x y) = key x"
  shows "key_map key (key_merge key g ls rs) k = combine_options g (key_map key ls k) (key_map key rs k)"
  using assms
proof (induction key g ls rs rule: key_merge.induct)
  case (1 key g rs)
  then show ?case by simp
next
  case (2 key g l ls)
  then show ?case by simp
next
  case (3 key g l ls r rs)
  have absent: "key_map key xs j = None" if "\<forall>x \<in> set xs. j < key x" for xs j
    using that by (auto simp: key_map_None_iff)
  consider "key l < key r" | "key r < key l" | "key l = key r" by force
  then show ?case
  proof cases
    case 1
    with "3.prems" have "key_map key (r # rs) (key l) = None" by (intro absent) auto
    moreover have "key_map key (key_merge key g ls (r # rs)) k =
      combine_options g (key_map key ls k) (key_map key (r # rs) k)"
      using 1 "3.prems" by (intro "3.IH"(1)) auto
    ultimately show ?thesis using 1 by (auto split: if_splits)
  next
    case 2
    with "3.prems" have "key_map key (l # ls) (key r) = None" by (intro absent) auto
    moreover have "key_map key (key_merge key g (l # ls) rs) k =
      combine_options g (key_map key (l # ls) k) (key_map key rs k)"
      using 2 "3.prems" by (intro "3.IH"(2)) auto
    ultimately show ?thesis using 2 by (auto split: if_splits)
  next
    case 3
    with "3.prems" have "key (g l r) = key l" by simp
    moreover have "key_map key (key_merge key g ls rs) k =
      combine_options g (key_map key ls k) (key_map key rs k)"
      using 3 "3.prems" by (intro "3.IH"(3)) auto
    ultimately show ?thesis using 3 by simp
  qed
qed

lemma set_key_merge:
  assumes "z \<in> set (key_merge key g ls rs)"
  shows "z \<in> set ls \<or> z \<in> set rs \<or> (\<exists>x \<in> set ls. \<exists>y \<in> set rs. key x = key y \<and> z = g x y)"
  using assms
proof (induction key g ls rs rule: key_merge.induct)
  case (3 key g l ls r rs)
  consider "key l < key r" | "key r < key l" | "key l = key r" by force
  then show ?case
  proof cases
    case 1
    with "3.prems" have "z = l \<or> z \<in> set (key_merge key g ls (r # rs))" by simp
    with "3.IH"(1) [OF 1] show ?thesis by (elim disjE) auto
  next
    case 2
    with "3.prems" have "z = r \<or> z \<in> set (key_merge key g (l # ls) rs)" by (simp add: order.asym split: if_splits)
    with "3.IH"(2) [OF _ 2] 2 show ?thesis by (elim disjE) (auto dest: order.asym)
  next
    case 3
    with "3.prems" have "z = g l r \<or> z \<in> set (key_merge key g ls rs)" by simp
    with "3.IH"(3) 3 show ?thesis by (elim disjE) auto
  qed
qed auto

lemma key_merge_commute:
  assumes sorted: "key_sorted key ls" "key_sorted key rs"
    and key: "\<And>x y. x \<in> set ls \<Longrightarrow> y \<in> set rs \<Longrightarrow> key x = key y \<Longrightarrow> key (g x y) = key x"
    and comm: "\<And>x y. x \<in> set ls \<Longrightarrow> y \<in> set rs \<Longrightarrow> key x = key y \<Longrightarrow> g x y = g y x"
  shows "key_merge key g ls rs = key_merge key g rs ls"
proof -
  have key': "key (g x y) = key x" if "x \<in> set rs" "y \<in> set ls" "key x = key y" for x y
    using key [OF that(2,1) that(3) [symmetric]] comm [OF that(2,1) that(3) [symmetric]] that(3) by metis
  have lr: "key_map key (key_merge key g ls rs) k = combine_options g (key_map key ls k) (key_map key rs k)" for k
    by (rule key_map_merge [OF sorted]) (rule key)
  have rl: "key_map key (key_merge key g rs ls) k = combine_options g (key_map key rs k) (key_map key ls k)" for k
    by (rule key_map_merge [OF sorted(2,1)]) (rule key')
  have "key_map key (key_merge key g ls rs) k = key_map key (key_merge key g rs ls) k" for k
  proof (cases "key_map key ls k"; cases "key_map key rs k")
    fix x y assume *: "key_map key ls k = Some x" "key_map key rs k = Some y"
    then have "g x y = g y x"
      using key_map_SomeD [OF *(1)] key_map_SomeD [OF *(2)] by (intro comm) auto
    with * show ?thesis by (simp add: lr rl)
  qed (simp_all add: lr rl)
  then have "key_map key (key_merge key g ls rs) = key_map key (key_merge key g rs ls)" ..
  moreover have "key_sorted key (key_merge key g ls rs)"
    by (rule key_merge_sorted [OF sorted]) (rule key)
  moreover have "key_sorted key (key_merge key g rs ls)"
    by (rule key_merge_sorted [OF sorted(2,1)]) (rule key')
  ultimately show ?thesis
    by (intro key_map_inject [where key = key])
qed

lemma key_merge_idem:
  assumes "key_sorted key xs" and "\<And>x. x \<in> set xs \<Longrightarrow> g x x = x"
  shows "key_merge key g xs xs = xs"
  using assms by (induction xs) auto

text \<open>A property of items that a merged item has iff one of the two had it, read key by key.\<close>

lemma key_merge_relation:
  assumes "key_sorted key ls" and "key_sorted key rs"
    and keys: "\<And>x y. x \<in> set ls \<Longrightarrow> y \<in> set rs \<Longrightarrow> key x = key y \<Longrightarrow> key (g x y) = key x"
    and join: "\<And>x y. x \<in> set ls \<Longrightarrow> y \<in> set rs \<Longrightarrow> key x = key y \<Longrightarrow> R (g x y) \<longleftrightarrow> R x \<or> R y"
  shows "(\<exists>z \<in> set (key_merge key g ls rs). key z = k \<and> R z) \<longleftrightarrow>
    (\<exists>x \<in> set ls. key x = k \<and> R x) \<or> (\<exists>y \<in> set rs. key y = k \<and> R y)"
proof -
  have "key_map key (key_merge key g ls rs) k = combine_options g (key_map key ls k) (key_map key rs k)"
    by (rule key_map_merge [OF assms(1,2)]) (rule keys)
  moreover have "key_sorted key (key_merge key g ls rs)"
    by (rule key_merge_sorted [OF assms(1,2)]) (rule keys)
  moreover have "(\<exists>z \<in> set zs. key z = k \<and> R z) \<longleftrightarrow> (\<exists>z. key_map key zs k = Some z \<and> R z)" if "key_sorted key zs" for zs
    using key_map_in_set_iff [OF that] by blast
  ultimately show ?thesis
    using assms(1,2) join by (cases "key_map key ls k"; cases "key_map key rs k") (auto dest!: key_map_SomeD)
qed

subsection \<open>Pushing into a sorted vector\<close>

fun key_insert :: "('a \<Rightarrow> 'k::linorder) \<Rightarrow> 'a \<Rightarrow> 'a list \<Rightarrow> 'a list" where
  "key_insert key v [] = [v]"
| "key_insert key v (x # xs) =
     (if key v < key x then v # x # xs
      else if key x < key v then x # key_insert key v xs
      else v # xs)"

lemma set_key_insert:
  "key_sorted key xs \<Longrightarrow> set (key_insert key v xs) = insert v {x \<in> set xs. key x \<noteq> key v}"
  by (induction xs) (auto dest: order.asym)

lemma key_insert_sorted: "key_sorted key xs \<Longrightarrow> key_sorted key (key_insert key v xs)"
  by (induction xs) (auto simp: set_key_insert intro: order.strict_trans)

lemma key_map_insert: "key_sorted key xs \<Longrightarrow> key_map key (key_insert key v xs) = (key_map key xs)(key v \<mapsto> v)"
  by (induction xs) (auto simp: fun_eq_iff)

lemma key_insert_split:
  assumes "\<forall>x \<in> set xs. key x < key v" and "\<forall>y \<in> set ys. key v < key y"
  shows "key_insert key v (xs @ ys) = xs @ v # ys"
    and "key u = key v \<Longrightarrow> key_insert key v (xs @ u # ys) = xs @ v # ys"
  using assms by (induction xs) (cases ys, auto dest: order.asym)+


lemma key_sorted_nth_less:
  "key_sorted key xs \<Longrightarrow> i < j \<Longrightarrow> j < length xs \<Longrightarrow> key (xs ! i) < key (xs ! j)"
  unfolding key_sorted_def using sorted_wrt_nth_less [of "(<)" "map key xs" i j] by simp

lemma key_sorted_take_less:
  assumes "key_sorted key xs" and "i \<le> length xs" and "0 < i \<Longrightarrow> key (xs ! (i - 1)) < k"
  shows "\<forall>x \<in> set (take i xs). key x < k"
proof
  fix x assume "x \<in> set (take i xs)"
  then obtain j where j: "j < i" "x = xs ! j" by (auto simp: in_set_conv_nth)
  then have "j = i - 1 \<or> key (xs ! j) < key (xs ! (i - 1))"
    using key_sorted_nth_less [OF assms(1), of j "i - 1"] assms(2) by force
  with j assms(3) show "key x < k" by auto
qed

lemma key_sorted_drop_less:
  assumes "key_sorted key xs" and "i < length xs \<Longrightarrow> k < key (xs ! i)"
  shows "\<forall>x \<in> set (drop i xs). k < key x"
proof
  fix x assume "x \<in> set (drop i xs)"
  then obtain j where "j < length xs - i" "x = xs ! (i + j)" by (auto simp: in_set_conv_nth)
  then have j: "i + j < length xs" "x = xs ! (i + j)" by auto
  then have "j = 0 \<or> key (xs ! i) < key (xs ! (i + j))"
    using key_sorted_nth_less [OF assms(1), of i "i + j"] by force
  with j assms(2) show "k < key x" by auto
qed

lemma sorted_vector_ret_flags_fst: "fst (sorted_vector_ret_flags lt ls rs rl rr) \<Longrightarrow> rl"
  by (induction lt ls rs rl rr rule: sorted_vector_ret_flags.induct) (auto split: if_splits)

lemma sorted_vector_ret_flags_snd: "snd (sorted_vector_ret_flags lt ls rs rl rr) \<Longrightarrow> rr"
  by (induction lt ls rs rl rr rule: sorted_vector_ret_flags.induct) (auto split: if_splits)

subsection \<open>The contract of a sorting predicate\<close>

text \<open>
  Every \<^verbatim>\<open>SortingPredicate\<close> of the code compares one key of the items. Under that contract the sorted
  vector operations are the specification functions above.
\<close>

locale sorting_predicate =
  fixes lt :: "'a \<Rightarrow> 'a \<Rightarrow> bool"
    and key :: "'a \<Rightarrow> 'k::linorder"
  assumes lt_key: "lt x y \<longleftrightarrow> key x < key y"
begin

lemma search_spec:
  assumes sorted: "key_sorted key data"
    and "- 1 \<le> left" "left < right" "right \<le> int (length data)"
    and "0 \<le> left \<Longrightarrow> key (data ! nat left) < key v"
    and "right < int (length data) \<Longrightarrow> key v < key (data ! nat right)"
  shows "(\<exists>i \<le> length data. sorted_vector_search lt data v left right = Some (Missing i) \<and>
       (\<forall>x \<in> set (take i data). key x < key v) \<and> (\<forall>x \<in> set (drop i data). key v < key x)) \<or>
    (\<exists>i < length data. sorted_vector_search lt data v left right = Some (Found i) \<and> key (data ! i) = key v)"
  using assms(2-)
proof (induction "nat (right - left)" arbitrary: left right rule: less_induct)
  case less
  show ?case
  proof (cases "right - left > 1")
    case True
    define m where "m = (right + left) div 2"
    have m: "left < m" "m < right" "0 \<le> m" "nat m < length data"
      using True less.prems by (auto simp: m_def)
    have step: "sorted_vector_search lt data v left right =
      (if key (data ! nat m) < key v then sorted_vector_search lt data v m right
       else if key v < key (data ! nat m) then sorted_vector_search lt data v left m
       else Some (Found (nat m)))"
      using True m by (subst sorted_vector_search.simps) (simp add: m_def [symmetric] index_int_def lt_key)
    consider "key (data ! nat m) < key v" | "key v < key (data ! nat m)" | "key (data ! nat m) = key v"
      by force
    then show ?thesis
    proof cases
      case 1
      with m less.prems less.hyps [of right m] step show ?thesis by simp
    next
      case 2
      then have "\<not> key (data ! nat m) < key v" by auto
      with 2 m less.prems less.hyps [of m left] step show ?thesis by simp
    next
      case 3
      with m step show ?thesis by auto
    qed
  next
    case False
    with less.prems have l: "left = right - 1" "0 \<le> right" by auto
    have "\<forall>x \<in> set (take (nat right) data). key x < key v"
      using l less.prems by (intro key_sorted_take_less [OF sorted]) (auto simp: nat_diff_distrib)
    moreover have "\<forall>x \<in> set (drop (nat right) data). key v < key x"
      using l less.prems by (intro key_sorted_drop_less [OF sorted]) auto
    moreover have "sorted_vector_search lt data v left right = Some (Missing (nat right))"
      using False by (subst sorted_vector_search.simps) simp
    moreover have "nat right \<le> length data" using less.prems by simp
    ultimately show ?thesis by blast
  qed
qed

lemma push_total:
  assumes "key_sorted key data"
  shows "sorted_vector_push lt (Some data) v = Some (Some (key_insert key v data))"
proof -
  from assms search_spec [of data "- 1" "int (length data)" v]
  consider (missing) i where "i \<le> length data"
      "sorted_vector_search lt data v (- 1) (int (length data)) = Some (Missing i)"
      "\<forall>x \<in> set (take i data). key x < key v" "\<forall>x \<in> set (drop i data). key v < key x"
    | (found) i where "i < length data"
      "sorted_vector_search lt data v (- 1) (int (length data)) = Some (Found i)" "key (data ! i) = key v"
    by auto
  then show ?thesis
  proof cases
    case missing
    then have "key_insert key v (take i data @ drop i data) = take i data @ v # drop i data"
      by (intro key_insert_split)
    with missing show ?thesis by (simp add: sorted_vector_push_def)
  next
    case found
    have split: "data = take i data @ data ! i # drop (Suc i) data"
      using found(1) by (rule id_take_nth_drop)
    have "key_insert key v (take i data @ data ! i # drop (Suc i) data) = take i data @ v # drop (Suc i) data"
      using assms found by (subst (asm) split, intro key_insert_split) (auto simp: key_sorted_append)
    then have "key_insert key v data = data[i := v]"
      using split found(1) by (metis upd_conv_take_nth_drop)
    moreover have "data[i := v] = data" if "data ! i = v" using that by auto
    ultimately show ?thesis using found by (auto simp: sorted_vector_push_def)
  qed
qed

lemma push_None_total: "sorted_vector_push lt None v = Some (Some [v])"
  by (simp add: sorted_vector_push_def)

lemma merge_items_total:
  assumes "\<And>x y. x \<in> set ls \<Longrightarrow> y \<in> set rs \<Longrightarrow> key x = key y \<Longrightarrow> f x y = Some (g x y)"
  shows "sorted_vector_merge_items lt f ls rs = Some (key_merge key g ls rs)"
  using assms lt_key
proof (induction key g ls rs rule: key_merge.induct)
  case (3 key g l ls r rs)
  consider "key l < key r" | "key r < key l" | "key l = key r" by force
  then show ?case
  proof cases
    case 1
    have "sorted_vector_merge_items lt f ls (r # rs) = Some (key_merge key g ls (r # rs))"
      using 1 "3.prems" by (intro "3.IH"(1)) auto
    with 1 show ?thesis by (simp add: "3.prems"(2) [of l r])
  next
    case 2
    then have "\<not> key l < key r" by auto
    moreover from this have "sorted_vector_merge_items lt f (l # ls) rs = Some (key_merge key g (l # ls) rs)"
      using 2 "3.prems" by (intro "3.IH"(2)) auto
    ultimately show ?thesis using 2 by (simp add: "3.prems"(2) [of l r] "3.prems"(2) [of r l])
  next
    case 3
    have "sorted_vector_merge_items lt f ls rs = Some (key_merge key g ls rs)"
      using 3 "3.prems" by (intro "3.IH"(3)) auto
    moreover have "f l r = Some (g l r)" using 3 "3.prems"(1) by simp
    ultimately show ?thesis using 3 by (simp add: "3.prems"(2) [of l r] "3.prems"(2) [of r l])
  qed
qed auto

lemma ret_flags_left:
  assumes "fst (sorted_vector_ret_flags lt ls rs ret_left ret_right)"
    and "\<And>x. x \<in> set ls \<Longrightarrow> g x x = x"
  shows "key_merge key g ls rs = ls"
  using assms
proof (induction ls arbitrary: rs ret_left ret_right)
  case Nil
  then show ?case by (cases rs) auto
next
  case (Cons l ls)
  then show ?case
  proof (cases rs)
    case r: (Cons r rs')
    note cmp = lt_key [of l r] lt_key [of r l]
    consider "key l < key r" | "key r < key l" | "key l = key r" by force
    then show ?thesis
    proof cases
      case 1
      with r Cons.prems(1) have "fst (sorted_vector_ret_flags lt ls rs ret_left False)" by (simp add: cmp)
      then have "key_merge key g ls rs = ls" using Cons.prems(2) by (intro Cons.IH) auto
      with 1 r show ?thesis by simp
    next
      case 2
      then have "\<not> key l < key r" by auto
      with 2 r Cons.prems(1) have "fst (sorted_vector_ret_flags lt (l # ls) rs' False ret_right)" by (simp add: cmp)
      then show ?thesis by (auto dest: sorted_vector_ret_flags_fst)
    next
      case 3
      with r Cons.prems(1) have "l = r" "fst (sorted_vector_ret_flags lt ls rs' ret_left ret_right)"
        by (auto simp: cmp split: if_splits)
      moreover from this(2) have "key_merge key g ls rs' = ls" using Cons.prems(2) by (intro Cons.IH) auto
      ultimately show ?thesis using r Cons.prems(2) by simp
    qed
  qed simp
qed

lemma ret_flags_right:
  assumes "snd (sorted_vector_ret_flags lt ls rs ret_left ret_right)"
    and "\<And>x. x \<in> set rs \<Longrightarrow> g x x = x"
  shows "key_merge key g ls rs = rs"
  using assms
proof (induction rs arbitrary: ls ret_left ret_right)
  case Nil
  then show ?case by (cases ls) auto
next
  case (Cons r rs)
  then show ?case
  proof (cases ls)
    case l: (Cons l ls')
    note cmp = lt_key [of l r] lt_key [of r l]
    consider "key l < key r" | "key r < key l" | "key l = key r" by force
    then show ?thesis
    proof cases
      case 1
      with l Cons.prems(1) have "snd (sorted_vector_ret_flags lt ls' (r # rs) ret_left False)" by (simp add: cmp)
      then show ?thesis by (auto dest: sorted_vector_ret_flags_snd)
    next
      case 2
      then have nlt: "\<not> key l < key r" by auto
      with 2 l Cons.prems(1) have "snd (sorted_vector_ret_flags lt ls rs False ret_right)" by (simp add: cmp)
      then have "key_merge key g ls rs = rs" using Cons.prems(2) by (intro Cons.IH) auto
      with 2 nlt l show ?thesis by simp
    next
      case 3
      with l Cons.prems(1) have "l = r" "snd (sorted_vector_ret_flags lt ls' rs ret_left ret_right)"
        by (auto simp: cmp split: if_splits)
      moreover from this(2) have "key_merge key g ls' rs = rs" using Cons.prems(2) by (intro Cons.IH) auto
      ultimately show ?thesis using l Cons.prems(2) by simp
    qed
  qed simp
qed

lemma merge_impl_total:
  assumes "\<And>x y. x \<in> set ls \<Longrightarrow> y \<in> set rs \<Longrightarrow> key x = key y \<Longrightarrow> f x y = Some (g x y)"
    and "\<And>x. x \<in> set ls \<union> set rs \<Longrightarrow> g x x = x"
  shows "sorted_vector_merge_impl lt ls rs f = Some (key_merge key g ls rs)"
proof -
  have "sorted_vector_merge_items lt f ls rs = Some (key_merge key g ls rs)"
    by (rule merge_items_total) (rule assms(1))
  moreover have "key_merge key g ls rs = ls" if "fst (sorted_vector_ret_flags lt ls rs True True)"
    by (rule ret_flags_left [OF that]) (simp add: assms(2))
  moreover have "key_merge key g ls rs = rs" if "snd (sorted_vector_ret_flags lt ls rs True True)"
    by (rule ret_flags_right [OF that]) (simp add: assms(2))
  ultimately show ?thesis by (simp add: sorted_vector_merge_impl_def Let_def)
qed

lemma wrapper_merge_total:
  assumes "\<And>xs. left = Some xs \<Longrightarrow> key_sorted key xs"
    and "\<And>ls rs x y. left = Some ls \<Longrightarrow> right = Some rs \<Longrightarrow> x \<in> set ls \<Longrightarrow> y \<in> set rs
           \<Longrightarrow> key x = key y \<Longrightarrow> f x y = Some (g x y)"
    and "\<And>xs x. left = Some xs \<or> right = Some xs \<Longrightarrow> x \<in> set xs \<Longrightarrow> g x x = x"
  shows "sorted_vector_wrapper_merge lt left right f = Some (combine_options (key_merge key g) left right)"
proof (cases left; cases right)
  fix ls rs assume *: "left = Some ls" "right = Some rs"
  have "sorted_vector_merge_impl lt ls rs f = Some (key_merge key g ls rs)"
    using * by (intro merge_impl_total) (auto intro: assms(2,3))
  moreover have "key_merge key g ls ls = ls" if "ls = rs"
    using * assms(1,3) by (intro key_merge_idem) auto
  ultimately show ?thesis using * by (auto simp: sorted_vector_wrapper_merge_def)
qed (simp_all add: sorted_vector_wrapper_merge_def)

end

end
