(* ===== verification/VS_Description.thy ===== *)
theory VS_Description
  imports VS_Vector
begin

text \<open>
  The session description (\<^verbatim>\<open>validator-session/src/session_description.rs\<close>): the list of validators with
  their weights, the cutoff weight of a decision, node priorities, the author of a vote-for message,
  timestamps and delays, and the signature checks.

  Code outside the repository is a parameter: the record \<open>externals\<close> holds the TL serialisation of
  \<^verbatim>\<open>ton_api\<close>, the SHA-256 of \<^verbatim>\<open>ton_types\<close>, and key identifiers and signature verification of the ADNL
  keys. Random numbers, metrics and the object caches are not modelled here; \<^verbatim>\<open>get_ts\<close> computes with
  floating point numbers and is left out.

  The locale \<open>voting_power\<close> is what the voting components rely on: weights of sets of validators add
  up, and the cutoff is more than two thirds of the total weight.
\<close>

subsection \<open>Options, validators, parameters\<close>

text \<open>Points in time and durations are nanoseconds.\<close>

type_synonym sys_time = nat
type_synonym duration = nat
type_synonym public_key = u256
type_synonym public_key_hash = u256
type_synonym block_signature = bytes

record session_options =
  catchain_idle_timeout :: duration
  catchain_max_deps :: u32
  catchain_skip_processed_blocks :: bool
  round_candidates :: u32
  next_candidate_delay :: duration
  round_attempt_duration :: duration
  max_round_attempts :: u32
  max_block_size :: u32
  max_collated_data_size :: u32
  new_catchain_ids :: bool

definition from_millis :: "nat \<Rightarrow> duration" where
  "from_millis ms = ms * 1000000"

definition default_options :: session_options where
  "default_options = \<lparr>
     catchain_idle_timeout = from_millis 16000,
     catchain_max_deps = 4,
     catchain_skip_processed_blocks = False,
     round_candidates = 3,
     next_candidate_delay = from_millis 2000,
     round_attempt_duration = from_millis 16000,
     max_round_attempts = 4,
     max_block_size = push_bit 20 4,
     max_collated_data_size = push_bit 20 4,
     new_catchain_ids = False \<rparr>"

datatype tl_object =
    TlBlockId block_hash block_hash
  | TlBlockIdApprove block_hash block_hash
  | TlCandidateId public_key_hash block_hash block_hash block_hash

record externals =
  ext_serialize :: "tl_object \<Rightarrow> bytes"
  ext_sha256 :: "bytes \<Rightarrow> u256"
  ext_key_id :: "public_key \<Rightarrow> public_key_hash"
  ext_verify :: "public_key \<Rightarrow> bytes \<Rightarrow> block_signature \<Rightarrow> bool"

record session_node =
  node_adnl_id :: public_key_hash
  node_public_key :: public_key
  node_weight :: u64

record source =
  source_id :: public_key_hash
  source_public_key :: public_key
  source_adnl_id :: public_key_hash
  source_weight :: u64

record session_description =
  sd_options :: session_options
  sd_sources :: "source list"
  sd_rev_sources :: "public_key_hash \<rightharpoonup> u32"
  sd_cutoff_weight :: u64
  sd_total_weight :: u64
  sd_self_idx :: u32
  sd_current_time :: "sys_time option"
  sd_ext :: externals

subsection \<open>Creation\<close>

text \<open>The loop of \<^verbatim>\<open>SessionDescriptionImpl::new\<close> over the nodes.\<close>

fun session_description_new_loop ::
  "externals \<Rightarrow> session_node list \<Rightarrow> u64 \<Rightarrow> source list \<Rightarrow> (public_key_hash \<rightharpoonup> u32) \<Rightarrow> u32
    \<Rightarrow> u64 \<times> source list \<times> (public_key_hash \<rightharpoonup> u32)" where
  "session_description_new_loop ext [] total_weight sources rev_sources node_index =
     (total_weight, sources, rev_sources)"
| "session_description_new_loop ext (node # nodes) total_weight sources rev_sources node_index =
     session_description_new_loop ext nodes
       (total_weight + node_weight node)
       (sources @ [\<lparr> source_id = ext_key_id ext (node_public_key node),
                     source_public_key = node_public_key node,
                     source_adnl_id = node_adnl_id node,
                     source_weight = node_weight node \<rparr>])
       (rev_sources(ext_key_id ext (node_public_key node) \<mapsto> node_index))
       (node_index + 1)"

definition session_description_new ::
  "externals \<Rightarrow> session_options \<Rightarrow> session_node list \<Rightarrow> public_key_hash \<Rightarrow> session_description option" where
  "session_description_new ext options nodes local_id =
     (case session_description_new_loop ext nodes 0 [] Map.empty 0 of
        (total_weight, sources, rev_sources) \<Rightarrow>
          do { self_idx \<leftarrow> rev_sources local_id;
               Some \<lparr> sd_options = options,
                      sd_sources = sources,
                      sd_rev_sources = rev_sources,
                      sd_cutoff_weight = total_weight * 2 div 3 + 1,
                      sd_total_weight = total_weight,
                      sd_self_idx = self_idx,
                      sd_current_time = None,
                      sd_ext = ext \<rparr> })"

subsection \<open>Validators, weights and priorities\<close>

definition get_source :: "session_description \<Rightarrow> u32 \<Rightarrow> source option" where
  "get_source desc src_idx =
     do { rs_assert (unat src_idx < length (sd_sources desc)); index (sd_sources desc) (unat src_idx) }"

definition get_source_public_key_hash :: "session_description \<Rightarrow> u32 \<Rightarrow> public_key_hash option" where
  "get_source_public_key_hash desc src_idx = do { s \<leftarrow> get_source desc src_idx; Some (source_id s) }"

definition get_source_public_key :: "session_description \<Rightarrow> u32 \<Rightarrow> public_key option" where
  "get_source_public_key desc src_idx = do { s \<leftarrow> get_source desc src_idx; Some (source_public_key s) }"

definition get_source_adnl_id :: "session_description \<Rightarrow> u32 \<Rightarrow> public_key_hash option" where
  "get_source_adnl_id desc src_idx = do { s \<leftarrow> get_source desc src_idx; Some (source_adnl_id s) }"

definition get_source_index :: "session_description \<Rightarrow> public_key_hash \<Rightarrow> u32 option" where
  "get_source_index desc public_key_hash = sd_rev_sources desc public_key_hash"

definition get_node_weight :: "session_description \<Rightarrow> u32 \<Rightarrow> u64 option" where
  "get_node_weight desc src_idx = do { s \<leftarrow> get_source desc src_idx; Some (source_weight s) }"

definition get_total_nodes :: "session_description \<Rightarrow> u32" where
  "get_total_nodes desc = word_of_nat (length (sd_sources desc))"

definition export_nodes :: "session_description \<Rightarrow> public_key_hash list" where
  "export_nodes desc = map source_id (sd_sources desc)"

definition export_full_nodes :: "session_description \<Rightarrow> public_key list" where
  "export_full_nodes desc = map source_public_key (sd_sources desc)"

definition export_catchain_nodes :: "session_description \<Rightarrow> (public_key \<times> public_key_hash) list" where
  "export_catchain_nodes desc = map (\<lambda>s. (source_public_key s, source_adnl_id s)) (sd_sources desc)"

definition get_cutoff_weight :: "session_description \<Rightarrow> u64" where
  "get_cutoff_weight desc = sd_cutoff_weight desc"

definition get_node_priority :: "session_description \<Rightarrow> u32 \<Rightarrow> u32 \<Rightarrow> i32 option" where
  "get_node_priority desc src_idx round =
     do { rs_assert (get_total_nodes desc \<noteq> 0);
          let round = round mod get_total_nodes desc;
              src_idx = (if src_idx < round then src_idx + get_total_nodes desc else src_idx) in
          if src_idx - round < round_candidates (sd_options desc)
          then Some (as_i32 (src_idx - round)) else Some (- 1) }"

definition get_max_priority :: "session_description \<Rightarrow> u32" where
  "get_max_priority desc = round_candidates (sd_options desc) - 1"

definition get_vote_for_author :: "session_description \<Rightarrow> u32 \<Rightarrow> u32 option" where
  "get_vote_for_author desc attempt =
     do { rs_assert (get_total_nodes desc \<noteq> 0); Some (attempt mod get_total_nodes desc) }"

subsection \<open>Time\<close>

definition set_time :: "session_description \<Rightarrow> sys_time \<Rightarrow> session_description" where
  "set_time desc time = desc\<lparr>sd_current_time := Some time\<rparr>"

definition get_time :: "session_description \<Rightarrow> sys_time \<Rightarrow> sys_time" where
  "get_time desc now = (case sd_current_time desc of Some time \<Rightarrow> time | None \<Rightarrow> now)"

definition is_in_future :: "session_description \<Rightarrow> sys_time \<Rightarrow> sys_time \<Rightarrow> bool" where
  "is_in_future desc now time \<longleftrightarrow> time > get_time desc now"

definition is_in_past :: "session_description \<Rightarrow> sys_time \<Rightarrow> sys_time \<Rightarrow> bool" where
  "is_in_past desc now time \<longleftrightarrow> time < get_time desc now"

definition get_unixtime :: "u64 \<Rightarrow> u32" where
  "get_unixtime ts = ucast (drop_bit 32 ts)"

definition get_attempt_sequence_number :: "session_description \<Rightarrow> u64 \<Rightarrow> u32 option" where
  "get_attempt_sequence_number desc ts =
     (let round_attempt_duration_in_secs :: u32 =
            word_of_nat (round_attempt_duration (sd_options desc) div 1000000000) in
      do { rs_assert (round_attempt_duration_in_secs \<noteq> 0);
           Some (get_unixtime ts div round_attempt_duration_in_secs) })"

text \<open>\<^verbatim>\<open>u32 * Duration\<close> panics when the seconds do not fit in a \<open>u64\<close>.\<close>

definition duration_mul :: "u32 \<Rightarrow> duration \<Rightarrow> duration option" where
  "duration_mul n d =
     do { rs_assert ((unat n * d) div 1000000000 < 2 ^ 64); Some (unat n * d) }"

definition get_delay :: "session_description \<Rightarrow> u32 \<Rightarrow> duration option" where
  "get_delay desc priority =
     duration_mul (if length (sd_sources desc) < 5 then priority + 1 else priority)
       (next_candidate_delay (sd_options desc))"

definition get_empty_block_delay :: "session_description \<Rightarrow> duration option" where
  "get_empty_block_delay desc =
     do { delay \<leftarrow> get_delay desc (get_max_priority desc + 1);
          Some (if delay < from_millis 1000 then from_millis 1000 else delay) }"

text \<open>\<^verbatim>\<open>SystemTime\<close> addition panics when the seconds do not fit in an \<open>i64\<close>.\<close>

definition get_attempt_start_at :: "session_description \<Rightarrow> u32 \<Rightarrow> sys_time option" where
  "get_attempt_start_at desc attempt =
     do { d \<leftarrow> duration_mul attempt (round_attempt_duration (sd_options desc));
          rs_assert (d div 1000000000 < 2 ^ 63);
          Some d }"

subsection \<open>Identifiers and signatures\<close>

definition candidate_id ::
  "session_description \<Rightarrow> u32 \<Rightarrow> block_hash \<Rightarrow> block_hash \<Rightarrow> block_hash \<Rightarrow> block_id option" where
  "candidate_id desc src_idx root_hash file_hash collated_data_file_hash =
     do { src \<leftarrow> get_source_public_key_hash desc src_idx;
          Some (ext_sha256 (sd_ext desc)
            (ext_serialize (sd_ext desc) (TlCandidateId src root_hash file_hash collated_data_file_hash))) }"

text \<open>The \<open>bool\<close> of a signature check is \<^verbatim>\<open>is_ok()\<close> of the returned result.\<close>

definition check_signature ::
  "session_description \<Rightarrow> block_hash \<Rightarrow> block_hash \<Rightarrow> u32 \<Rightarrow> block_signature \<Rightarrow> bool option" where
  "check_signature desc root_hash file_hash src_idx signature =
     do { s \<leftarrow> index (sd_sources desc) (unat src_idx);
          Some (ext_verify (sd_ext desc) (source_public_key s)
            (ext_serialize (sd_ext desc) (TlBlockId root_hash file_hash)) signature) }"

definition check_approve_signature ::
  "session_description \<Rightarrow> block_hash \<Rightarrow> block_hash \<Rightarrow> u32 \<Rightarrow> block_signature \<Rightarrow> bool option" where
  "check_approve_signature desc root_hash file_hash src_idx signature =
     do { s \<leftarrow> index (sd_sources desc) (unat src_idx);
          Some (ext_verify (sd_ext desc) (source_public_key s)
            (ext_serialize (sd_ext desc) (TlBlockIdApprove root_hash file_hash)) signature) }"

subsection \<open>Reaching the cutoff weight\<close>

text \<open>
  The loop that the four quorum checks of the session share (approvals, votes, precommits and commit
  signatures): add the weights of the nodes selected by \<open>flag\<close> and stop at the cutoff.
\<close>

fun cutoff_loop :: "session_description \<Rightarrow> (u32 \<Rightarrow> bool option) \<Rightarrow> u32 list \<Rightarrow> u64 \<Rightarrow> bool option" where
  "cutoff_loop desc flag [] weight = Some False"
| "cutoff_loop desc flag (i # is) weight =
     do { b \<leftarrow> flag i;
          if \<not> b then cutoff_loop desc flag is weight
          else do { w \<leftarrow> get_node_weight desc i;
                    if weight + w \<ge> get_cutoff_weight desc then Some True
                    else cutoff_loop desc flag is (weight + w) } }"

definition cutoff_reached :: "session_description \<Rightarrow> (u32 \<Rightarrow> bool option) \<Rightarrow> bool option" where
  "cutoff_reached desc flag = cutoff_loop desc flag (range_u32 (get_total_nodes desc)) 0"

subsection \<open>Weights of sets of validators\<close>

definition weight_at :: "session_description \<Rightarrow> nat \<Rightarrow> nat" where
  "weight_at desc i = unat (source_weight (sd_sources desc ! i))"

definition weight_of :: "session_description \<Rightarrow> (nat \<Rightarrow> bool) \<Rightarrow> nat" where
  "weight_of desc P = sum_list (map (weight_at desc) (filter P [0..<length (sd_sources desc)]))"

definition total_of :: "session_description \<Rightarrow> nat" where
  "total_of desc = weight_of desc (\<lambda>_. True)"

definition cutoff_of :: "session_description \<Rightarrow> nat" where
  "cutoff_of desc = unat (sd_cutoff_weight desc)"

text \<open>
  A well-formed description: it has validators, fewer than \<open>2 ^ 31\<close> of them; the weights add up to
  less than \<open>2 ^ 63\<close>, so that \<^verbatim>\<open>total_weight * 2\<close> does not wrap; total and cutoff are those \<^verbatim>\<open>new\<close>
  computes; and a round has at least one candidate.
\<close>

definition wf_desc :: "session_description \<Rightarrow> bool" where
  "wf_desc desc \<longleftrightarrow>
     0 < length (sd_sources desc) \<and> length (sd_sources desc) < 2 ^ 31 \<and>
     total_of desc < 2 ^ 63 \<and>
     sd_total_weight desc = word_of_nat (total_of desc) \<and>
     sd_cutoff_weight desc = sd_total_weight desc * 2 div 3 + 1 \<and>
     0 < round_candidates (sd_options desc) \<and> unat (round_candidates (sd_options desc)) + 1 < 2 ^ 31"

abbreviation nodes_count :: "session_description \<Rightarrow> nat" where
  "nodes_count desc \<equiv> length (sd_sources desc)"

lemma unat_total_nodes [simp]: "wf_desc desc \<Longrightarrow> unat (get_total_nodes desc) = nodes_count desc"
  by (simp add: wf_desc_def get_total_nodes_def unat_word_of_nat_u32)

lemma total_nodes_nonzero [simp]: "wf_desc desc \<Longrightarrow> get_total_nodes desc \<noteq> 0"
  using unat_total_nodes [of desc] by (auto simp: wf_desc_def simp del: unat_total_nodes)

lemma cutoff_of_eq: "wf_desc desc \<Longrightarrow> cutoff_of desc = total_of desc * 2 div 3 + 1"
proof -
  assume wf: "wf_desc desc"
  define t :: u64 where "t = word_of_nat (total_of desc)"
  have t: "unat t = total_of desc"
    using wf by (simp add: t_def wf_desc_def unat_of_nat take_bit_nat_eq_self)
  have "unat (t * 2) = total_of desc * 2"
    using wf t by (subst unat_mult_lem [THEN iffD1]) (auto simp: wf_desc_def)
  then have "unat (t * 2 div 3) = total_of desc * 2 div 3" by (simp add: unat_div_distrib)
  then have "unat (t * 2 div 3 + 1) = total_of desc * 2 div 3 + 1"
    using wf by (subst unat_add_u64) (auto simp: wf_desc_def)
  then show ?thesis using wf by (simp add: cutoff_of_def wf_desc_def t_def)
qed

lemma weight_of_eq_sum: "weight_of desc P = (\<Sum>i | i < nodes_count desc \<and> P i. weight_at desc i)"
proof -
  have "set (filter P [0..<nodes_count desc]) = {i. i < nodes_count desc \<and> P i}" by auto
  then show ?thesis
    by (simp add: weight_of_def sum_list_distinct_conv_sum_set)
qed

lemma weight_of_cong:
  "(\<And>i. i < nodes_count desc \<Longrightarrow> P i \<longleftrightarrow> Q i) \<Longrightarrow> weight_of desc P = weight_of desc Q"
  unfolding weight_of_eq_sum by (rule sum.cong) auto

lemma weight_of_mono:
  "(\<And>i. i < nodes_count desc \<Longrightarrow> P i \<Longrightarrow> Q i) \<Longrightarrow> weight_of desc P \<le> weight_of desc Q"
  unfolding weight_of_eq_sum by (rule sum_mono2) auto

lemma weight_of_disj_conj:
  "weight_of desc (\<lambda>i. P i \<or> Q i) + weight_of desc (\<lambda>i. P i \<and> Q i) = weight_of desc P + weight_of desc Q"
proof -
  let ?A = "\<lambda>P. {i. i < nodes_count desc \<and> P i}"
  have "?A (\<lambda>i. P i \<or> Q i) = ?A P \<union> ?A Q" "?A (\<lambda>i. P i \<and> Q i) = ?A P \<inter> ?A Q" by auto
  then show ?thesis
    using sum.union_inter [of "?A P" "?A Q" "weight_at desc"] by (simp add: weight_of_eq_sum)
qed

lemma cutoff_loop_total:
  assumes "\<And>i. i \<in> set is \<Longrightarrow> unat i < nodes_count desc \<and> flag i = Some (P (unat i))"
    and "unat weight + sum_list (map (weight_at desc) (filter P (map unat is))) < 2 ^ 64"
    and "unat weight < cutoff_of desc"
  shows "cutoff_loop desc flag is weight =
    Some (cutoff_of desc \<le> unat weight + sum_list (map (weight_at desc) (filter P (map unat is))))"
  using assms
proof (induction "is" arbitrary: weight)
  case (Cons i "is")
  let ?S = "sum_list (map (weight_at desc) (filter P (map unat is)))"
  have i: "unat i < nodes_count desc" "flag i = Some (P (unat i))" using Cons.prems(1) by auto
  show ?case
  proof (cases "P (unat i)")
    case True
    let ?w = "source_weight (sd_sources desc ! unat i)"
    have w: "get_node_weight desc i = Some ?w" "unat ?w = weight_at desc (unat i)"
      using i by (simp_all add: get_node_weight_def get_source_def weight_at_def)
    have sum: "unat (weight + ?w) = unat weight + weight_at desc (unat i)"
      using Cons.prems(2) True w by (subst unat_add_u64) auto
    have le: "get_cutoff_weight desc \<le> weight + ?w \<longleftrightarrow> cutoff_of desc \<le> unat weight + weight_at desc (unat i)"
      by (simp add: word_le_nat_alt sum get_cutoff_weight_def cutoff_of_def)
    have "cutoff_loop desc flag is (weight + ?w) = Some (cutoff_of desc \<le> unat (weight + ?w) + ?S)"
      if "\<not> cutoff_of desc \<le> unat weight + weight_at desc (unat i)"
      using that Cons.prems True sum by (intro Cons.IH) (auto simp: add.assoc)
    with i w True le sum show ?thesis by (auto simp: add.assoc)
  next
    case False
    with i Cons.prems have "cutoff_loop desc flag is weight = Some (cutoff_of desc \<le> unat weight + ?S)"
      by (intro Cons.IH) auto
    with i False show ?thesis by simp
  qed
qed simp

lemma cutoff_reached_total:
  assumes "wf_desc desc" and "\<And>i. unat i < nodes_count desc \<Longrightarrow> flag i = Some (P (unat i))"
  shows "cutoff_reached desc flag = Some (cutoff_of desc \<le> weight_of desc P)"
proof -
  have "weight_of desc P \<le> total_of desc" by (simp add: total_of_def weight_of_mono)
  also have "\<dots> < 2 ^ 64" using assms(1) by (simp add: wf_desc_def)
  finally have "weight_of desc P < 2 ^ 64" .
  moreover have "0 < cutoff_of desc" using cutoff_of_eq [OF assms(1)] by simp
  ultimately show ?thesis
    using cutoff_loop_total [of "range_u32 (get_total_nodes desc)" desc flag P 0] assms
    by (simp add: cutoff_reached_def weight_of_def word_less_nat_alt)
qed

subsection \<open>Voting power\<close>

text \<open>
  What the voting components rely on: the weight of a set of validators is monotone and modular, no
  set outweighs the total, and the cutoff is more than two thirds of the total.
\<close>

locale voting_power =
  fixes wf :: "'d \<Rightarrow> bool"
    and nodes :: "'d \<Rightarrow> nat"
    and weight :: "'d \<Rightarrow> (nat \<Rightarrow> bool) \<Rightarrow> nat"
    and total cutoff :: "'d \<Rightarrow> nat"
  assumes weight_mono: "(\<And>i. i < nodes d \<Longrightarrow> P i \<Longrightarrow> Q i) \<Longrightarrow> weight d P \<le> weight d Q"
    and weight_modular: "weight d (\<lambda>i. P i \<or> Q i) + weight d (\<lambda>i. P i \<and> Q i) = weight d P + weight d Q"
    and weight_none: "weight d (\<lambda>_. False) = 0"
    and weight_all: "weight d (\<lambda>_. True) = total d"
    and cutoff_two_thirds: "wf d \<Longrightarrow> 2 * total d < 3 * cutoff d"
begin

lemma weight_le_total: "weight d P \<le> total d"
  using weight_mono [of d P "\<lambda>_. True"] by (simp add: weight_all)

lemma two_quorums_overlap:
  assumes "wf d" and "cutoff d \<le> weight d P" and "cutoff d \<le> weight d Q"
  shows "total d < 3 * weight d (\<lambda>i. P i \<and> Q i)"
  using weight_modular [of d P Q] weight_le_total [of d "\<lambda>i. P i \<or> Q i"]
    cutoff_two_thirds [OF assms(1)] assms(2,3) by linarith

lemma quorum_member:
  assumes "wf d" and "cutoff d \<le> weight d P"
  shows "\<exists>i < nodes d. P i"
proof (rule ccontr)
  assume "\<not> ?thesis"
  then have "weight d P \<le> weight d (\<lambda>_. False)" by (intro weight_mono) auto
  with assms cutoff_two_thirds [OF assms(1)] show False by (simp add: weight_none)
qed

text \<open>Two quorums share a validator outside any set of at most a third of the weight.\<close>

lemma quorums_share_honest:
  assumes "wf d" and "cutoff d \<le> weight d P" and "cutoff d \<le> weight d Q"
    and "3 * weight d B \<le> total d"
  shows "\<exists>i < nodes d. P i \<and> Q i \<and> \<not> B i"
proof (rule ccontr)
  assume "\<not> ?thesis"
  then have "weight d (\<lambda>i. P i \<and> Q i) \<le> weight d B" by (intro weight_mono) auto
  with two_quorums_overlap [OF assms(1-3)] assms(4) show False by linarith
qed

end

interpretation vp: voting_power wf_desc "\<lambda>desc. length (sd_sources desc)" weight_of total_of cutoff_of
proof unfold_locales
  show "weight_of d (\<lambda>_. False) = 0" for d by (simp add: weight_of_def)
  show "2 * total_of d < 3 * cutoff_of d" if "wf_desc d" for d
    using cutoff_of_eq [OF that] by simp
qed (simp_all add: weight_of_mono weight_of_disj_conj total_of_def)

subsection \<open>Node priorities\<close>

lemma node_priority_eq:
  assumes "wf_desc desc" and "unat i < nodes_count desc"
  shows "get_node_priority desc i round = Some
    (let d = (unat i + nodes_count desc - unat round mod nodes_count desc) mod nodes_count desc
     in if d < unat (round_candidates (sd_options desc)) then int d else - 1)"
proof -
  let ?n = "nodes_count desc" and ?t = "get_total_nodes desc"
  let ?j = "if i < round mod ?t then i + ?t else i"
  let ?d = "(unat i + ?n - unat round mod ?n) mod ?n"
  have n: "0 < ?n" "?n < 2 ^ 31" using assms(1) by (auto simp: wf_desc_def)
  have m: "unat (round mod ?t) = unat round mod ?n" "unat round mod ?n < ?n"
    using assms(1) n by (simp_all add: unat_mod_distrib)
  have add: "unat (i + ?t) = unat i + ?n"
    using assms n by (subst unat_add_u32) auto
  have sub: "unat (?j - round mod ?t) = ?d"
  proof (cases "i < round mod ?t")
    case True
    then have "unat i < unat round mod ?n" by (simp add: word_less_nat_alt m)
    moreover from this have "unat (i + ?t - round mod ?t) = unat i + ?n - unat round mod ?n"
      using m add by (subst unat_sub) (auto simp: word_le_nat_alt)
    moreover from calculation m(2) have "unat i + ?n - unat round mod ?n < ?n" by linarith
    ultimately show ?thesis using True by simp
  next
    case False
    then have "unat round mod ?n \<le> unat i" by (simp add: word_less_nat_alt m)
    moreover from this have "unat (i - round mod ?t) = unat i - unat round mod ?n"
      using m by (subst unat_sub) (auto simp: word_le_nat_alt)
    moreover from calculation have "?d = unat i - unat round mod ?n"
      using assms(2) by (simp flip: Nat.add_diff_assoc2)
    ultimately show ?thesis using False by simp
  qed
  have "?d < 2 ^ 31" using n by (meson mod_less_divisor order.strict_trans)
  then have "as_i32 (?j - round mod ?t) = int ?d"
    using sub sint_small_u32 [of "?j - round mod ?t"] by (simp add: as_i32_def)
  then show ?thesis
    using assms(1) sub by (simp add: get_node_priority_def Let_def word_less_nat_alt del: unat_total_nodes)
qed

subsection \<open>Creation\<close>

lemma new_loop_sources:
  "session_description_new_loop ext nodes w ss rs k = (w', ss', rs') \<Longrightarrow>
     w' = w + sum_list (map node_weight nodes) \<and>
     ss' = ss @ map (\<lambda>n. \<lparr> source_id = ext_key_id ext (node_public_key n), source_public_key = node_public_key n,
                         source_adnl_id = node_adnl_id n, source_weight = node_weight n \<rparr>) nodes"
  by (induction ext nodes w ss rs k rule: session_description_new_loop.induct) (auto simp: add.assoc)

lemma new_loop_rev_other:
  "session_description_new_loop ext nodes w ss rs k = (w', ss', rs') \<Longrightarrow>
     x \<notin> set (map (\<lambda>n. ext_key_id ext (node_public_key n)) nodes) \<Longrightarrow> rs' x = rs x"
  by (induction ext nodes w ss rs k rule: session_description_new_loop.induct) auto

lemma new_loop_rev:
  assumes "session_description_new_loop ext nodes w ss rs k = (w', ss', rs')"
    and "distinct (map (\<lambda>n. ext_key_id ext (node_public_key n)) nodes)" and "j < length nodes"
  shows "rs' (ext_key_id ext (node_public_key (nodes ! j))) = Some (k + word_of_nat j)"
  using assms
proof (induction ext nodes w ss rs k arbitrary: j rule: session_description_new_loop.induct)
  case (2 ext node nodes w ss rs k)
  from "2.prems"(1) have loop: "session_description_new_loop ext nodes (w + node_weight node)
    (ss @ [\<lparr> source_id = ext_key_id ext (node_public_key node), source_public_key = node_public_key node,
              source_adnl_id = node_adnl_id node, source_weight = node_weight node \<rparr>])
    (rs(ext_key_id ext (node_public_key node) \<mapsto> k)) (k + 1) = (w', ss', rs')" by simp
  show ?case
  proof (cases j)
    case 0
    with new_loop_rev_other [OF loop, of "ext_key_id ext (node_public_key node)"] "2.prems"
    show ?thesis by simp
  next
    case (Suc j')
    with "2.IH" [OF loop, of j'] "2.prems" show ?thesis by (simp add: add.assoc)
  qed
qed simp

lemma new_sources:
  assumes "session_description_new ext options nodes local_id = Some desc"
  shows "sd_sources desc = map (\<lambda>n. \<lparr> source_id = ext_key_id ext (node_public_key n), source_public_key = node_public_key n,
      source_adnl_id = node_adnl_id n, source_weight = node_weight n \<rparr>) nodes"
    and "sd_total_weight desc = sum_list (map node_weight nodes)"
    and "sd_cutoff_weight desc = sd_total_weight desc * 2 div 3 + 1"
    and "sd_options desc = options"
    and "nodes \<noteq> []"
proof -
  obtain w ss rs where l: "session_description_new_loop ext nodes 0 [] Map.empty 0 = (w, ss, rs)"
    by (metis prod_cases3)
  with assms show "sd_sources desc = map (\<lambda>n. \<lparr> source_id = ext_key_id ext (node_public_key n), source_public_key = node_public_key n,
      source_adnl_id = node_adnl_id n, source_weight = node_weight n \<rparr>) nodes"
    "sd_total_weight desc = sum_list (map node_weight nodes)"
    "sd_cutoff_weight desc = sd_total_weight desc * 2 div 3 + 1" "sd_options desc = options"
    using new_loop_sources [OF l] by (auto simp: session_description_new_def split: bind_splits)
  show "nodes \<noteq> []" using assms by (auto simp: session_description_new_def)
qed

lemma total_of_eq: "total_of desc = sum_list (map (\<lambda>s. unat (source_weight s)) (sd_sources desc))"
proof -
  have "map (\<lambda>i. f (xs ! i)) [0..<length xs] = map f xs" for f :: "source \<Rightarrow> nat" and xs
    by (rule nth_equalityI) simp_all
  from this [of "\<lambda>s. unat (source_weight s)"] show ?thesis
    by (simp add: total_of_def weight_of_def weight_at_def [abs_def])
qed

lemma new_wf_desc:
  assumes new: "session_description_new ext options nodes local_id = Some desc"
    and "length nodes < 2 ^ 31" and "sum_list (map (\<lambda>n. unat (node_weight n)) nodes) < 2 ^ 63"
    and "0 < round_candidates options" and "unat (round_candidates options) + 1 < 2 ^ 31"
  shows "wf_desc desc"
proof -
  have total: "total_of desc = sum_list (map (\<lambda>n. unat (node_weight n)) nodes)"
    by (simp add: total_of_eq new_sources(1) [OF new] comp_def)
  moreover have "sd_total_weight desc = word_of_nat (total_of desc)"
    using assms(3) unfolding total new_sources(2) [OF new]
    by (subst unat_sum_list_u64 [symmetric]) auto
  ultimately show ?thesis
    using assms new_sources [OF new] by (simp add: wf_desc_def)
qed

end
