(* ===== verification/VS_Candidates.thy ===== *)
theory VS_Candidates
  imports VS_Description
begin

text \<open>
  Sent blocks, block candidates with their approvals, and vote candidates with their votes
  (\<^verbatim>\<open>sent_block.rs\<close>, \<^verbatim>\<open>block_candidate.rs\<close>, \<^verbatim>\<open>vote_candidate.rs\<close> of \<^verbatim>\<open>validator-session/src\<close>).

  An object is the record of its fields; pool, hash, instance counter and creation times are left out
  (the cache compares none of them beyond the hash, which the other fields determine). A
  \<^verbatim>\<open>SentBlockPtr\<close> is an option: \<open>None\<close> is the empty block, the decision to skip a round.

  The locale \<open>mergeable\<close> is the contract of the \<^verbatim>\<open>Merge\<close> trait for the values that are always
  compatible: the merge does not panic and is a join, that is commutative, associative and
  idempotent. It lifts to options and to vectors, which gives the contract for the lists of
  approvals, votes and signatures.
\<close>

subsection \<open>Sent blocks\<close>

record sent_block =
  sb_candidate_id :: block_id
  sb_source_id :: u32
  sb_root_hash :: block_hash
  sb_file_hash :: block_hash
  sb_collated_data_file_hash :: block_hash

type_synonym sent_block_ptr = "sent_block option"

abbreviation SKIP_ROUND_CANDIDATE_BLOCKID :: block_id where
  "SKIP_ROUND_CANDIDATE_BLOCKID \<equiv> 0"

definition sent_block_get_id :: "sent_block_ptr \<Rightarrow> block_id" where
  "sent_block_get_id self =
     (case self of Some block \<Rightarrow> sb_candidate_id block | None \<Rightarrow> SKIP_ROUND_CANDIDATE_BLOCKID)"

definition sent_block_merge :: "sent_block_ptr \<Rightarrow> sent_block_ptr \<Rightarrow> sent_block_ptr option" where
  "sent_block_merge left right =
     Some (if left \<noteq> None then left else if right \<noteq> None then right else None)"

definition sent_block_create ::
  "session_description \<Rightarrow> u32 \<Rightarrow> block_hash \<Rightarrow> block_hash \<Rightarrow> block_hash \<Rightarrow> sent_block_ptr option" where
  "sent_block_create desc source_idx root_hash file_hash collated_data_file_hash =
     do { block_id \<leftarrow> candidate_id desc source_idx root_hash file_hash collated_data_file_hash;
          Some (Some \<lparr> sb_candidate_id = block_id, sb_source_id = source_idx, sb_root_hash = root_hash,
                       sb_file_hash = file_hash, sb_collated_data_file_hash = collated_data_file_hash \<rparr>) }"

definition sent_block_create_empty :: "session_description \<Rightarrow> sent_block_ptr option" where
  "sent_block_create_empty desc = sent_block_create desc 0 0 0 0"

subsection \<open>Block candidates\<close>

type_synonym block_candidate_signature_ptr = "block_signature option"

definition signature_merge :: "block_signature \<Rightarrow> block_signature \<Rightarrow> block_signature option" where
  "signature_merge left right = Some (if left < right then left else right)"

definition signature_vector_merge ::
  "block_candidate_signature_ptr list \<Rightarrow> block_candidate_signature_ptr list
    \<Rightarrow> block_candidate_signature_ptr list option" where
  "signature_vector_merge left right = vector_merge_custom left right (option_merge signature_merge)"

record block_candidate =
  bc_block :: sent_block_ptr
  bc_approved_by :: "block_candidate_signature_ptr list"

definition block_candidate_get_id :: "block_candidate \<Rightarrow> block_id" where
  "block_candidate_get_id self =
     (case bc_block self of Some block \<Rightarrow> sb_candidate_id block | None \<Rightarrow> 0)"

definition block_candidate_get_source_index :: "block_candidate \<Rightarrow> u32" where
  "block_candidate_get_source_index self =
     (case bc_block self of Some block \<Rightarrow> sb_source_id block | None \<Rightarrow> u32_MAX)"

definition block_candidate_check_block_is_approved_by :: "block_candidate \<Rightarrow> u32 \<Rightarrow> bool option" where
  "block_candidate_check_block_is_approved_by self source_index =
     do { s \<leftarrow> vector_at (bc_approved_by self) (unat source_index); Some (s \<noteq> None) }"

definition block_candidate_check_block_is_approved :: "session_description \<Rightarrow> block_candidate \<Rightarrow> bool option" where
  "block_candidate_check_block_is_approved desc self =
     cutoff_reached desc (\<lambda>i. do { s \<leftarrow> vector_at (bc_approved_by self) (unat i); Some (s \<noteq> None) })"

definition block_candidate_push ::
  "block_candidate \<Rightarrow> u32 \<Rightarrow> block_candidate_signature_ptr \<Rightarrow> block_candidate option" where
  "block_candidate_push self src_idx signature =
     do { s \<leftarrow> vector_at (bc_approved_by self) (unat src_idx);
          (case s of
             Some _ \<Rightarrow> Some self
           | None \<Rightarrow>
               do { approved_by \<leftarrow> vector_change (bc_approved_by self) (unat src_idx) signature;
                    Some \<lparr> bc_block = bc_block self, bc_approved_by = approved_by \<rparr> }) }"

definition block_candidate_merge :: "block_candidate \<Rightarrow> block_candidate \<Rightarrow> block_candidate option" where
  "block_candidate_merge left right =
     do { rs_assert (block_candidate_get_id left = block_candidate_get_id right);
          approved_by \<leftarrow> signature_vector_merge (bc_approved_by left) (bc_approved_by right);
          Some \<lparr> bc_block = bc_block left, bc_approved_by = approved_by \<rparr> }"

definition block_candidate_create_unapproved :: "session_description \<Rightarrow> sent_block_ptr \<Rightarrow> block_candidate" where
  "block_candidate_create_unapproved desc block =
     \<lparr> bc_block = block, bc_approved_by = replicate (unat (get_total_nodes desc)) None \<rparr>"

subsection \<open>Vote candidates\<close>

record vote_candidate =
  vc_block :: sent_block_ptr
  vc_voted_by :: "bool list"

definition bool_vector_merge :: "bool list \<Rightarrow> bool list \<Rightarrow> bool list option" where
  "bool_vector_merge left right = vector_merge_custom left right bool_merge"

definition vote_candidate_get_id :: "vote_candidate \<Rightarrow> block_id" where
  "vote_candidate_get_id self = sent_block_get_id (vc_block self)"

definition vote_candidate_get_source_index :: "vote_candidate \<Rightarrow> u32" where
  "vote_candidate_get_source_index self =
     (case vc_block self of Some block \<Rightarrow> sb_source_id block | None \<Rightarrow> u32_MAX)"

definition vote_candidate_check_block_is_voted :: "session_description \<Rightarrow> vote_candidate \<Rightarrow> bool option" where
  "vote_candidate_check_block_is_voted desc self =
     cutoff_reached desc (\<lambda>i. vector_at (vc_voted_by self) (unat i))"

definition vote_candidate_check_block_is_voted_by :: "vote_candidate \<Rightarrow> u32 \<Rightarrow> bool option" where
  "vote_candidate_check_block_is_voted_by self src_idx = vector_at (vc_voted_by self) (unat src_idx)"

definition vote_candidate_push :: "vote_candidate \<Rightarrow> u32 \<Rightarrow> vote_candidate option" where
  "vote_candidate_push self src_idx =
     do { b \<leftarrow> vector_at (vc_voted_by self) (unat src_idx);
          if b then Some self
          else do { voted_by \<leftarrow> vector_change (vc_voted_by self) (unat src_idx) True;
                    Some \<lparr> vc_block = vc_block self, vc_voted_by = voted_by \<rparr> } }"

definition vote_candidate_merge :: "vote_candidate \<Rightarrow> vote_candidate \<Rightarrow> vote_candidate option" where
  "vote_candidate_merge left right =
     do { rs_assert (vote_candidate_get_id left = vote_candidate_get_id right);
          voted_by \<leftarrow> bool_vector_merge (vc_voted_by left) (vc_voted_by right);
          Some \<lparr> vc_block = vc_block left, vc_voted_by = voted_by \<rparr> }"

definition vote_candidate_create_unvoted :: "session_description \<Rightarrow> sent_block_ptr \<Rightarrow> vote_candidate" where
  "vote_candidate_create_unvoted desc block =
     \<lparr> vc_block = block, vc_voted_by = replicate (unat (get_total_nodes desc)) False \<rparr>"

definition vote_candidate_less :: "vote_candidate \<Rightarrow> vote_candidate \<Rightarrow> bool" where
  "vote_candidate_less first second \<longleftrightarrow> vote_candidate_get_id first < vote_candidate_get_id second"

subsection \<open>The contract of a merge\<close>

locale mergeable =
  fixes merge :: "'a \<Rightarrow> 'a \<Rightarrow> 'a option"
    and join :: "'a \<Rightarrow> 'a \<Rightarrow> 'a"
  assumes merge_total: "merge x y = Some (join x y)"
    and join_commute: "join x y = join y x"
    and join_assoc: "join (join x y) z = join x (join y z)"
    and join_idem: "join x x = x"
begin

lemma option_merge_total: "option_merge merge x y = Some (combine_options join x y)"
  by (auto simp: option_merge_def merge_total join_idem split: option.splits)

lemma vector_merge_total: "vector_merge_custom xs ys merge = Some (list_join join xs ys)"
  by (simp add: vector_merge_custom_def vector_merge_impl_total merge_total join_idem)

lemma lift_option: "mergeable (option_merge merge) (combine_options join)"
proof
  show "combine_options join (combine_options join x y) z = combine_options join x (combine_options join y z)" for x y z
    by (cases x; cases y; cases z) (simp_all add: join_assoc)
  show "combine_options join x y = combine_options join y x" for x y
    by (cases x; cases y) (simp_all add: join_commute)
  show "combine_options join x x = x" for x
    by (cases x) (simp_all add: join_idem)
qed (rule option_merge_total)

lemma lift_vector: "mergeable (\<lambda>xs ys. vector_merge_custom xs ys merge) (list_join join)"
proof
  show "list_join join (list_join join xs ys) zs = list_join join xs (list_join join ys zs)" for xs ys zs
    by (rule list_join_assoc) (rule join_assoc)
  show "list_join join xs ys = list_join join ys xs" for xs ys
    by (rule list_join_commute) (rule join_commute)
  show "list_join join xs xs = xs" for xs
    by (rule list_join_idem) (rule join_idem)
qed (rule vector_merge_total)

end

interpretation bool_join: mergeable bool_merge "(\<or>)"
  by unfold_locales (auto simp: bool_merge_def)

interpretation signature_join: mergeable signature_merge min
  by unfold_locales (auto simp: signature_merge_def min_def)

interpretation signature_ptr_join: mergeable "option_merge signature_merge" "combine_options min"
  by (rule signature_join.lift_option)

interpretation signatures_join: mergeable signature_vector_merge "list_join (combine_options min)"
  using signature_ptr_join.lift_vector by (simp add: signature_vector_merge_def [abs_def])

interpretation bools_join: mergeable bool_vector_merge "list_join (\<or>)"
  using bool_join.lift_vector by (simp add: bool_vector_merge_def [abs_def])

interpretation vote_order: sorting_predicate vote_candidate_less vote_candidate_get_id
  by unfold_locales (simp add: vote_candidate_less_def)

subsection \<open>Known blocks\<close>

text \<open>
  A block identifier is a SHA-256 hash, so it need not determine the block. The theorems that depend on
  it do so relative to a set \<open>B\<close> of submissions (author, root hash, file hash, collated data hash) on
  which the identifiers do not collide and are not the identifier of the empty block.
\<close>

type_synonym submission = "u32 \<times> block_hash \<times> block_hash \<times> block_hash"

fun submission_id :: "session_description \<Rightarrow> submission \<Rightarrow> block_id option" where
  "submission_id desc (src, root_hash, file_hash, collated) = candidate_id desc src root_hash file_hash collated"

definition no_collisions :: "session_description \<Rightarrow> submission set \<Rightarrow> bool" where
  "no_collisions desc B \<longleftrightarrow>
     (\<forall>x \<in> B. submission_id desc x \<noteq> Some SKIP_ROUND_CANDIDATE_BLOCKID \<and>
        (\<forall>y \<in> B. submission_id desc x \<noteq> None \<longrightarrow> submission_id desc x = submission_id desc y \<longrightarrow> x = y))"

definition submission_of :: "sent_block \<Rightarrow> submission" where
  "submission_of b = (sb_source_id b, sb_root_hash b, sb_file_hash b, sb_collated_data_file_hash b)"

definition known_block :: "session_description \<Rightarrow> submission set \<Rightarrow> sent_block_ptr \<Rightarrow> bool" where
  "known_block desc B block \<longleftrightarrow>
     (case block of None \<Rightarrow> True
      | Some b \<Rightarrow> submission_of b \<in> B \<and> submission_id desc (submission_of b) = Some (sb_candidate_id b))"

lemma known_block_inject:
  assumes "no_collisions desc B" and "known_block desc B x" and "known_block desc B y"
    and "sent_block_get_id x = sent_block_get_id y"
  shows "x = y"
proof -
  have same: "a = b" if "submission_of a = submission_of b" "sb_candidate_id a = sb_candidate_id b" for a b :: sent_block
    using that by (simp add: submission_of_def)
  have "sb_candidate_id b \<noteq> 0" if "known_block desc B (Some b)" for b
    using assms(1) that unfolding no_collisions_def known_block_def by auto
  moreover have "a = b" if "known_block desc B (Some a)" "known_block desc B (Some b)"
      "sb_candidate_id a = sb_candidate_id b" for a b
    using assms(1) that unfolding no_collisions_def known_block_def by (intro same) auto
  ultimately show ?thesis
    using assms(2-4) by (cases x; cases y) (auto simp: sent_block_get_id_def)
qed

lemma known_block_None [simp]: "known_block desc B None"
  by (simp add: known_block_def)

lemma known_block_mono: "known_block desc B x \<Longrightarrow> B \<subseteq> C \<Longrightarrow> known_block desc C x"
  by (auto simp: known_block_def split: option.splits)

lemma known_block_source: "known_block desc B (Some b) \<Longrightarrow> unat (sb_source_id b) < nodes_count desc"
  by (auto simp: known_block_def submission_of_def candidate_id_def get_source_public_key_hash_def get_source_def
      split: bind_splits)

lemma sent_block_create_total:
  assumes "unat src < nodes_count desc" and "(src, root, file, coll) \<in> B"
  obtains b where "sent_block_create desc src root file coll = Some (Some b)"
    "known_block desc B (Some b)" "sb_source_id b = src"
  using assms
  by (auto simp: sent_block_create_def known_block_def submission_of_def candidate_id_def
      get_source_public_key_hash_def get_source_def)

subsection \<open>Approvals\<close>

definition approved_at :: "block_candidate \<Rightarrow> nat \<Rightarrow> bool" where
  "approved_at bc i \<longleftrightarrow> bc_approved_by bc ! i \<noteq> None"

definition wf_block_candidate :: "nat \<Rightarrow> block_candidate \<Rightarrow> bool" where
  "wf_block_candidate n bc \<longleftrightarrow> length (bc_approved_by bc) = n"

definition block_candidate_add :: "block_candidate \<Rightarrow> nat \<Rightarrow> block_candidate_signature_ptr \<Rightarrow> block_candidate" where
  "block_candidate_add bc i s = (if approved_at bc i then bc else bc\<lparr>bc_approved_by := (bc_approved_by bc)[i := s]\<rparr>)"

definition block_candidate_join :: "block_candidate \<Rightarrow> block_candidate \<Rightarrow> block_candidate" where
  "block_candidate_join left right =
     left\<lparr>bc_approved_by := list_join (combine_options min) (bc_approved_by left) (bc_approved_by right)\<rparr>"

lemma block_candidate_get_id_eq: "block_candidate_get_id bc = sent_block_get_id (bc_block bc)"
  by (simp add: block_candidate_get_id_def sent_block_get_id_def)

lemma is_approved_by_total:
  "wf_block_candidate n bc \<Longrightarrow> unat i < n \<Longrightarrow>
     block_candidate_check_block_is_approved_by bc i = Some (approved_at bc (unat i))"
  by (simp add: block_candidate_check_block_is_approved_by_def approved_at_def wf_block_candidate_def)

lemma is_approved_total:
  "wf_desc desc \<Longrightarrow> wf_block_candidate (nodes_count desc) bc \<Longrightarrow>
     block_candidate_check_block_is_approved desc bc = Some (cutoff_of desc \<le> weight_of desc (approved_at bc))"
  unfolding block_candidate_check_block_is_approved_def
  by (rule cutoff_reached_total) (simp_all add: approved_at_def wf_block_candidate_def)

lemma block_candidate_push_total:
  "wf_block_candidate n bc \<Longrightarrow> unat i < n \<Longrightarrow>
     block_candidate_push bc i s = Some (block_candidate_add bc (unat i) s)"
  by (auto simp: block_candidate_push_def block_candidate_add_def wf_block_candidate_def approved_at_def
      split: option.splits)

lemma block_candidate_merge_total:
  "block_candidate_get_id l = block_candidate_get_id r \<Longrightarrow>
     block_candidate_merge l r = Some (block_candidate_join l r)"
  by (simp add: block_candidate_merge_def block_candidate_join_def signatures_join.merge_total)

lemma block_candidate_add_simps [simp]:
  "bc_block (block_candidate_add bc i s) = bc_block bc"
  "block_candidate_get_id (block_candidate_add bc i s) = block_candidate_get_id bc"
  "wf_block_candidate n (block_candidate_add bc i s) = wf_block_candidate n bc"
  by (simp_all add: block_candidate_add_def wf_block_candidate_def block_candidate_get_id_def)

lemma approved_at_add:
  "wf_block_candidate n bc \<Longrightarrow> i < n \<Longrightarrow>
     approved_at (block_candidate_add bc i s) j \<longleftrightarrow> approved_at bc j \<or> (j = i \<and> s \<noteq> None)"
  by (auto simp: block_candidate_add_def approved_at_def wf_block_candidate_def nth_list_update)

lemma block_candidate_join_simps [simp]:
  "bc_block (block_candidate_join l r) = bc_block l"
  "block_candidate_get_id (block_candidate_join l r) = block_candidate_get_id l"
  "wf_block_candidate n l \<Longrightarrow> wf_block_candidate n r \<Longrightarrow> wf_block_candidate n (block_candidate_join l r)"
  "block_candidate_join bc bc = bc"
  by (simp_all add: block_candidate_join_def wf_block_candidate_def block_candidate_get_id_def
      signatures_join.join_idem)

lemma approved_at_join:
  "wf_block_candidate n l \<Longrightarrow> wf_block_candidate n r \<Longrightarrow> i < n \<Longrightarrow>
     approved_at (block_candidate_join l r) i \<longleftrightarrow> approved_at l i \<or> approved_at r i"
  by (auto simp: approved_at_def block_candidate_join_def wf_block_candidate_def nth_list_join combine_options_def
      split: option.splits)

lemma block_candidate_join_commute:
  "bc_block l = bc_block r \<Longrightarrow> block_candidate_join l r = block_candidate_join r l"
  by (simp add: block_candidate_join_def signatures_join.join_commute [of "bc_approved_by l"])

lemma block_candidate_join_assoc:
  "block_candidate_join (block_candidate_join x y) z = block_candidate_join x (block_candidate_join y z)"
  by (simp add: block_candidate_join_def signatures_join.join_assoc)

lemma create_unapproved_simps [simp]:
  "bc_block (block_candidate_create_unapproved desc b) = b"
  "block_candidate_get_id (block_candidate_create_unapproved desc b) = sent_block_get_id b"
  "wf_desc desc \<Longrightarrow> wf_block_candidate (nodes_count desc) (block_candidate_create_unapproved desc b)"
  "i < unat (get_total_nodes desc) \<Longrightarrow> \<not> approved_at (block_candidate_create_unapproved desc b) i"
  by (simp_all add: block_candidate_create_unapproved_def wf_block_candidate_def approved_at_def
      block_candidate_get_id_eq)

subsection \<open>Votes\<close>

definition voted_at :: "vote_candidate \<Rightarrow> nat \<Rightarrow> bool" where
  "voted_at vc i \<longleftrightarrow> vc_voted_by vc ! i"

definition wf_vote_candidate :: "nat \<Rightarrow> vote_candidate \<Rightarrow> bool" where
  "wf_vote_candidate n vc \<longleftrightarrow> length (vc_voted_by vc) = n"

definition vote_candidate_add :: "vote_candidate \<Rightarrow> nat \<Rightarrow> vote_candidate" where
  "vote_candidate_add vc i = vc\<lparr>vc_voted_by := (vc_voted_by vc)[i := True]\<rparr>"

definition vote_candidate_join :: "vote_candidate \<Rightarrow> vote_candidate \<Rightarrow> vote_candidate" where
  "vote_candidate_join left right = left\<lparr>vc_voted_by := list_join (\<or>) (vc_voted_by left) (vc_voted_by right)\<rparr>"

lemma is_voted_by_total:
  "wf_vote_candidate n vc \<Longrightarrow> unat i < n \<Longrightarrow> vote_candidate_check_block_is_voted_by vc i = Some (voted_at vc (unat i))"
  by (simp add: vote_candidate_check_block_is_voted_by_def voted_at_def wf_vote_candidate_def)

lemma is_voted_total:
  "wf_desc desc \<Longrightarrow> wf_vote_candidate (nodes_count desc) vc \<Longrightarrow>
     vote_candidate_check_block_is_voted desc vc = Some (cutoff_of desc \<le> weight_of desc (voted_at vc))"
  unfolding vote_candidate_check_block_is_voted_def
  by (rule cutoff_reached_total) (simp_all add: voted_at_def wf_vote_candidate_def)

lemma vote_candidate_push_total:
  "wf_vote_candidate n vc \<Longrightarrow> unat i < n \<Longrightarrow> vote_candidate_push vc i = Some (vote_candidate_add vc (unat i))"
  by (auto simp: vote_candidate_push_def vote_candidate_add_def wf_vote_candidate_def
      intro!: vote_candidate.equality nth_equalityI simp: nth_list_update split: if_splits)

lemma vote_candidate_merge_total:
  "vote_candidate_get_id l = vote_candidate_get_id r \<Longrightarrow> vote_candidate_merge l r = Some (vote_candidate_join l r)"
  by (simp add: vote_candidate_merge_def vote_candidate_join_def bools_join.merge_total)

lemma vote_candidate_add_simps [simp]:
  "vc_block (vote_candidate_add vc i) = vc_block vc"
  "vote_candidate_get_id (vote_candidate_add vc i) = vote_candidate_get_id vc"
  "wf_vote_candidate n (vote_candidate_add vc i) = wf_vote_candidate n vc"
  by (simp_all add: vote_candidate_add_def wf_vote_candidate_def vote_candidate_get_id_def)

lemma voted_at_add:
  "wf_vote_candidate n vc \<Longrightarrow> i < n \<Longrightarrow> voted_at (vote_candidate_add vc i) j \<longleftrightarrow> voted_at vc j \<or> j = i"
  by (auto simp: vote_candidate_add_def voted_at_def wf_vote_candidate_def nth_list_update)

lemma vote_candidate_join_simps [simp]:
  "vc_block (vote_candidate_join l r) = vc_block l"
  "vote_candidate_get_id (vote_candidate_join l r) = vote_candidate_get_id l"
  "wf_vote_candidate n l \<Longrightarrow> wf_vote_candidate n r \<Longrightarrow> wf_vote_candidate n (vote_candidate_join l r)"
  "vote_candidate_join vc vc = vc"
  by (simp_all add: vote_candidate_join_def wf_vote_candidate_def vote_candidate_get_id_def bools_join.join_idem)

lemma voted_at_join:
  "wf_vote_candidate n l \<Longrightarrow> wf_vote_candidate n r \<Longrightarrow> i < n \<Longrightarrow>
     voted_at (vote_candidate_join l r) i \<longleftrightarrow> voted_at l i \<or> voted_at r i"
  by (auto simp: voted_at_def vote_candidate_join_def wf_vote_candidate_def nth_list_join)

lemma vote_candidate_join_commute:
  "vc_block l = vc_block r \<Longrightarrow> vote_candidate_join l r = vote_candidate_join r l"
  by (simp add: vote_candidate_join_def bools_join.join_commute [of "vc_voted_by l"])

lemma vote_candidate_join_assoc:
  "vote_candidate_join (vote_candidate_join x y) z = vote_candidate_join x (vote_candidate_join y z)"
  by (simp add: vote_candidate_join_def bools_join.join_assoc)

lemma create_unvoted_simps [simp]:
  "vc_block (vote_candidate_create_unvoted desc b) = b"
  "vote_candidate_get_id (vote_candidate_create_unvoted desc b) = sent_block_get_id b"
  "wf_desc desc \<Longrightarrow> wf_vote_candidate (nodes_count desc) (vote_candidate_create_unvoted desc b)"
  "i < unat (get_total_nodes desc) \<Longrightarrow> \<not> voted_at (vote_candidate_create_unvoted desc b) i"
  by (simp_all add: vote_candidate_create_unvoted_def wf_vote_candidate_def voted_at_def vote_candidate_get_id_def)

end
