(* ===== verification/VS_Attempt.thy ===== *)
theory VS_Attempt
  imports VS_Candidates
begin

text \<open>
  One attempt of a round (\<^verbatim>\<open>validator-session/src/round_attempt.rs\<close>): the votes of the validators for block
  candidates, their precommits, and the block a slow attempt votes for.

  The attempt calls back into its round through the trait \<^verbatim>\<open>RoundState\<close>. The record \<open>round_view\<close> holds the
  methods it uses; the round supplies them (\<open>round_view_of\<close> in theory \<open>VS_Round\<close>). The locale
  \<open>round_interface\<close> is the contract of those methods.

  The parameters of log messages are not evaluated in the model. The candidate a \<^verbatim>\<open>Vote\<close> or \<^verbatim>\<open>Precommit\<close>
  message names is only compared to write a warning: the vote is the block the rules determine.
\<close>

subsection \<open>Messages\<close>

text \<open>The incremental updates a validator sends (\<^verbatim>\<open>ton_api\<close> type \<^verbatim>\<open>validator_session.round.Message\<close>).\<close>

datatype message =
    SubmittedBlock u32 block_hash block_hash block_hash
  | ApprovedBlock u32 block_id block_signature
  | RejectedBlock u32 block_id bytes
  | Commit u32 block_id block_signature
  | Vote u32 u32 block_id
  | VoteFor u32 u32 block_id
  | Precommit u32 u32 block_id
  | Empty u32 u32

subsection \<open>State and the view of the round\<close>

record round_attempt =
  ra_sequence_number :: u32
  ra_votes :: "vote_candidate list option"
  ra_precommitted :: "bool list"
  ra_vote_for :: "sent_block_ptr option"

record round_view =
  rv_sequence_number :: u32
  rv_first_attempt :: "u32 \<Rightarrow> u32 option"
  rv_block :: "block_id \<Rightarrow> block_candidate option"
  rv_choose_block_to_vote :: "u32 \<Rightarrow> u32 \<Rightarrow> sent_block_ptr option \<Rightarrow> sent_block_ptr option option"

definition round_attempt_create_empty :: "session_description \<Rightarrow> u32 \<Rightarrow> round_attempt" where
  "round_attempt_create_empty desc sequence_number =
     \<lparr> ra_sequence_number = sequence_number, ra_votes = None,
       ra_precommitted = replicate (unat (get_total_nodes desc)) False, ra_vote_for = None \<rparr>"

subsection \<open>Queries\<close>

definition get_voted_block :: "session_description \<Rightarrow> round_attempt \<Rightarrow> sent_block_ptr option option" where
  "get_voted_block desc self =
     (if ra_votes self = None then Some None
      else do { vote \<leftarrow> find_first (vote_candidate_check_block_is_voted desc)
                          (vector_wrapper_iter (ra_votes self));
                Some (map_option vc_block vote) })"

definition check_vote_received_from :: "round_attempt \<Rightarrow> u32 \<Rightarrow> bool option" where
  "check_vote_received_from self src_idx =
     (if ra_votes self = None then Some False
      else do { vote \<leftarrow> find_first (\<lambda>vote. vote_candidate_check_block_is_voted_by vote src_idx)
                          (vector_wrapper_iter (ra_votes self));
                Some (vote \<noteq> None) })"

definition check_attempt_is_precommitted :: "session_description \<Rightarrow> round_attempt \<Rightarrow> bool option" where
  "check_attempt_is_precommitted desc self =
     cutoff_reached desc (\<lambda>i. vector_at (ra_precommitted self) (unat i))"

definition check_precommit_received_from :: "round_attempt \<Rightarrow> u32 \<Rightarrow> bool option" where
  "check_precommit_received_from self src_idx = vector_at (ra_precommitted self) (unat src_idx)"

definition round_attempt_get_candidate :: "vote_candidate list option \<Rightarrow> block_id \<Rightarrow> vote_candidate option" where
  "round_attempt_get_candidate votes block_id =
     List.find (\<lambda>candidate. vote_candidate_get_id candidate = block_id) (vector_wrapper_iter votes)"

subsection \<open>Creating the next action\<close>

definition round_attempt_create_action ::
  "session_description \<Rightarrow> round_attempt \<Rightarrow> round_view \<Rightarrow> u32 \<Rightarrow> u32 \<Rightarrow> message option" where
  "round_attempt_create_action desc self round src_idx attempt_id =
     do { voted \<leftarrow> check_vote_received_from self src_idx;
          block_to_vote \<leftarrow>
            (if \<not> voted then rv_choose_block_to_vote round src_idx attempt_id (ra_vote_for self)
             else Some None);
          (case block_to_vote of
             Some block \<Rightarrow>
               Some (Vote (rv_sequence_number round) (ra_sequence_number self) (sent_block_get_id block))
           | None \<Rightarrow>
               do { precommitted \<leftarrow> check_precommit_received_from self src_idx;
                    voted_block \<leftarrow>
                      (if \<not> precommitted then get_voted_block desc self else Some None);
                    (case voted_block of
                       Some block \<Rightarrow>
                         Some (Precommit (rv_sequence_number round) (ra_sequence_number self)
                                 (sent_block_get_id block))
                     | None \<Rightarrow>
                         Some (Empty (rv_sequence_number round) (ra_sequence_number self))) }) }"

subsection \<open>Applying actions\<close>

definition try_vote ::
  "session_description \<Rightarrow> round_attempt \<Rightarrow> u32 \<Rightarrow> u32 \<Rightarrow> message option \<Rightarrow> round_view \<Rightarrow> round_attempt
    \<Rightarrow> (round_attempt \<times> bool) option" where
  "try_vote desc self src_idx attempt_id message round_state default_state =
     do { voted \<leftarrow> check_vote_received_from self src_idx;
          if voted then Some (default_state, False)
          else
            do { block_to_vote \<leftarrow> rv_choose_block_to_vote round_state src_idx attempt_id (ra_vote_for self);
                 (case block_to_vote of
                    None \<Rightarrow> Some (default_state, False)
                  | Some block \<Rightarrow>
                      do { let candidate =
                             (case round_attempt_get_candidate (ra_votes self) (sent_block_get_id block) of
                                Some vote_candidate \<Rightarrow> vote_candidate
                              | None \<Rightarrow> vote_candidate_create_unvoted desc block);
                           vote_candidate \<leftarrow> vote_candidate_push candidate src_idx;
                           votes \<leftarrow> sorted_vector_push vote_candidate_less (ra_votes self) vote_candidate;
                           Some (\<lparr> ra_sequence_number = ra_sequence_number self, ra_votes = votes,
                                   ra_precommitted = ra_precommitted self,
                                   ra_vote_for = ra_vote_for self \<rparr>, True) }) } }"

definition try_precommit ::
  "session_description \<Rightarrow> round_attempt \<Rightarrow> u32 \<Rightarrow> u32 \<Rightarrow> message option \<Rightarrow> round_view \<Rightarrow> round_attempt
    \<Rightarrow> (round_attempt \<times> bool) option" where
  "try_precommit desc self src_idx attempt_id message round_state default_state =
     do { received \<leftarrow> check_precommit_received_from self src_idx;
          if received then Some (default_state, False)
          else
            do { voted_block \<leftarrow> get_voted_block desc self;
                 (case voted_block of
                    None \<Rightarrow> Some (default_state, False)
                  | Some _ \<Rightarrow>
                      do { precommitted \<leftarrow> vector_change (ra_precommitted self) (unat src_idx) True;
                           Some (\<lparr> ra_sequence_number = ra_sequence_number self, ra_votes = ra_votes self,
                                   ra_precommitted = precommitted, ra_vote_for = ra_vote_for self \<rparr>, True) }) } }"

definition apply_default_action ::
  "session_description \<Rightarrow> round_attempt \<Rightarrow> u32 \<Rightarrow> u32 \<Rightarrow> message option \<Rightarrow> round_view \<Rightarrow> round_attempt
    \<Rightarrow> (round_attempt \<times> bool) option" where
  "apply_default_action desc self src_idx attempt_id message round_state default_state =
     do { vote_result \<leftarrow> try_vote desc self src_idx attempt_id message round_state default_state;
          if snd vote_result then Some vote_result
          else
            do { precommit_result \<leftarrow>
                   try_precommit desc self src_idx attempt_id message round_state default_state;
                 if snd precommit_result then Some precommit_result else Some (default_state, False) } }"

definition apply_vote_for_action ::
  "session_description \<Rightarrow> round_attempt \<Rightarrow> u32 \<Rightarrow> u32 \<Rightarrow> block_id \<Rightarrow> round_view \<Rightarrow> round_attempt
    \<Rightarrow> round_attempt option" where
  "apply_vote_for_action desc self src_idx attempt_id candidate round_state default_state =
     (if ra_vote_for self \<noteq> None then Some default_state
      else
        do { author \<leftarrow> get_vote_for_author desc attempt_id;
             if src_idx \<noteq> author then Some default_state
             else
               do { first_attempt \<leftarrow> rv_first_attempt round_state src_idx;
                    let max_attempts = max_round_attempts (sd_options desc);
                    if first_attempt = 0 \<and> max_attempts > 0 then Some default_state
                    else if first_attempt + max_attempts > attempt_id \<and> max_attempts = 0
                    then Some default_state
                    else
                      (case rv_block round_state candidate of
                         None \<Rightarrow> Some default_state
                       | Some vote_for_block \<Rightarrow>
                           do { approved \<leftarrow> block_candidate_check_block_is_approved desc vote_for_block;
                                if \<not> approved then Some default_state
                                else Some \<lparr> ra_sequence_number = ra_sequence_number self,
                                            ra_votes = ra_votes self,
                                            ra_precommitted = ra_precommitted self,
                                            ra_vote_for = Some (bc_block vote_for_block) \<rparr> }) } })"

definition round_attempt_apply_action_dispatch ::
  "session_description \<Rightarrow> round_attempt \<Rightarrow> u32 \<Rightarrow> u32 \<Rightarrow> message \<Rightarrow> round_view \<Rightarrow> round_attempt
    \<Rightarrow> round_attempt option" where
  "round_attempt_apply_action_dispatch desc self src_idx attempt_id message round_state default_state =
     (case message of
        VoteFor _ _ candidate \<Rightarrow>
          apply_vote_for_action desc self src_idx attempt_id candidate round_state default_state
      | Vote _ _ _ \<Rightarrow>
          map_option fst (apply_default_action desc self src_idx attempt_id (Some message) round_state default_state)
      | Precommit _ _ _ \<Rightarrow>
          map_option fst (apply_default_action desc self src_idx attempt_id (Some message) round_state default_state)
      | Empty _ _ \<Rightarrow>
          map_option fst (apply_default_action desc self src_idx attempt_id (Some message) round_state default_state)
      | _ \<Rightarrow> None)"

definition round_attempt_apply_action ::
  "session_description \<Rightarrow> round_attempt \<Rightarrow> u32 \<Rightarrow> u32 \<Rightarrow> message \<Rightarrow> round_view \<Rightarrow> round_attempt option" where
  "round_attempt_apply_action desc self src_idx attempt_id message round_state =
     round_attempt_apply_action_dispatch desc self src_idx attempt_id message round_state self"

definition round_attempt_make_one ::
  "session_description \<Rightarrow> round_attempt \<Rightarrow> u32 \<Rightarrow> u32 \<Rightarrow> round_view \<Rightarrow> (round_attempt \<times> bool) option" where
  "round_attempt_make_one desc self src_idx attempt_id round_state =
     apply_default_action desc self src_idx attempt_id None round_state self"

subsection \<open>Merging\<close>

definition vote_for_merge :: "sent_block_ptr option \<Rightarrow> sent_block_ptr option \<Rightarrow> sent_block_ptr option" where
  "vote_for_merge left right =
     (case left of None \<Rightarrow> right
      | Some l \<Rightarrow>
         (case right of None \<Rightarrow> left
          | Some r \<Rightarrow>
              if left = right then left
              else if sent_block_get_id l < sent_block_get_id r then left else right))"

definition round_attempt_merge :: "round_attempt \<Rightarrow> round_attempt \<Rightarrow> round_attempt option" where
  "round_attempt_merge left right =
     do { rs_assert (ra_sequence_number left = ra_sequence_number right);
          let vote_for = vote_for_merge (ra_vote_for left) (ra_vote_for right);
          precommitted \<leftarrow> bool_vector_merge (ra_precommitted left) (ra_precommitted right);
          votes \<leftarrow> sorted_vector_wrapper_merge vote_candidate_less (ra_votes left) (ra_votes right)
                     vote_candidate_merge;
          Some \<lparr> ra_sequence_number = ra_sequence_number left, ra_votes = votes,
                 ra_precommitted = precommitted, ra_vote_for = vote_for \<rparr> }"

definition attempt_less :: "round_attempt \<Rightarrow> round_attempt \<Rightarrow> bool" where
  "attempt_less first second \<longleftrightarrow> ra_sequence_number first < ra_sequence_number second"

subsection \<open>Votes and precommits as relations\<close>

text \<open>
  What an attempt says, independently of how it is stored: who voted for which block, who
  precommitted, and which block and which attempt has the weight of a decision behind it.
\<close>

definition attempt_votes :: "round_attempt \<Rightarrow> vote_candidate list" where
  "attempt_votes a = vector_wrapper_iter (ra_votes a)"

definition attempt_vote :: "round_attempt \<Rightarrow> block_id \<Rightarrow> nat \<Rightarrow> bool" where
  "attempt_vote a b i \<longleftrightarrow> (\<exists>v \<in> set (attempt_votes a). vote_candidate_get_id v = b \<and> voted_at v i)"

definition attempt_voted :: "session_description \<Rightarrow> round_attempt \<Rightarrow> block_id \<Rightarrow> bool" where
  "attempt_voted desc a b \<longleftrightarrow> cutoff_of desc \<le> weight_of desc (attempt_vote a b)"

definition vote_received :: "round_attempt \<Rightarrow> nat \<Rightarrow> bool" where
  "vote_received a i \<longleftrightarrow> (\<exists>v \<in> set (attempt_votes a). voted_at v i)"

definition attempt_precommit :: "round_attempt \<Rightarrow> nat \<Rightarrow> bool" where
  "attempt_precommit a i \<longleftrightarrow> ra_precommitted a ! i"

definition attempt_precommitted :: "session_description \<Rightarrow> round_attempt \<Rightarrow> bool" where
  "attempt_precommitted desc a \<longleftrightarrow> cutoff_of desc \<le> weight_of desc (attempt_precommit a)"

text \<open>
  The invariant of an attempt. The last part is the precondition of a precommit: nobody precommits
  before some block has the votes.
\<close>

definition wf_attempt :: "session_description \<Rightarrow> round_attempt \<Rightarrow> bool" where
  "wf_attempt desc a \<longleftrightarrow>
     key_sorted vote_candidate_get_id (attempt_votes a) \<and>
     (\<forall>v \<in> set (attempt_votes a). wf_vote_candidate (nodes_count desc) v) \<and>
     length (ra_precommitted a) = nodes_count desc \<and>
     ((\<exists>i < nodes_count desc. attempt_precommit a i) \<longrightarrow> (\<exists>b. attempt_voted desc a b))"

text \<open>The block an attempt has decided to precommit, and the effect of a vote and of a precommit.\<close>

definition voted_block :: "session_description \<Rightarrow> round_attempt \<Rightarrow> sent_block_ptr option" where
  "voted_block desc a =
     map_option vc_block (List.find (\<lambda>v. cutoff_of desc \<le> weight_of desc (voted_at v)) (attempt_votes a))"

definition attempt_candidate :: "session_description \<Rightarrow> round_attempt \<Rightarrow> sent_block_ptr \<Rightarrow> vote_candidate" where
  "attempt_candidate desc a block =
     (case round_attempt_get_candidate (ra_votes a) (sent_block_get_id block) of
        Some v \<Rightarrow> v | None \<Rightarrow> vote_candidate_create_unvoted desc block)"

definition attempt_add_vote :: "session_description \<Rightarrow> round_attempt \<Rightarrow> nat \<Rightarrow> sent_block_ptr \<Rightarrow> round_attempt" where
  "attempt_add_vote desc a i block =
     a\<lparr>ra_votes := Some (key_insert vote_candidate_get_id
                           (vote_candidate_add (attempt_candidate desc a block) i) (attempt_votes a))\<rparr>"

definition attempt_add_precommit :: "round_attempt \<Rightarrow> nat \<Rightarrow> round_attempt" where
  "attempt_add_precommit a i = a\<lparr>ra_precommitted := (ra_precommitted a)[i := True]\<rparr>"

lemma attempt_votes_simps [simp]:
  "ra_votes a = None \<Longrightarrow> attempt_votes a = []"
  "ra_votes a = Some vs \<Longrightarrow> attempt_votes a = vs"
  by (simp_all add: attempt_votes_def)

lemma wf_attemptD:
  assumes "wf_attempt desc a"
  shows "key_sorted vote_candidate_get_id (attempt_votes a)"
    and "v \<in> set (attempt_votes a) \<Longrightarrow> wf_vote_candidate (nodes_count desc) v"
    and "length (ra_precommitted a) = nodes_count desc"
    and "i < nodes_count desc \<Longrightarrow> attempt_precommit a i \<Longrightarrow> \<exists>b. attempt_voted desc a b"
  using assms by (auto simp: wf_attempt_def)

lemma attempt_vote_of_candidate:
  assumes "wf_attempt desc a" and "v \<in> set (attempt_votes a)"
  shows "attempt_vote a (vote_candidate_get_id v) = voted_at v"
proof
  fix i show "attempt_vote a (vote_candidate_get_id v) i = voted_at v i"
    using key_sorted_inj [OF wf_attemptD(1) [OF assms(1)] _ assms(2)] assms(2)
    by (auto simp: attempt_vote_def)
qed

lemma attempt_voted_iff:
  assumes "wf_desc desc" and "wf_attempt desc a"
  shows "attempt_voted desc a b \<longleftrightarrow>
    (\<exists>v \<in> set (attempt_votes a). vote_candidate_get_id v = b \<and> cutoff_of desc \<le> weight_of desc (voted_at v))"
proof
  assume voted: "attempt_voted desc a b"
  then obtain i where "attempt_vote a b i"
    using vp.quorum_member [OF assms(1), of "attempt_vote a b"] by (auto simp: attempt_voted_def)
  then obtain v where "v \<in> set (attempt_votes a)" "vote_candidate_get_id v = b"
    by (auto simp: attempt_vote_def)
  with voted attempt_vote_of_candidate [OF assms(2)]
  show "\<exists>v \<in> set (attempt_votes a). vote_candidate_get_id v = b \<and> cutoff_of desc \<le> weight_of desc (voted_at v)"
    by (auto simp: attempt_voted_def)
qed (auto simp: attempt_voted_def attempt_vote_of_candidate [OF assms(2)])

lemma get_voted_block_total:
  assumes "wf_desc desc" and "wf_attempt desc a"
  shows "get_voted_block desc a = Some (voted_block desc a)"
proof -
  have "find_first (vote_candidate_check_block_is_voted desc) (attempt_votes a) =
    Some (List.find (\<lambda>v. cutoff_of desc \<le> weight_of desc (voted_at v)) (attempt_votes a))"
    using assms by (intro find_first_total is_voted_total) (auto dest: wf_attemptD)
  then show ?thesis
    by (auto simp: get_voted_block_def voted_block_def attempt_votes_def)
qed

lemma voted_block_SomeD:
  assumes "wf_desc desc" and "wf_attempt desc a" and "voted_block desc a = Some block"
  shows "attempt_voted desc a (sent_block_get_id block)"
    and "\<exists>v \<in> set (attempt_votes a). vc_block v = block"
  using assms
  by (auto simp: voted_block_def attempt_voted_iff vote_candidate_get_id_def dest!: find_SomeD)

lemma voted_block_None_iff:
  assumes "wf_desc desc" and "wf_attempt desc a"
  shows "voted_block desc a = None \<longleftrightarrow> (\<forall>b. \<not> attempt_voted desc a b)"
  using assms by (auto simp: voted_block_def attempt_voted_iff find_None_iff_set)

lemma check_vote_received_total:
  assumes "wf_attempt desc a" and "unat i < nodes_count desc"
  shows "check_vote_received_from a i = Some (vote_received a (unat i))"
proof -
  have "find_first (\<lambda>v. vote_candidate_check_block_is_voted_by v i) (attempt_votes a) =
    Some (List.find (\<lambda>v. voted_at v (unat i)) (attempt_votes a))"
    using assms by (intro find_first_total is_voted_by_total) (auto dest: wf_attemptD)
  then show ?thesis
    by (cases "ra_votes a")
      (simp_all add: check_vote_received_from_def vote_received_def find_neq_None del: not_None_eq)
qed

lemma vote_received_iff: "vote_received a i \<longleftrightarrow> (\<exists>b. attempt_vote a b i)"
  by (auto simp: vote_received_def attempt_vote_def)

lemma check_precommit_received_total:
  "wf_attempt desc a \<Longrightarrow> unat i < nodes_count desc \<Longrightarrow>
     check_precommit_received_from a i = Some (attempt_precommit a (unat i))"
  by (simp add: check_precommit_received_from_def attempt_precommit_def wf_attempt_def)

lemma check_attempt_is_precommitted_total:
  "wf_desc desc \<Longrightarrow> wf_attempt desc a \<Longrightarrow>
     check_attempt_is_precommitted desc a = Some (attempt_precommitted desc a)"
  unfolding check_attempt_is_precommitted_def attempt_precommitted_def
  by (rule cutoff_reached_total) (simp_all add: attempt_precommit_def wf_attempt_def)

lemma precommitted_voted:
  assumes "wf_desc desc" and "wf_attempt desc a" and "attempt_precommitted desc a"
  shows "\<exists>b. attempt_voted desc a b"
proof -
  obtain i where "i < nodes_count desc" "attempt_precommit a i"
    using vp.quorum_member [OF assms(1), of "attempt_precommit a"] assms(3)
    by (auto simp: attempt_precommitted_def)
  then show ?thesis using assms(2) by (rule wf_attemptD(4) [rotated])
qed

lemma create_empty_simps [simp]:
  "ra_sequence_number (round_attempt_create_empty desc s) = s"
  "ra_vote_for (round_attempt_create_empty desc s) = None"
  "attempt_votes (round_attempt_create_empty desc s) = []"
  "\<not> attempt_vote (round_attempt_create_empty desc s) b i"
  "\<not> vote_received (round_attempt_create_empty desc s) i"
  "i < unat (get_total_nodes desc) \<Longrightarrow> \<not> attempt_precommit (round_attempt_create_empty desc s) i"
  by (simp_all add: round_attempt_create_empty_def attempt_votes_def attempt_vote_def attempt_precommit_def
      vote_received_def)

lemma wf_attempt_create_empty [simp]: "wf_desc desc \<Longrightarrow> wf_attempt desc (round_attempt_create_empty desc s)"
  by (auto simp: wf_attempt_def attempt_precommit_def round_attempt_create_empty_def attempt_votes_def)

subsection \<open>The effect of votes and precommits\<close>

lemma get_candidate_SomeD:
  "round_attempt_get_candidate (ra_votes a) b = Some v \<Longrightarrow> v \<in> set (attempt_votes a) \<and> vote_candidate_get_id v = b"
  by (auto simp: round_attempt_get_candidate_def attempt_votes_def dest: find_SomeD)

lemma attempt_candidate_props:
  assumes "wf_desc desc" and "wf_attempt desc a"
  shows "vote_candidate_get_id (attempt_candidate desc a block) = sent_block_get_id block"
    and "wf_vote_candidate (nodes_count desc) (attempt_candidate desc a block)"
    and "i < nodes_count desc \<Longrightarrow> voted_at (attempt_candidate desc a block) i \<longleftrightarrow> attempt_vote a (sent_block_get_id block) i"
proof -
  show "voted_at (attempt_candidate desc a block) i \<longleftrightarrow> attempt_vote a (sent_block_get_id block) i" if "i < nodes_count desc"
  proof (cases "round_attempt_get_candidate (ra_votes a) (sent_block_get_id block)")
    case None
    then have "\<not> attempt_vote a (sent_block_get_id block) i"
      by (auto simp: round_attempt_get_candidate_def attempt_vote_def attempt_votes_def find_None_iff_set)
    with None assms that show ?thesis by (simp add: attempt_candidate_def)
  next
    case (Some v)
    with get_candidate_SomeD [OF this] attempt_vote_of_candidate [OF assms(2), of v]
    show ?thesis by (simp add: attempt_candidate_def)
  qed
qed (use assms in \<open>auto simp: attempt_candidate_def dest: get_candidate_SomeD wf_attemptD(2) split: option.splits\<close>)

lemma attempt_votes_add_vote [simp]:
  "attempt_votes (attempt_add_vote desc a i block) =
     key_insert vote_candidate_get_id (vote_candidate_add (attempt_candidate desc a block) i) (attempt_votes a)"
  by (simp add: attempt_add_vote_def attempt_votes_def)

lemma attempt_add_vote_simps [simp]:
  "ra_sequence_number (attempt_add_vote desc a i block) = ra_sequence_number a"
  "ra_precommitted (attempt_add_vote desc a i block) = ra_precommitted a"
  "ra_vote_for (attempt_add_vote desc a i block) = ra_vote_for a"
  "attempt_precommit (attempt_add_vote desc a i block) = attempt_precommit a"
  by (simp_all add: attempt_add_vote_def attempt_precommit_def [abs_def])

lemma attempt_vote_add_vote:
  assumes "wf_desc desc" and "wf_attempt desc a" and "i < nodes_count desc" and "j < nodes_count desc"
  shows "attempt_vote (attempt_add_vote desc a i block) b j \<longleftrightarrow>
    attempt_vote a b j \<or> (b = sent_block_get_id block \<and> j = i)"
proof -
  note cand = attempt_candidate_props [OF assms(1,2), where block = block]
  have new: "voted_at (vote_candidate_add (attempt_candidate desc a block) i) j \<longleftrightarrow>
    attempt_vote a (sent_block_get_id block) j \<or> j = i"
    using assms(3,4) cand by (simp add: voted_at_add)
  show ?thesis
    using wf_attemptD(1) [OF assms(2)] cand(1) new
    by (cases "b = sent_block_get_id block") (auto simp: attempt_vote_def set_key_insert)
qed

lemma attempt_voted_mono:
  assumes "\<And>i. i < nodes_count desc \<Longrightarrow> attempt_vote a b i \<Longrightarrow> attempt_vote a' b i" and "attempt_voted desc a b"
  shows "attempt_voted desc a' b"
  using assms(2) weight_of_mono [of desc "attempt_vote a b" "attempt_vote a' b"] assms(1)
  by (auto simp: attempt_voted_def intro: order.trans)

lemma wf_attempt_add_vote:
  assumes "wf_desc desc" and "wf_attempt desc a" and "i < nodes_count desc"
  shows "wf_attempt desc (attempt_add_vote desc a i block)"
proof -
  have "attempt_voted desc (attempt_add_vote desc a i block) b" if "attempt_voted desc a b" for b
    using assms by (intro attempt_voted_mono [OF _ that]) (simp add: attempt_vote_add_vote)
  then show ?thesis
    using assms attempt_candidate_props(2) [OF assms(1,2), where block = block]
    by (auto simp: wf_attempt_def key_insert_sorted set_key_insert)
qed

lemma attempt_add_precommit_simps [simp]:
  "ra_sequence_number (attempt_add_precommit a i) = ra_sequence_number a"
  "ra_votes (attempt_add_precommit a i) = ra_votes a"
  "ra_vote_for (attempt_add_precommit a i) = ra_vote_for a"
  "attempt_votes (attempt_add_precommit a i) = attempt_votes a"
  "attempt_vote (attempt_add_precommit a i) = attempt_vote a"
  "attempt_voted desc (attempt_add_precommit a i) = attempt_voted desc a"
  by (simp_all add: attempt_add_precommit_def attempt_votes_def attempt_vote_def [abs_def] attempt_voted_def [abs_def])

lemma attempt_precommit_add:
  "wf_attempt desc a \<Longrightarrow> i < nodes_count desc \<Longrightarrow>
     attempt_precommit (attempt_add_precommit a i) j \<longleftrightarrow> attempt_precommit a j \<or> j = i"
  by (auto simp: attempt_precommit_def attempt_add_precommit_def wf_attempt_def nth_list_update)

lemma wf_attempt_add_precommit:
  assumes "wf_desc desc" and "wf_attempt desc a" and "voted_block desc a \<noteq> None"
  shows "wf_attempt desc (attempt_add_precommit a i)"
proof -
  have "\<exists>b. attempt_voted desc a b"
    using assms(3) voted_block_None_iff [OF assms(1,2)] by (metis (no_types))
  then show ?thesis
    using assms(2) by (simp add: wf_attempt_def) (simp add: attempt_add_precommit_def)
qed

subsection \<open>How an attempt evolves\<close>

text \<open>
  What a step of one validator does to an attempt: it removes nothing, adds at most one vote of that
  validator and only if it had none in this attempt, and adds at most its precommit.
\<close>

definition attempt_evolves :: "nat \<Rightarrow> nat \<Rightarrow> round_attempt \<Rightarrow> round_attempt \<Rightarrow> bool" where
  "attempt_evolves n src a a' \<longleftrightarrow>
     ra_sequence_number a' = ra_sequence_number a \<and>
     (\<forall>b. \<forall>i < n. attempt_vote a b i \<longrightarrow> attempt_vote a' b i) \<and>
     (\<forall>i < n. attempt_precommit a i \<longrightarrow> attempt_precommit a' i) \<and>
     (\<exists>b0. \<forall>b. \<forall>i < n. attempt_vote a' b i \<longrightarrow>
        attempt_vote a b i \<or> (i = src \<and> b = b0 \<and> \<not> vote_received a src)) \<and>
     (\<forall>i < n. attempt_precommit a' i \<longrightarrow> attempt_precommit a i \<or> i = src)"

lemma attempt_evolves_refl [simp]: "attempt_evolves n src a a"
  by (auto simp: attempt_evolves_def)

lemma attempt_evolves_vote:
  assumes "wf_desc desc" and "wf_attempt desc a" and "i < nodes_count desc" and "\<not> vote_received a i"
  shows "attempt_evolves (nodes_count desc) i a (attempt_add_vote desc a i block)"
  using assms by (auto simp: attempt_evolves_def attempt_vote_add_vote)

lemma attempt_evolves_precommit:
  assumes "wf_attempt desc a" and "i < nodes_count desc"
  shows "attempt_evolves (nodes_count desc) i a (attempt_add_precommit a i)"
  using assms by (auto simp: attempt_evolves_def attempt_precommit_add)

lemma votes_push_total:
  assumes "wf_attempt desc a"
  shows "sorted_vector_push vote_candidate_less (ra_votes a) v =
    Some (Some (key_insert vote_candidate_get_id v (attempt_votes a)))"
  using wf_attemptD(1) [OF assms]
  by (cases "ra_votes a") (simp_all add: vote_order.push_None_total vote_order.push_total)

subsection \<open>The contract of the round\<close>

text \<open>Every block an attempt votes for, or is asked to vote for, satisfies \<open>P\<close>.\<close>

definition attempt_blocks :: "(sent_block_ptr \<Rightarrow> bool) \<Rightarrow> round_attempt \<Rightarrow> bool" where
  "attempt_blocks P a \<longleftrightarrow>
     (\<forall>v \<in> set (attempt_votes a). P (vc_block v)) \<and>
     (\<forall>block. ra_vote_for a = Some block \<longrightarrow> P block)"

definition attempt_ok :: "session_description \<Rightarrow> (sent_block_ptr \<Rightarrow> bool) \<Rightarrow> round_attempt \<Rightarrow> bool" where
  "attempt_ok desc P a \<longleftrightarrow> wf_attempt desc a \<and> attempt_blocks P a"

lemma attempt_blocks_mono: "attempt_blocks P a \<Longrightarrow> (\<And>b. P b \<Longrightarrow> Q b) \<Longrightarrow> attempt_blocks Q a"
  by (auto simp: attempt_blocks_def)

lemma attempt_blocks_create_empty [simp]: "attempt_blocks P (round_attempt_create_empty desc s)"
  by (simp add: attempt_blocks_def)

lemma attempt_blocks_vote:
  "wf_attempt desc a \<Longrightarrow> attempt_blocks P a \<Longrightarrow> attempt_vote a b i \<Longrightarrow> \<exists>block. P block \<and> sent_block_get_id block = b"
  by (auto simp: attempt_blocks_def attempt_vote_def vote_candidate_get_id_def)

lemma attempt_blocks_add_vote:
  assumes "wf_desc desc" "wf_attempt desc a" "attempt_blocks P a" "P block"
  shows "attempt_blocks P (attempt_add_vote desc a i block)"
proof -
  have "P (vc_block (attempt_candidate desc a block))"
    using assms(3,4) by (auto simp: attempt_candidate_def attempt_blocks_def dest: get_candidate_SomeD split: option.splits)
  with assms show ?thesis
    using wf_attemptD(1) [OF assms(2)] by (auto simp: attempt_blocks_def set_key_insert)
qed

lemma attempt_blocks_add_precommit [simp]: "attempt_blocks P (attempt_add_precommit a i) = attempt_blocks P a"
  by (simp add: attempt_blocks_def)

text \<open>
  What an attempt relies on when it calls back into its round: the calls do not panic for a validator
  index in range, a block that is found has the identifier asked for, and the block chosen for a vote
  is one the round counts as approved.
\<close>

locale round_interface =
  fixes view :: "'r \<Rightarrow> round_view"
    and description :: "'r \<Rightarrow> session_description"
    and ok :: "'r \<Rightarrow> bool"
    and approved :: "'r \<Rightarrow> sent_block_ptr \<Rightarrow> bool"
  assumes ok_desc: "ok r \<Longrightarrow> wf_desc (description r)"
    and first_attempt_total:
      "ok r \<Longrightarrow> unat i < nodes_count (description r) \<Longrightarrow> \<exists>s. rv_first_attempt (view r) i = Some s"
    and block_found:
      "ok r \<Longrightarrow> rv_block (view r) b = Some bc \<Longrightarrow>
         block_candidate_get_id bc = b \<and> wf_block_candidate (nodes_count (description r)) bc \<and>
         (cutoff_of (description r) \<le> weight_of (description r) (approved_at bc) \<longrightarrow> approved r (bc_block bc))"
    and choose_total:
      "ok r \<Longrightarrow> unat i < nodes_count (description r) \<Longrightarrow>
         (\<And>block. vote_for = Some block \<Longrightarrow> approved r block) \<Longrightarrow>
         \<exists>c. rv_choose_block_to_vote (view r) i attempt vote_for = Some c \<and>
             (\<forall>block. c = Some block \<longrightarrow> approved r block)"
begin

lemma try_vote_total:
  assumes "ok r" and "attempt_ok (description r) (approved r) a" and "unat i < nodes_count (description r)"
  obtains "try_vote (description r) a i s m (view r) a = Some (a, False)"
  | block where "try_vote (description r) a i s m (view r) a =
        Some (attempt_add_vote (description r) a (unat i) block, True)"
      "\<not> vote_received a (unat i)" "approved r block"
proof -
  note wf = ok_desc [OF assms(1)] assms(2) [unfolded attempt_ok_def, THEN conjunct1]
  obtain c where c: "rv_choose_block_to_vote (view r) i s (ra_vote_for a) = Some c"
    "\<forall>block. c = Some block \<longrightarrow> approved r block"
    using choose_total [OF assms(1,3), of "ra_vote_for a" s] assms(2)
    by (auto simp: attempt_ok_def attempt_blocks_def)
  note received = check_vote_received_total [OF wf(2) assms(3)]
  show thesis
  proof (cases "vote_received a (unat i) \<or> c = None")
    case True
    with received c(1) have "try_vote (description r) a i s m (view r) a = Some (a, False)"
      by (auto simp: try_vote_def)
    then show thesis by (rule that(1))
  next
    case False
    then obtain block where block: "c = Some block" "\<not> vote_received a (unat i)" by auto
    have "vote_candidate_push (attempt_candidate (description r) a block) i =
      Some (vote_candidate_add (attempt_candidate (description r) a block) (unat i))"
      by (rule vote_candidate_push_total [OF attempt_candidate_props(2) [OF wf] assms(3)])
    with received c block have "try_vote (description r) a i s m (view r) a =
        Some (attempt_add_vote (description r) a (unat i) block, True)"
      by (simp add: try_vote_def attempt_candidate_def votes_push_total [OF wf(2)] attempt_add_vote_def)
    then show thesis using block c(2) by (intro that(2)) auto
  qed
qed

lemma try_precommit_total:
  assumes "ok r" and "attempt_ok (description r) (approved r) a" and "unat i < nodes_count (description r)"
  obtains "try_precommit (description r) a i s m (view r) a = Some (a, False)"
  | "try_precommit (description r) a i s m (view r) a = Some (attempt_add_precommit a (unat i), True)"
      "\<not> attempt_precommit a (unat i)" "voted_block (description r) a \<noteq> None"
proof -
  note wf = ok_desc [OF assms(1)] assms(2) [unfolded attempt_ok_def, THEN conjunct1]
  have "try_precommit (description r) a i s m (view r) a =
    (if attempt_precommit a (unat i) \<or> voted_block (description r) a = None then Some (a, False)
     else Some (attempt_add_precommit a (unat i), True))"
    using wf_attemptD(3) [OF wf(2)] assms(3)
    by (auto simp: try_precommit_def check_precommit_received_total [OF wf(2)]
        get_voted_block_total [OF wf] attempt_add_precommit_def split: option.splits)
  then show thesis by (metis that)
qed

lemma apply_default_action_total:
  assumes "ok r" and "attempt_ok (description r) (approved r) a" and "unat i < nodes_count (description r)"
  obtains "apply_default_action (description r) a i s m (view r) a = Some (a, False)"
  | a' where "apply_default_action (description r) a i s m (view r) a = Some (a', True)"
      "attempt_ok (description r) (approved r) a'" "attempt_evolves (nodes_count (description r)) (unat i) a a'"
      "ra_vote_for a' = ra_vote_for a"
      "(vote_received a' (unat i) \<and> \<not> vote_received a (unat i)) \<or>
       (vote_received a' = vote_received a \<and> attempt_precommit a' (unat i) \<and> \<not> attempt_precommit a (unat i))"
proof -
  let ?d = "description r" and ?run = "apply_default_action (description r) a i s m (view r) a"
  note wf = ok_desc [OF assms(1)] assms(2) [unfolded attempt_ok_def, THEN conjunct1]
  have blocks: "attempt_blocks (approved r) a" using assms(2) by (simp add: attempt_ok_def)
  consider (vote) block where "try_vote ?d a i s m (view r) a = Some (attempt_add_vote ?d a (unat i) block, True)"
      "\<not> vote_received a (unat i)" "approved r block"
    | (none) "try_vote ?d a i s m (view r) a = Some (a, False)"
    by (rule try_vote_total [OF assms, of s m])
  then show thesis
  proof cases
    case vote
    let ?a = "attempt_add_vote ?d a (unat i) block"
    have "vote_received ?a (unat i)"
      using wf assms(3) by (auto simp: vote_received_iff attempt_vote_add_vote)
    moreover have "attempt_ok (description r) (approved r) ?a"
      using wf assms(3) blocks vote by (simp add: attempt_ok_def wf_attempt_add_vote attempt_blocks_add_vote)
    moreover have "attempt_evolves (nodes_count ?d) (unat i) a ?a"
      using wf assms(3) vote(2) by (rule attempt_evolves_vote)
    ultimately show thesis using vote by (intro that(2) [of ?a]) (auto simp: apply_default_action_def)
  next
    case none
    consider (same) "try_precommit ?d a i s m (view r) a = Some (a, False)"
      | (precommit) "try_precommit ?d a i s m (view r) a = Some (attempt_add_precommit a (unat i), True)"
        "\<not> attempt_precommit a (unat i)" "voted_block ?d a \<noteq> None"
      by (rule try_precommit_total [OF assms, of s m])
    then show thesis
    proof cases
      case same
      with none show thesis by (intro that(1)) (simp add: apply_default_action_def)
    next
      case precommit
      let ?a = "attempt_add_precommit a (unat i)"
      have "attempt_ok (description r) (approved r) ?a"
        using wf precommit blocks by (simp add: attempt_ok_def wf_attempt_add_precommit)
      moreover have "attempt_evolves (nodes_count ?d) (unat i) a ?a"
        using wf(2) assms(3) by (rule attempt_evolves_precommit)
      moreover have "vote_received ?a = vote_received a" by (simp add: vote_received_def [abs_def])
      moreover have "attempt_precommit ?a (unat i)"
        using wf assms(3) by (simp add: attempt_precommit_add)
      ultimately show thesis
        using none precommit by (intro that(2) [of ?a]) (auto simp: apply_default_action_def)
    qed
  qed
qed

text \<open>The vote-for message only sets the block to vote for, and only to an approved one.\<close>

lemma apply_vote_for_action_total:
  assumes "ok r" and "attempt_ok (description r) (approved r) a" and "unat i < nodes_count (description r)"
  obtains vf where "apply_vote_for_action (description r) a i s b (view r) a = Some (a\<lparr>ra_vote_for := vf\<rparr>)"
    "attempt_ok (description r) (approved r) (a\<lparr>ra_vote_for := vf\<rparr>)" "ra_vote_for a = None \<or> vf = ra_vote_for a"
proof -
  let ?run = "apply_vote_for_action (description r) a i s b (view r) a"
  obtain fa where "rv_first_attempt (view r) i = Some fa"
    using first_attempt_total [OF assms(1,3)] by blast
  then have fa: "i = j \<Longrightarrow> rv_first_attempt (view r) j = Some fa" for j by simp
  have author: "get_vote_for_author (description r) s = Some (s mod get_total_nodes (description r))"
    using ok_desc [OF assms(1)] by (simp add: get_vote_for_author_def)
  have "?run = Some a \<or> (\<exists>bc. rv_block (view r) b = Some bc \<and> ra_vote_for a = None \<and>
    approved r (bc_block bc) \<and> ?run = Some (a\<lparr>ra_vote_for := Some (bc_block bc)\<rparr>))"
  proof (cases "rv_block (view r) b")
    case None
    then show ?thesis by (simp add: apply_vote_for_action_def author fa Let_def)
  next
    case (Some bc)
    note found = block_found [OF assms(1) Some]
    note is_approved_total [OF ok_desc [OF assms(1)] conjunct1 [OF conjunct2 [OF found]]]
    with Some found show ?thesis
      by (cases "ra_vote_for a") (simp_all add: apply_vote_for_action_def author fa Let_def)
  qed
  then show thesis
  proof (elim disjE exE conjE)
    assume "?run = Some a"
    then show thesis using assms(2) by (intro that [of "ra_vote_for a"]) auto
  next
    fix bc assume bc: "rv_block (view r) b = Some bc" "ra_vote_for a = None" "approved r (bc_block bc)"
      "?run = Some (a\<lparr>ra_vote_for := Some (bc_block bc)\<rparr>)"
    with assms(2) show thesis
      by (intro that [of "Some (bc_block bc)"])
        (auto simp: attempt_ok_def attempt_blocks_def wf_attempt_def attempt_votes_def attempt_precommit_def
          attempt_voted_def attempt_vote_def [abs_def])
  qed
qed

lemma attempt_apply_action_total:
  assumes "ok r" and "attempt_ok (description r) (approved r) a" and "unat i < nodes_count (description r)"
    and "\<exists>x y b. m = Vote x y b \<or> m = VoteFor x y b \<or> m = Precommit x y b \<or> m = Empty x y"
  obtains a' where "round_attempt_apply_action (description r) a i s m (view r) = Some a'"
    "attempt_ok (description r) (approved r) a'" "attempt_evolves (nodes_count (description r)) (unat i) a a'"
proof -
  have vf: "attempt_evolves n j a (a\<lparr>ra_vote_for := vf\<rparr>)" for n j vf
    by (simp add: attempt_evolves_def attempt_vote_def attempt_votes_def attempt_precommit_def vote_received_def)
  obtain a1 made where "apply_default_action (description r) a i s (Some m) (view r) a = Some (a1, made)"
    "attempt_ok (description r) (approved r) a1" "attempt_evolves (nodes_count (description r)) (unat i) a a1"
    by (rule apply_default_action_total [OF assms(1-3), of s "Some m"]) (use assms(2) attempt_evolves_refl in blast)+
  then show thesis
  proof (cases m)
    case (VoteFor x y b)
    obtain vf' where "apply_vote_for_action (description r) a i s b (view r) a = Some (a\<lparr>ra_vote_for := vf'\<rparr>)"
      "attempt_ok (description r) (approved r) (a\<lparr>ra_vote_for := vf'\<rparr>)"
      by (rule apply_vote_for_action_total [OF assms(1-3)])
    with VoteFor vf show thesis
      by (intro that) (auto simp: round_attempt_apply_action_def round_attempt_apply_action_dispatch_def)
  qed (use assms(4) that in
      \<open>auto simp: round_attempt_apply_action_def round_attempt_apply_action_dispatch_def\<close>)
qed

end

subsection \<open>Merging attempts\<close>

definition attempt_join :: "round_attempt \<Rightarrow> round_attempt \<Rightarrow> round_attempt" where
  "attempt_join left right =
     \<lparr> ra_sequence_number = ra_sequence_number left,
       ra_votes = combine_options (key_merge vote_candidate_get_id vote_candidate_join)
                    (ra_votes left) (ra_votes right),
       ra_precommitted = list_join (\<or>) (ra_precommitted left) (ra_precommitted right),
       ra_vote_for = vote_for_merge (ra_vote_for left) (ra_vote_for right) \<rparr>"

interpretation attempt_order: sorting_predicate attempt_less ra_sequence_number
  by unfold_locales (simp add: attempt_less_def)

lemma attempt_merge_total:
  assumes "wf_attempt desc l" and "ra_sequence_number l = ra_sequence_number r"
  shows "round_attempt_merge l r = Some (attempt_join l r)"
proof -
  have "sorted_vector_wrapper_merge vote_candidate_less (ra_votes l) (ra_votes r) vote_candidate_merge =
    Some (combine_options (key_merge vote_candidate_get_id vote_candidate_join) (ra_votes l) (ra_votes r))"
    using wf_attemptD(1) [OF assms(1)]
    by (intro vote_order.wrapper_merge_total) (auto simp: vote_candidate_merge_total)
  with assms(2) show ?thesis
    by (simp add: round_attempt_merge_def attempt_join_def bools_join.merge_total)
qed

lemma attempt_votes_join:
  "attempt_votes (attempt_join l r) =
     key_merge vote_candidate_get_id vote_candidate_join (attempt_votes l) (attempt_votes r)"
  by (cases "ra_votes l"; cases "ra_votes r") (simp_all add: attempt_votes_def attempt_join_def)

lemma attempt_vote_join:
  assumes "wf_attempt desc l" and "wf_attempt desc r" and "i < nodes_count desc"
  shows "attempt_vote (attempt_join l r) b i \<longleftrightarrow> attempt_vote l b i \<or> attempt_vote r b i"
  unfolding attempt_vote_def attempt_votes_join
  using voted_at_join [OF wf_attemptD(2) [OF assms(1)] wf_attemptD(2) [OF assms(2)] assms(3)]
  by (intro key_merge_relation wf_attemptD(1) [OF assms(1)] wf_attemptD(1) [OF assms(2)]) auto

lemma attempt_precommit_join:
  "wf_attempt desc l \<Longrightarrow> wf_attempt desc r \<Longrightarrow> i < nodes_count desc \<Longrightarrow>
     attempt_precommit (attempt_join l r) i \<longleftrightarrow> attempt_precommit l i \<or> attempt_precommit r i"
  by (simp add: attempt_precommit_def attempt_join_def nth_list_join wf_attempt_def)

lemma wf_attempt_join:
  assumes "wf_attempt desc l" and "wf_attempt desc r"
  shows "wf_attempt desc (attempt_join l r)"
  unfolding wf_attempt_def
proof (intro conjI)
  show "key_sorted vote_candidate_get_id (attempt_votes (attempt_join l r))"
    unfolding attempt_votes_join using assms by (intro key_merge_sorted) (auto dest: wf_attemptD)
  show "\<forall>v \<in> set (attempt_votes (attempt_join l r)). wf_vote_candidate (nodes_count desc) v"
    using wf_attemptD(2) [OF assms(1)] wf_attemptD(2) [OF assms(2)]
    by (auto simp: attempt_votes_join dest!: set_key_merge)
  show "length (ra_precommitted (attempt_join l r)) = nodes_count desc"
    using assms by (simp add: wf_attempt_def attempt_join_def)
  have "attempt_voted desc (attempt_join l r) b" if "attempt_voted desc l b \<or> attempt_voted desc r b" for b
    using that assms attempt_voted_mono [of desc l b "attempt_join l r"]
      attempt_voted_mono [of desc r b "attempt_join l r"] by (auto simp: attempt_vote_join)
  then show "(\<exists>i < nodes_count desc. attempt_precommit (attempt_join l r) i) \<longrightarrow>
      (\<exists>b. attempt_voted desc (attempt_join l r) b)"
    using assms wf_attemptD(4) by (metis attempt_precommit_join)
qed

lemma vote_for_merge_SomeD: "vote_for_merge l r = Some x \<Longrightarrow> l = Some x \<or> r = Some x"
  by (auto simp: vote_for_merge_def split: option.splits if_splits)

lemma attempt_blocks_join:
  assumes "attempt_blocks P l" and "attempt_blocks P r"
  shows "attempt_blocks P (attempt_join l r)"
proof -
  have "P block" if "ra_vote_for (attempt_join l r) = Some block" for block
    using that assms vote_for_merge_SomeD [of "ra_vote_for l" "ra_vote_for r"]
    by (auto simp: attempt_join_def attempt_blocks_def)
  with assms show ?thesis
    by (auto simp: attempt_blocks_def attempt_votes_join dest!: set_key_merge)
qed

lemma attempt_join_seq [simp]: "ra_sequence_number (attempt_join l r) = ra_sequence_number l"
  by (simp add: attempt_join_def)

lemma attempt_join_idem: "wf_attempt desc a \<Longrightarrow> attempt_join a a = a"
proof -
  assume wf: "wf_attempt desc a"
  have "combine_options (key_merge vote_candidate_get_id vote_candidate_join) (ra_votes a) (ra_votes a) = ra_votes a"
    using wf_attemptD(1) [OF wf] by (cases "ra_votes a") (auto intro: key_merge_idem)
  moreover have "vote_for_merge (ra_vote_for a) (ra_vote_for a) = ra_vote_for a"
    by (simp add: vote_for_merge_def split: option.splits)
  ultimately show ?thesis by (simp add: attempt_join_def bools_join.join_idem)
qed

lemma attempt_join_commute:
  assumes "wf_attempt desc l" and "wf_attempt desc r" and "ra_sequence_number l = ra_sequence_number r"
    and votes: "\<And>v w. v \<in> set (attempt_votes l) \<Longrightarrow> w \<in> set (attempt_votes r) \<Longrightarrow>
      vote_candidate_get_id v = vote_candidate_get_id w \<Longrightarrow> vc_block v = vc_block w"
    and vote_for: "\<And>x y. ra_vote_for l = Some x \<Longrightarrow> ra_vote_for r = Some y \<Longrightarrow>
      sent_block_get_id x = sent_block_get_id y \<Longrightarrow> x = y"
  shows "attempt_join l r = attempt_join r l"
proof -
  let ?m = "key_merge vote_candidate_get_id vote_candidate_join"
  have "combine_options ?m (ra_votes l) (ra_votes r) = combine_options ?m (ra_votes r) (ra_votes l)"
  proof (cases "ra_votes l"; cases "ra_votes r")
    fix vs ws assume eq: "ra_votes l = Some vs" "ra_votes r = Some ws"
    have "?m vs ws = ?m ws vs"
      using eq wf_attemptD(1) [OF assms(1)] wf_attemptD(1) [OF assms(2)] votes
      by (intro key_merge_commute) (auto intro: vote_candidate_join_commute)
    with eq show ?thesis by simp
  qed simp_all
  moreover have "vote_for_merge (ra_vote_for l) (ra_vote_for r) = vote_for_merge (ra_vote_for r) (ra_vote_for l)"
  proof (cases "ra_vote_for l"; cases "ra_vote_for r")
    fix x y assume eq: "ra_vote_for l = Some x" "ra_vote_for r = Some y"
    then have "x = y \<or> sent_block_get_id x \<noteq> sent_block_get_id y" using vote_for by blast
    with eq show ?thesis by (auto simp: vote_for_merge_def)
  qed (simp_all add: vote_for_merge_def)
  ultimately show ?thesis
    using assms(3) bools_join.join_commute by (simp add: attempt_join_def)
qed

end
