(* ===== verification/VS_Round.thy ===== *)
theory VS_Round
  imports VS_Attempt
begin

text \<open>
  The current round of a session (\<^verbatim>\<open>validator-session/src/round.rs\<close>): the blocks sent and approved, the
  attempts with their votes and precommits, the precommitted block and the commit signatures; the
  choice of blocks to approve, to vote for and to sign; the handlers of the messages; and the merge
  of two states of the same round.

  The text dump of a round and the computation of its hash are not modelled. Vector lengths are below
  \<open>2 ^ 31\<close>, so the \<open>i32\<close> bounds of the binary search are unbounded integers here.
\<close>

subsection \<open>State\<close>

definition block_candidate_less :: "block_candidate \<Rightarrow> block_candidate \<Rightarrow> bool" where
  "block_candidate_less first second \<longleftrightarrow> block_candidate_get_id first < block_candidate_get_id second"

record round_state =
  rs_precommitted_block :: "sent_block_ptr option"
  rs_sequence_number :: u32
  rs_first_attempt :: "u32 list option"
  rs_last_precommit :: "u32 list option"
  rs_sent_blocks :: "block_candidate list option"
  rs_signatures :: "block_candidate_signature_ptr list"
  rs_attempts :: "round_attempt list option"

definition create_current_round :: "session_description \<Rightarrow> u32 \<Rightarrow> round_state" where
  "create_current_round desc sequence_number =
     \<lparr> rs_precommitted_block = None,
       rs_sequence_number = sequence_number,
       rs_first_attempt = vector_create_wrapper (replicate (unat (get_total_nodes desc)) 0),
       rs_last_precommit = vector_create_wrapper (replicate (unat (get_total_nodes desc)) 0),
       rs_sent_blocks = None,
       rs_signatures = replicate (unat (get_total_nodes desc)) None,
       rs_attempts = None \<rparr>"

subsection \<open>Blocks and approvals\<close>

definition get_first_attempt :: "round_state \<Rightarrow> u32 \<Rightarrow> u32 option" where
  "get_first_attempt self src_idx = vector_wrapper_at (rs_first_attempt self) (unat src_idx)"

definition get_candidate :: "round_state \<Rightarrow> block_id \<Rightarrow> block_candidate option" where
  "get_candidate self block_id =
     (case rs_sent_blocks self of
        None \<Rightarrow> None
      | Some candidates \<Rightarrow> List.find (\<lambda>c. block_candidate_get_id c = block_id) candidates)"

definition get_block :: "round_state \<Rightarrow> block_id \<Rightarrow> block_candidate option" where
  "get_block self block_id =
     (case rs_sent_blocks self of Some _ \<Rightarrow> get_candidate self block_id | None \<Rightarrow> None)"

definition check_block_is_sent_by :: "round_state \<Rightarrow> u32 \<Rightarrow> bool" where
  "check_block_is_sent_by self src_idx =
     (case rs_sent_blocks self of
        None \<Rightarrow> False
      | Some candidates \<Rightarrow>
          list_ex (\<lambda>c. case bc_block c of Some block \<Rightarrow> sb_source_id block = src_idx | None \<Rightarrow> False) candidates)"

definition get_block_approvers :: "session_description \<Rightarrow> round_state \<Rightarrow> block_id \<Rightarrow> u32 list option" where
  "get_block_approvers desc self block_id =
     (case get_candidate self block_id of
        None \<Rightarrow> Some []
      | Some block \<Rightarrow>
          filter_loop (block_candidate_check_block_is_approved_by block) (range_u32 (get_total_nodes desc)))"

definition get_blocks_approved_by :: "round_state \<Rightarrow> u32 \<Rightarrow> sent_block_ptr list option" where
  "get_blocks_approved_by self src_idx =
     (case rs_sent_blocks self of
        None \<Rightarrow> Some []
      | Some candidates \<Rightarrow>
          map_option (map bc_block)
            (filter_loop (\<lambda>c. block_candidate_check_block_is_approved_by c src_idx) candidates))"

definition round_check_block_is_approved_by :: "round_state \<Rightarrow> u32 \<Rightarrow> block_id \<Rightarrow> bool option" where
  "round_check_block_is_approved_by self src_idx block_id =
     (case rs_sent_blocks self of
        None \<Rightarrow> Some False
      | Some candidates \<Rightarrow>
          (case List.find (\<lambda>c. block_candidate_get_id c = block_id) candidates of
             Some c \<Rightarrow> block_candidate_check_block_is_approved_by c src_idx
           | None \<Rightarrow> Some False))"

text \<open>
  The loop of \<^verbatim>\<open>choose_blocks_to_approve\<close>: one slot per priority; a second block of the same author empties
  the slot.
\<close>

fun choose_blocks_to_approve_loop ::
  "session_description \<Rightarrow> u32 \<Rightarrow> u32 \<Rightarrow> block_candidate list \<Rightarrow> block_candidate option list \<Rightarrow> u32 list \<Rightarrow> bool
    \<Rightarrow> (block_candidate option list \<times> bool) option" where
  "choose_blocks_to_approve_loop desc seqno src_idx [] block_candidates proposal_set was_empty =
     Some (block_candidates, was_empty)"
| "choose_blocks_to_approve_loop desc seqno src_idx (c # cs) block_candidates proposal_set was_empty =
     (if bc_block c = None then
        do { was_empty' \<leftarrow> block_candidate_check_block_is_approved_by c src_idx;
             choose_blocks_to_approve_loop desc seqno src_idx cs block_candidates proposal_set was_empty' }
      else
        do { let source_index = block_candidate_get_source_index c;
             priority \<leftarrow> get_node_priority desc source_index seqno;
             rs_assert (priority \<ge> 0);
             if source_index \<in> set proposal_set then
               do { block_candidates' \<leftarrow> index_set block_candidates (nat priority) None;
                    choose_blocks_to_approve_loop desc seqno src_idx cs block_candidates' proposal_set was_empty }
             else
               do { approved \<leftarrow> block_candidate_check_block_is_approved_by c src_idx;
                    block_candidates' \<leftarrow>
                      (if \<not> approved then index_set block_candidates (nat priority) (Some c)
                       else Some block_candidates);
                    choose_blocks_to_approve_loop desc seqno src_idx cs block_candidates'
                      (source_index # proposal_set) was_empty } })"

definition choose_blocks_to_approve :: "session_description \<Rightarrow> round_state \<Rightarrow> u32 \<Rightarrow> sent_block_ptr list option" where
  "choose_blocks_to_approve desc self src_idx =
     (if rs_sent_blocks self = None then Some [None]
      else
        do { (block_candidates, was_empty) \<leftarrow>
               choose_blocks_to_approve_loop desc (rs_sequence_number self) src_idx
                 (vector_wrapper_iter (rs_sent_blocks self))
                 (replicate (unat (get_max_priority desc + 2)) None) [] False;
             let blocks = map bc_block (List.map_filter id block_candidates);
             Some (if \<not> was_empty then blocks @ [None] else blocks) })"

subsection \<open>Attempts\<close>

text \<open>The binary search of \<^verbatim>\<open>get_attempt\<close>.\<close>

function get_attempt_search :: "round_attempt list \<Rightarrow> u32 \<Rightarrow> int \<Rightarrow> int \<Rightarrow> round_attempt option option" where
  "get_attempt_search attempts attempt_id left right =
     (if right - left > 1 then
        do { current_attempt \<leftarrow> index_int attempts ((right + left) div 2);
             if ra_sequence_number current_attempt < attempt_id
             then get_attempt_search attempts attempt_id ((right + left) div 2) right
             else if ra_sequence_number current_attempt > attempt_id
             then get_attempt_search attempts attempt_id left ((right + left) div 2)
             else Some (Some current_attempt) }
      else Some None)"
  by pat_completeness auto
termination
  by (relation "measure (\<lambda>(attempts, attempt_id, left, right). nat (right - left))") auto

declare get_attempt_search.simps [simp del]

definition get_attempt :: "round_attempt list option \<Rightarrow> u32 \<Rightarrow> round_attempt option option" where
  "get_attempt attempts_opt attempt_id =
     (case attempts_opt of
        None \<Rightarrow> Some None
      | Some attempts \<Rightarrow> get_attempt_search attempts attempt_id (- 1) (int (length attempts)))"

subsection \<open>Voting\<close>

definition check_need_generate_vote_for :: "session_description \<Rightarrow> round_state \<Rightarrow> u32 \<Rightarrow> u32 \<Rightarrow> bool option" where
  "check_need_generate_vote_for desc self src_idx attempt_id =
     do { author \<leftarrow> get_vote_for_author desc attempt_id;
          if src_idx \<noteq> author then Some False
          else if rs_precommitted_block self \<noteq> None then Some False
          else
            do { first_attempt \<leftarrow> get_first_attempt self src_idx;
                 let max_attempts = max_round_attempts (sd_options desc);
                 if first_attempt = 0 \<and> max_attempts > 0 then Some False
                 else if first_attempt + max_attempts > attempt_id \<and> max_attempts > 0 then Some False
                 else
                   do { attempt \<leftarrow> get_attempt (rs_attempts self) attempt_id;
                        if (case attempt of Some a \<Rightarrow> ra_vote_for a \<noteq> None | None \<Rightarrow> False) then Some False
                        else if rs_sent_blocks self = None then Some False
                        else
                          do { block \<leftarrow> find_first (block_candidate_check_block_is_approved desc)
                                 (vector_wrapper_iter (rs_sent_blocks self));
                               Some (block \<noteq> None) } } } }"

text \<open>\<^verbatim>\<open>for attempt in attempts { if let Some(block) = attempt.get_voted_block(desc) { return Some(block); } }\<close>\<close>

fun first_voted_block :: "session_description \<Rightarrow> round_attempt list \<Rightarrow> sent_block_ptr option option" where
  "first_voted_block desc [] = Some None"
| "first_voted_block desc (attempt # attempts) =
     do { block \<leftarrow> get_voted_block desc attempt;
          (case block of Some b \<Rightarrow> Some (Some b) | None \<Rightarrow> first_voted_block desc attempts) }"

text \<open>The loop over the sent blocks that looks for the approved block of least priority.\<close>

fun choose_block_to_vote_loop ::
  "session_description \<Rightarrow> u32 \<Rightarrow> block_candidate list \<Rightarrow> i32 \<Rightarrow> sent_block_ptr option
    \<Rightarrow> (i32 \<times> sent_block_ptr option) option" where
  "choose_block_to_vote_loop desc seqno [] min_priority block = Some (min_priority, block)"
| "choose_block_to_vote_loop desc seqno (c # cs) min_priority block =
     do { approved \<leftarrow> block_candidate_check_block_is_approved desc c;
          if \<not> approved then choose_block_to_vote_loop desc seqno cs min_priority block
          else
            do { priority \<leftarrow>
                   (case bc_block c of
                      Some _ \<Rightarrow> get_node_priority desc (block_candidate_get_source_index c) seqno
                    | None \<Rightarrow> Some (as_i32 (get_max_priority desc + 1)));
                 rs_assert (priority \<ge> 0);
                 if priority < min_priority
                 then choose_block_to_vote_loop desc seqno cs priority (Some (bc_block c))
                 else choose_block_to_vote_loop desc seqno cs min_priority block } }"

definition choose_block_to_vote ::
  "session_description \<Rightarrow> round_state \<Rightarrow> u32 \<Rightarrow> u32 \<Rightarrow> sent_block_ptr option \<Rightarrow> sent_block_ptr option option" where
  "choose_block_to_vote desc self src_idx attempt_id vote_for =
     (if rs_sent_blocks self = None then Some None
      else
        do { last_precommit_attempt_id \<leftarrow> vector_wrapper_at (rs_last_precommit self) (unat src_idx);
             if last_precommit_attempt_id > 0 then
               do { attempt \<leftarrow> get_attempt (rs_attempts self) last_precommit_attempt_id;
                    attempt \<leftarrow> attempt;
                    block \<leftarrow> get_voted_block desc attempt;
                    rs_assert (block \<noteq> None);
                    Some block }
             else
               do { first_attempt_id \<leftarrow> vector_wrapper_at (rs_first_attempt self) (unat src_idx);
                    let slow_mode = (first_attempt_id > 0 \<and>
                        first_attempt_id + max_round_attempts (sd_options desc) \<le> attempt_id \<or>
                        max_round_attempts (sd_options desc) = 0);
                    if slow_mode then Some vote_for
                    else
                      do { voted \<leftarrow> first_voted_block desc (rev (vector_wrapper_iter (rs_attempts self)));
                           (case voted of
                              Some block \<Rightarrow> Some (Some block)
                            | None \<Rightarrow>
                                do { let max_priority = as_i32 (get_max_priority desc + 2);
                                     (min_priority, block) \<leftarrow>
                                       choose_block_to_vote_loop desc (rs_sequence_number self)
                                         (vector_wrapper_iter (rs_sent_blocks self)) max_priority None;
                                     if min_priority \<ge> max_priority then Some None else Some block }) } } })"

text \<open>\<^verbatim>\<open>random\<close> is the value of \<^verbatim>\<open>generate_random_usize\<close>.\<close>

definition generate_vote_for :: "session_description \<Rightarrow> round_state \<Rightarrow> nat \<Rightarrow> u32 \<Rightarrow> u32 \<Rightarrow> message option" where
  "generate_vote_for desc self random src_idx attempt_id =
     do { author \<leftarrow> get_vote_for_author desc attempt_id;
          rs_assert (src_idx = author);
          candidates \<leftarrow> filter_loop (block_candidate_check_block_is_approved desc)
                          (vector_wrapper_iter (rs_sent_blocks self));
          let candidate_block_ids = map block_candidate_get_id candidates;
          rs_assert (length candidate_block_ids > 0);
          candidate \<leftarrow> index candidate_block_ids (random mod length candidate_block_ids);
          Some (VoteFor (rs_sequence_number self) attempt_id candidate) }"

text \<open>The methods of the round that its attempts call.\<close>

definition round_view_of :: "session_description \<Rightarrow> round_state \<Rightarrow> round_view" where
  "round_view_of desc self =
     \<lparr> rv_sequence_number = rs_sequence_number self,
       rv_first_attempt = get_first_attempt self,
       rv_block = get_block self,
       rv_choose_block_to_vote = choose_block_to_vote desc self \<rparr>"

subsection \<open>Precommits, commit signatures and the next action\<close>

definition get_precommitted_block :: "round_state \<Rightarrow> sent_block_ptr option" where
  "get_precommitted_block self = rs_precommitted_block self"

definition get_last_precommit :: "round_state \<Rightarrow> u32 \<Rightarrow> u32 option" where
  "get_last_precommit self src_idx = vector_wrapper_at (rs_last_precommit self) (unat src_idx)"

definition check_block_is_signed :: "session_description \<Rightarrow> round_state \<Rightarrow> bool option" where
  "check_block_is_signed desc self =
     cutoff_reached desc (\<lambda>i. do { s \<leftarrow> vector_at (rs_signatures self) (unat i); Some (s \<noteq> None) })"

definition round_check_block_is_signed_by :: "round_state \<Rightarrow> u32 \<Rightarrow> bool option" where
  "round_check_block_is_signed_by self src_idx =
     do { s \<leftarrow> vector_at (rs_signatures self) (unat src_idx); Some (s \<noteq> None) }"

definition round_choose_block_to_sign :: "round_state \<Rightarrow> u32 \<Rightarrow> sent_block_ptr option" where
  "round_choose_block_to_sign self src_idx = rs_precommitted_block self"

definition round_create_action :: "session_description \<Rightarrow> round_state \<Rightarrow> u32 \<Rightarrow> u32 \<Rightarrow> message option" where
  "round_create_action desc self src_idx attempt_id =
     (if rs_precommitted_block self \<noteq> None then Some (Empty (rs_sequence_number self) attempt_id)
      else
        do { attempt \<leftarrow> get_attempt (rs_attempts self) attempt_id;
             (case attempt of
                Some a \<Rightarrow> round_attempt_create_action desc a (round_view_of desc self) src_idx attempt_id
              | None \<Rightarrow>
                  do { candidate \<leftarrow> choose_block_to_vote desc self src_idx attempt_id None;
                       (case candidate of
                          Some block \<Rightarrow> Some (Vote (rs_sequence_number self) attempt_id (sent_block_get_id block))
                        | None \<Rightarrow> Some (Empty (rs_sequence_number self) attempt_id)) }) })"

subsection \<open>Merging two states of a round\<close>

text \<open>
  The blocks of the latest attempts with a voted block, and their attempts: at most two, with
  different identifiers.
\<close>

record diversed =
  dv_blocks :: "sent_block_ptr list"
  dv_attempts :: "u32 list"
  dv_count :: nat

definition diversed_step ::
  "session_description \<Rightarrow> round_attempt \<Rightarrow> diversed \<Rightarrow> diversed option" where
  "diversed_step desc attempt dv =
     (if dv_count dv \<le> 1 then
        do { voted \<leftarrow> get_voted_block desc attempt;
             (case voted of
                None \<Rightarrow> Some dv
              | Some block \<Rightarrow>
                  if dv_count dv = 1 \<and> sent_block_get_id (dv_blocks dv ! 0) = sent_block_get_id block
                  then Some dv
                  else Some \<lparr> dv_blocks = (dv_blocks dv)[dv_count dv := block],
                              dv_attempts = (dv_attempts dv)[dv_count dv := ra_sequence_number attempt],
                              dv_count = dv_count dv + 1 \<rparr>) }
      else Some dv)"

fun merge_attempts_loop ::
  "session_description \<Rightarrow> round_attempt list \<Rightarrow> sent_block_ptr option \<Rightarrow> diversed
    \<Rightarrow> (sent_block_ptr option \<times> diversed) option" where
  "merge_attempts_loop desc [] precommitted_block dv = Some (precommitted_block, dv)"
| "merge_attempts_loop desc (attempt # attempts) precommitted_block dv =
     do { dv' \<leftarrow> diversed_step desc attempt dv;
          is_precommitted \<leftarrow>
            (if precommitted_block = None then check_attempt_is_precommitted desc attempt else Some False);
          precommitted_block' \<leftarrow>
            (if is_precommitted
             then do { voted \<leftarrow> get_voted_block desc attempt; rs_assert (voted \<noteq> None); Some voted }
             else Some precommitted_block);
          if precommitted_block' \<noteq> None \<and> dv_count dv' = 2 then Some (precommitted_block', dv')
          else merge_attempts_loop desc attempts precommitted_block' dv' }"

definition first_attempt_merge_fn :: "u32 \<Rightarrow> u32 \<Rightarrow> u32" where
  "first_attempt_merge_fn left right =
     (if left = 0 then right else if right = 0 then left else min left right)"

definition last_precommit_merge_fn :: "diversed \<Rightarrow> u32 \<Rightarrow> u32 \<Rightarrow> u32 option" where
  "last_precommit_merge_fn dv left right =
     (let last_precommit = max left right in
      if dv_count dv = 0 then do { rs_assert (last_precommit = 0); Some last_precommit }
      else if last_precommit > dv_attempts dv ! 1 then Some last_precommit else Some 0)"

definition round_merge :: "session_description \<Rightarrow> round_state \<Rightarrow> round_state \<Rightarrow> round_state option" where
  "round_merge desc left right =
     do { rs_assert (rs_sequence_number left = rs_sequence_number right);
          first_attempt \<leftarrow> vector_wrapper_merge_impl (rs_first_attempt left) (rs_first_attempt right) False
                             (\<lambda>l r. Some (first_attempt_merge_fn l r));
          attempts \<leftarrow> sorted_vector_wrapper_merge attempt_less (rs_attempts left) (rs_attempts right)
                        round_attempt_merge;
          (case (rs_precommitted_block left, rs_precommitted_block right) of
             (Some l, Some r) \<Rightarrow> rs_assert (sent_block_get_id l = sent_block_get_id r)
           | _ \<Rightarrow> Some ());
          precommitted_block \<leftarrow> option_merge sent_block_merge (rs_precommitted_block left) (rs_precommitted_block right);
          (precommitted_block, dv) \<leftarrow>
            merge_attempts_loop desc (rev (vector_wrapper_iter attempts)) precommitted_block
              \<lparr> dv_blocks = [None, None], dv_attempts = [0, 0], dv_count = 0 \<rparr>;
          rs_assert (dv_count dv \<ge> 1 \<longrightarrow> dv_attempts dv ! 0 > dv_attempts dv ! 1);
          last_precommit \<leftarrow> vector_wrapper_merge_impl (rs_last_precommit left) (rs_last_precommit right) True
                              (last_precommit_merge_fn dv);
          signatures \<leftarrow> signature_vector_merge (rs_signatures left) (rs_signatures right);
          sent_blocks \<leftarrow> sorted_vector_wrapper_merge block_candidate_less (rs_sent_blocks left) (rs_sent_blocks right)
                           block_candidate_merge;
          Some \<lparr> rs_precommitted_block = precommitted_block,
                 rs_sequence_number = rs_sequence_number left,
                 rs_first_attempt = first_attempt,
                 rs_last_precommit = last_precommit,
                 rs_sent_blocks = sent_blocks,
                 rs_signatures = signatures,
                 rs_attempts = attempts \<rparr> }"

subsection \<open>Applying messages\<close>

text \<open>The record updates below stand for \<^verbatim>\<open>Self::create\<close> with the remaining fields cloned.\<close>

definition apply_submitted_block_action ::
  "session_description \<Rightarrow> round_state \<Rightarrow> u32 \<Rightarrow> block_hash \<Rightarrow> block_hash \<Rightarrow> block_hash \<Rightarrow> round_state
    \<Rightarrow> round_state option" where
  "apply_submitted_block_action desc self src_idx root_hash file_hash collated_data_file_hash default_state =
     do { priority \<leftarrow> get_node_priority desc src_idx (rs_sequence_number self);
          if priority < 0 then Some default_state
          else if check_block_is_sent_by self src_idx then Some default_state
          else
            do { sent_block \<leftarrow> sent_block_create desc src_idx root_hash file_hash collated_data_file_hash;
                 new_sent_blocks \<leftarrow> sorted_vector_push block_candidate_less (rs_sent_blocks self)
                                       (block_candidate_create_unapproved desc sent_block);
                 Some (self\<lparr>rs_sent_blocks := new_sent_blocks\<rparr>) } }"

text \<open>Whether the sender already approved a block of the same author.\<close>

definition check_other_block_approved ::
  "round_state \<Rightarrow> u32 \<Rightarrow> block_candidate \<Rightarrow> bool option" where
  "check_other_block_approved self src_idx sent_block =
     do { other \<leftarrow> find_first
            (\<lambda>c. if block_candidate_get_source_index c = block_candidate_get_source_index sent_block
                 then block_candidate_check_block_is_approved_by c src_idx else Some False)
            (vector_wrapper_iter (rs_sent_blocks self));
          Some (other \<noteq> None) }"

definition apply_approved_block_action ::
  "session_description \<Rightarrow> round_state \<Rightarrow> u32 \<Rightarrow> block_id \<Rightarrow> block_signature \<Rightarrow> round_state \<Rightarrow> round_state option" where
  "apply_approved_block_action desc self src_idx candidate signature default_state =
     (let sent_block = get_block self candidate in
      if candidate \<noteq> SKIP_ROUND_CANDIDATE_BLOCKID \<and> sent_block = None then Some default_state
      else
        do { already \<leftarrow> (case sent_block of
                Some c \<Rightarrow> block_candidate_check_block_is_approved_by c src_idx | None \<Rightarrow> Some False);
             if already then Some default_state
             else
               do { other \<leftarrow>
                      (if candidate \<noteq> SKIP_ROUND_CANDIDATE_BLOCKID
                       then do { c \<leftarrow> sent_block; check_other_block_approved self src_idx c } else Some False);
                    if other then Some default_state
                    else
                      do { signature_ok \<leftarrow>
                             (if candidate \<noteq> SKIP_ROUND_CANDIDATE_BLOCKID
                              then do { c \<leftarrow> sent_block; b \<leftarrow> bc_block c;
                                        check_approve_signature desc (sb_root_hash b) (sb_file_hash b) src_idx signature }
                              else Some (length signature = 0));
                           if \<not> signature_ok then Some default_state
                           else
                             do { c \<leftarrow> (case sent_block of
                                    Some c \<Rightarrow> Some c
                                  | None \<Rightarrow> do { rs_assert (candidate = SKIP_ROUND_CANDIDATE_BLOCKID);
                                                 Some (block_candidate_create_unapproved desc None) });
                                  c' \<leftarrow> block_candidate_push c src_idx (Some signature);
                                  new_sent_blocks \<leftarrow> sorted_vector_push block_candidate_less (rs_sent_blocks self) c';
                                  Some (self\<lparr>rs_sent_blocks := new_sent_blocks\<rparr>) } } } })"

text \<open>A rejection is only logged.\<close>

definition apply_rejected_block_action ::
  "session_description \<Rightarrow> round_state \<Rightarrow> u32 \<Rightarrow> block_id \<Rightarrow> bytes \<Rightarrow> round_state \<Rightarrow> round_state option" where
  "apply_rejected_block_action desc self src_idx candidate reason default_state = Some default_state"

definition apply_committed_block_action ::
  "session_description \<Rightarrow> round_state \<Rightarrow> u32 \<Rightarrow> block_id \<Rightarrow> block_signature \<Rightarrow> round_state \<Rightarrow> round_state option" where
  "apply_committed_block_action desc self src_idx candidate signature default_state =
     (case rs_precommitted_block self of
        None \<Rightarrow> Some default_state
      | Some precommitted_block \<Rightarrow>
          if sent_block_get_id precommitted_block \<noteq> candidate then Some default_state
          else
            do { s \<leftarrow> vector_at (rs_signatures self) (unat src_idx);
                 if s \<noteq> None then Some default_state
                 else
                   do { signature_ok \<leftarrow>
                          (if candidate = SKIP_ROUND_CANDIDATE_BLOCKID then Some (length signature = 0)
                           else do { b \<leftarrow> precommitted_block;
                                     check_signature desc (sb_root_hash b) (sb_file_hash b) src_idx signature });
                        if \<not> signature_ok then Some default_state
                        else do { new_signatures \<leftarrow> vector_change (rs_signatures self) (unat src_idx) (Some signature);
                                  Some (self\<lparr>rs_signatures := new_signatures\<rparr>) } } })"

text \<open>The greatest last precommit of all validators.\<close>

definition max_last_precommit :: "u32 list option \<Rightarrow> u32" where
  "max_last_precommit last_precommit = foldl max 0 (vector_wrapper_iter last_precommit)"

text \<open>
  The closure of \<^verbatim>\<open>apply_action_on_attempt\<close> that forgets the precommits before the current attempt when
  the attempt has a voted block that differs from the one of the latest precommit.
\<close>

definition update_last_precommit ::
  "session_description \<Rightarrow> round_state \<Rightarrow> u32 \<Rightarrow> sent_block_ptr option \<Rightarrow> (bool \<times> u32 list option) option" where
  "update_last_precommit desc self attempt_id voted =
     (let max_precommit_attempt_id = max_last_precommit (rs_last_precommit self) in
      case voted of
        None \<Rightarrow> Some (False, rs_last_precommit self)
      | Some block \<Rightarrow>
          if max_precommit_attempt_id = 0 then Some (False, rs_last_precommit self)
          else
            do { attempt \<leftarrow> get_attempt (rs_attempts self) max_precommit_attempt_id;
                 attempt \<leftarrow> attempt;
                 last_precommit_voted_block \<leftarrow> get_voted_block desc attempt;
                 last_block \<leftarrow> last_precommit_voted_block;
                 if sent_block_get_id last_block = sent_block_get_id block
                 then Some (False, rs_last_precommit self)
                 else Some (True, vector_wrapper_modify (rs_last_precommit self)
                                    (\<lambda>i. if i > attempt_id then i else 0)) })"

text \<open>Record the precommit of the sender in this attempt.\<close>

definition record_last_precommit ::
  "round_attempt \<Rightarrow> u32 \<Rightarrow> u32 \<Rightarrow> u32 \<Rightarrow> sent_block_ptr option \<Rightarrow> bool \<Rightarrow> u32 list option \<Rightarrow> u32 list option option" where
  "record_last_precommit attempt src_idx attempt_id max_precommit_attempt_id voted new_voted_block_appears
     new_last_precommit =
     do { received \<leftarrow> check_precommit_received_from attempt src_idx;
          if \<not> received then Some new_last_precommit
          else
            do { last \<leftarrow> vector_wrapper_at new_last_precommit (unat src_idx);
                 if last < attempt_id \<and> (attempt_id > max_precommit_attempt_id \<or> \<not> new_voted_block_appears)
                 then do { rs_assert (voted \<noteq> None);
                           vector_wrapper_change new_last_precommit (unat src_idx) attempt_id }
                 else Some new_last_precommit } }"

text \<open>The precommitted block of the round after an attempt changed.\<close>

definition precommitted_by_attempt ::
  "session_description \<Rightarrow> round_attempt \<Rightarrow> sent_block_ptr option \<Rightarrow> sent_block_ptr option \<Rightarrow> sent_block_ptr option option" where
  "precommitted_by_attempt desc attempt voted precommitted_block =
     (if precommitted_block \<noteq> None then Some precommitted_block
      else do { is_precommitted \<leftarrow> check_attempt_is_precommitted desc attempt;
                if is_precommitted then do { rs_assert (voted \<noteq> None); Some voted }
                else Some precommitted_block })"

definition apply_action_on_attempt ::
  "session_description \<Rightarrow> round_state \<Rightarrow> u32 \<Rightarrow> u32 \<Rightarrow> message \<Rightarrow> round_state \<Rightarrow> round_state option" where
  "apply_action_on_attempt desc self src_idx attempt_id message default_state =
     (if rs_precommitted_block self \<noteq> None then Some default_state
      else
        do { found \<leftarrow> get_attempt (rs_attempts self) attempt_id;
             let attempt = (case found of Some a \<Rightarrow> a | None \<Rightarrow> round_attempt_create_empty desc attempt_id);
             had_voted_block \<leftarrow> get_voted_block desc attempt;
             attempt \<leftarrow> round_attempt_apply_action desc attempt src_idx attempt_id message (round_view_of desc self);
             voted \<leftarrow> get_voted_block desc attempt;
             new_precommitted_block \<leftarrow> precommitted_by_attempt desc attempt voted (rs_precommitted_block self);
             (new_voted_block_appears, new_last_precommit) \<leftarrow> update_last_precommit desc self attempt_id voted;
             new_last_precommit \<leftarrow>
               record_last_precommit attempt src_idx attempt_id (max_last_precommit (rs_last_precommit self)) voted
                 new_voted_block_appears new_last_precommit;
             new_attempts \<leftarrow> sorted_vector_push attempt_less (rs_attempts self) attempt;
             Some (self\<lparr>rs_precommitted_block := new_precommitted_block,
                        rs_last_precommit := new_last_precommit, rs_attempts := new_attempts\<rparr>) })"

text \<open>The first attempt in which a validator took part in the round.\<close>

definition update_first_attempt :: "round_state \<Rightarrow> u32 \<Rightarrow> u32 \<Rightarrow> (round_state \<times> bool) option" where
  "update_first_attempt self src_idx attempt_id =
     do { first \<leftarrow> vector_wrapper_at (rs_first_attempt self) (unat src_idx);
          if first = 0 \<or> first > attempt_id then
            do { first_attempt \<leftarrow> vector_wrapper_change (rs_first_attempt self) (unat src_idx) attempt_id;
                 Some (self\<lparr>rs_first_attempt := first_attempt\<rparr>, True) }
          else Some (self, False) }"

definition round_apply_action_dispatch ::
  "session_description \<Rightarrow> round_state \<Rightarrow> u32 \<Rightarrow> u32 \<Rightarrow> message \<Rightarrow> round_state option" where
  "round_apply_action_dispatch desc self src_idx attempt_id message =
     do { (state, _) \<leftarrow> update_first_attempt self src_idx attempt_id;
          (case message of
             SubmittedBlock _ root_hash file_hash collated_data_file_hash \<Rightarrow>
               apply_submitted_block_action desc state src_idx root_hash file_hash collated_data_file_hash state
           | ApprovedBlock _ candidate signature \<Rightarrow>
               apply_approved_block_action desc state src_idx candidate signature state
           | RejectedBlock _ candidate reason \<Rightarrow>
               apply_rejected_block_action desc state src_idx candidate reason state
           | Commit _ candidate signature \<Rightarrow>
               apply_committed_block_action desc state src_idx candidate signature state
           | _ \<Rightarrow> apply_action_on_attempt desc state src_idx attempt_id message state) }"

definition round_apply_action ::
  "session_description \<Rightarrow> round_state \<Rightarrow> u32 \<Rightarrow> u32 \<Rightarrow> message \<Rightarrow> round_state option" where
  "round_apply_action desc self src_idx attempt_id message =
     round_apply_action_dispatch desc self src_idx attempt_id message"

subsection \<open>Implicit actions\<close>

definition round_make_one ::
  "session_description \<Rightarrow> round_state \<Rightarrow> u32 \<Rightarrow> u32 \<Rightarrow> (round_state \<times> bool) option" where
  "round_make_one desc self src_idx attempt_id =
     do { (state, made_changes) \<leftarrow> update_first_attempt self src_idx attempt_id;
          if rs_precommitted_block state \<noteq> None then Some (state, made_changes)
          else
            do { found \<leftarrow> get_attempt (rs_attempts state) attempt_id;
                 let attempt = (case found of Some a \<Rightarrow> a | None \<Rightarrow> round_attempt_create_empty desc attempt_id);
                 (attempt, attempt_made_changes) \<leftarrow>
                   round_attempt_make_one desc attempt src_idx attempt_id (round_view_of desc state);
                 if \<not> attempt_made_changes then Some (state, made_changes)
                 else do { attempts \<leftarrow> sorted_vector_push attempt_less (rs_attempts state) attempt;
                           Some (state\<lparr>rs_attempts := attempts\<rparr>, True) } } }"

end
