(* ===== verification/VS_Round_Invariant.thy ===== *)
theory VS_Round_Invariant
  imports VS_Round
begin

text \<open>
  The invariant of the current round and its preservation by every message.

  A round is read as four relations: who approved which block (\<open>round_approval\<close>), who voted for which
  block in which attempt (\<open>round_vote\<close>), who precommitted in which attempt (\<open>round_precommit\<close>) and who signed
  (\<open>round_signed\<close>). \<open>round_evolves\<close> says what one validator can do to them, \<open>wf_round\<close> what always holds
  of them. The lemmas \<open>apply_\<dots>_total\<close> show for each handler that it does not panic, keeps the invariant
  and lets the round evolve.
\<close>

interpretation block_order: sorting_predicate block_candidate_less block_candidate_get_id
  by unfold_locales (simp add: block_candidate_less_def)

subsection \<open>Looking up attempts and candidates\<close>

lemma get_attempt_search_total:
  assumes sorted: "key_sorted ra_sequence_number attempts"
    and "- 1 \<le> left" "left < right" "right \<le> int (length attempts)"
    and "0 \<le> left \<Longrightarrow> ra_sequence_number (attempts ! nat left) < s"
    and "right < int (length attempts) \<Longrightarrow> s < ra_sequence_number (attempts ! nat right)"
  shows "get_attempt_search attempts s left right = Some (key_map ra_sequence_number attempts s)"
  using assms(2-)
proof (induction "nat (right - left)" arbitrary: left right rule: less_induct)
  case less
  show ?case
  proof (cases "right - left > 1")
    case True
    define m where "m = (right + left) div 2"
    have m: "left < m" "m < right" "0 \<le> m" "nat m < length attempts"
      using True less.prems by (auto simp: m_def)
    let ?k = "ra_sequence_number (attempts ! nat m)"
    have step: "get_attempt_search attempts s left right =
      (if ?k < s then get_attempt_search attempts s m right
       else if s < ?k then get_attempt_search attempts s left m else Some (Some (attempts ! nat m)))"
      using True m by (subst get_attempt_search.simps) (simp add: m_def [symmetric] index_int_def)
    consider "?k < s" | "s < ?k" | "?k = s" by force
    then show ?thesis
    proof cases
      case 1
      with m less.prems less.hyps [of right m] step show ?thesis by simp
    next
      case 2
      then have "\<not> ?k < s" by auto
      with 2 m less.prems less.hyps [of m left] step show ?thesis by simp
    next
      case 3
      with m have "key_map ra_sequence_number attempts s = Some (attempts ! nat m)"
        using key_map_member [OF sorted, of "attempts ! nat m"] by simp
      with 3 step show ?thesis by simp
    qed
  next
    case False
    with less.prems have l: "left = right - 1" "0 \<le> right" by auto
    have "\<forall>x \<in> set (take (nat right) attempts). ra_sequence_number x < s"
      using l less.prems by (intro key_sorted_take_less [OF sorted]) (auto simp: nat_diff_distrib)
    moreover have "\<forall>x \<in> set (drop (nat right) attempts). s < ra_sequence_number x"
      using l less.prems by (intro key_sorted_drop_less [OF sorted]) auto
    ultimately have "\<forall>x \<in> set (take (nat right) attempts @ drop (nat right) attempts). ra_sequence_number x \<noteq> s"
      unfolding set_append by auto
    then have "key_map ra_sequence_number attempts s = None" by (auto simp: key_map_None_iff)
    with False show ?thesis by (subst get_attempt_search.simps) simp
  qed
qed

definition round_attempts :: "round_state \<Rightarrow> round_attempt list" where
  "round_attempts r = vector_wrapper_iter (rs_attempts r)"

definition round_blocks :: "round_state \<Rightarrow> block_candidate list" where
  "round_blocks r = vector_wrapper_iter (rs_sent_blocks r)"

lemma get_attempt_total:
  assumes "key_sorted ra_sequence_number (vector_wrapper_iter attempts)"
  shows "get_attempt attempts s = Some (key_map ra_sequence_number (vector_wrapper_iter attempts) s)"
proof (cases attempts)
  case (Some as)
  with assms get_attempt_search_total [of as "- 1" "int (length as)" s] show ?thesis
    by (simp add: get_attempt_def)
qed (simp add: get_attempt_def)

lemma find_key_map: "List.find (\<lambda>c. key c = k) xs = key_map key xs k"
  by (induction xs) auto

lemma get_candidate_eq: "get_candidate r b = key_map block_candidate_get_id (round_blocks r) b"
  by (simp add: get_candidate_def round_blocks_def find_key_map split: option.splits)

lemma get_block_eq: "get_block r b = key_map block_candidate_get_id (round_blocks r) b"
  by (simp add: get_block_def get_candidate_eq round_blocks_def split: option.splits)

lemma blocks_push_total:
  "key_sorted block_candidate_get_id (vector_wrapper_iter bs) \<Longrightarrow>
     sorted_vector_push block_candidate_less bs c =
       Some (Some (key_insert block_candidate_get_id c (vector_wrapper_iter bs)))"
  by (cases bs) (simp_all add: block_order.push_None_total block_order.push_total)

lemma attempts_push_total:
  "key_sorted ra_sequence_number (vector_wrapper_iter as) \<Longrightarrow>
     sorted_vector_push attempt_less as a =
       Some (Some (key_insert ra_sequence_number a (vector_wrapper_iter as)))"
  by (cases as) (simp_all add: attempt_order.push_None_total attempt_order.push_total)

subsection \<open>Approvals, votes and precommits of a round\<close>

definition round_approval :: "round_state \<Rightarrow> block_id \<Rightarrow> nat \<Rightarrow> bool" where
  "round_approval r b i \<longleftrightarrow> (\<exists>c \<in> set (round_blocks r). block_candidate_get_id c = b \<and> approved_at c i)"

definition round_approved :: "session_description \<Rightarrow> round_state \<Rightarrow> block_id \<Rightarrow> bool" where
  "round_approved desc r b \<longleftrightarrow> cutoff_of desc \<le> weight_of desc (round_approval r b)"

definition round_vote :: "round_state \<Rightarrow> u32 \<Rightarrow> block_id \<Rightarrow> nat \<Rightarrow> bool" where
  "round_vote r s b i \<longleftrightarrow> (\<exists>a \<in> set (round_attempts r). ra_sequence_number a = s \<and> attempt_vote a b i)"

definition round_precommit :: "round_state \<Rightarrow> u32 \<Rightarrow> nat \<Rightarrow> bool" where
  "round_precommit r s i \<longleftrightarrow> (\<exists>a \<in> set (round_attempts r). ra_sequence_number a = s \<and> attempt_precommit a i)"

definition round_signed :: "round_state \<Rightarrow> nat \<Rightarrow> bool" where
  "round_signed r i \<longleftrightarrow> rs_signatures r ! i \<noteq> None"

definition round_voted :: "session_description \<Rightarrow> round_state \<Rightarrow> u32 \<Rightarrow> block_id \<Rightarrow> bool" where
  "round_voted desc r s b \<longleftrightarrow> cutoff_of desc \<le> weight_of desc (round_vote r s b)"

definition round_precommitted :: "session_description \<Rightarrow> round_state \<Rightarrow> u32 \<Rightarrow> bool" where
  "round_precommitted desc r s \<longleftrightarrow> cutoff_of desc \<le> weight_of desc (round_precommit r s)"

text \<open>A block a round may vote for: it was submitted, and enough validators approved it.\<close>

definition round_approved_block :: "session_description \<Rightarrow> submission set \<Rightarrow> round_state \<Rightarrow> sent_block_ptr \<Rightarrow> bool" where
  "round_approved_block desc B r block \<longleftrightarrow> known_block desc B block \<and> round_approved desc r (sent_block_get_id block)"

definition proposer_ok :: "session_description \<Rightarrow> u32 \<Rightarrow> sent_block_ptr \<Rightarrow> bool" where
  "proposer_ok desc seqno block \<longleftrightarrow>
     (case block of None \<Rightarrow> True
      | Some b \<Rightarrow> (case get_node_priority desc (sb_source_id b) seqno of Some p \<Rightarrow> 0 \<le> p | None \<Rightarrow> False))"

text \<open>The invariant of a round, relative to a set of submitted blocks.\<close>

definition wf_round_vectors :: "session_description \<Rightarrow> round_state \<Rightarrow> bool" where
  "wf_round_vectors desc r \<longleftrightarrow>
     (\<exists>fa. rs_first_attempt r = Some fa \<and> length fa = nodes_count desc) \<and>
     (\<exists>lp. rs_last_precommit r = Some lp \<and> length lp = nodes_count desc) \<and>
     length (rs_signatures r) = nodes_count desc"

definition wf_round_blocks :: "session_description \<Rightarrow> submission set \<Rightarrow> round_state \<Rightarrow> bool" where
  "wf_round_blocks desc B r \<longleftrightarrow>
     key_sorted block_candidate_get_id (round_blocks r) \<and>
     (\<forall>c \<in> set (round_blocks r). wf_block_candidate (nodes_count desc) c \<and> known_block desc B (bc_block c) \<and>
        proposer_ok desc (rs_sequence_number r) (bc_block c))"

definition wf_round_attempts :: "session_description \<Rightarrow> submission set \<Rightarrow> round_state \<Rightarrow> bool" where
  "wf_round_attempts desc B r \<longleftrightarrow>
     key_sorted ra_sequence_number (round_attempts r) \<and>
     (\<forall>a \<in> set (round_attempts r). ra_sequence_number a \<noteq> 0 \<and> attempt_ok desc (round_approved_block desc B r) a)"

definition wf_round_decisions :: "session_description \<Rightarrow> submission set \<Rightarrow> round_state \<Rightarrow> bool" where
  "wf_round_decisions desc B r \<longleftrightarrow>
     (\<forall>s \<in> set (vector_wrapper_iter (rs_last_precommit r)). s \<noteq> 0 \<longrightarrow> (\<exists>b. round_voted desc r s b)) \<and>
     (\<forall>block. rs_precommitted_block r = Some block \<longrightarrow> known_block desc B block \<and>
        (\<exists>s. round_precommitted desc r s \<and> round_voted desc r s (sent_block_get_id block))) \<and>
     ((\<exists>i < nodes_count desc. round_signed r i) \<longrightarrow> rs_precommitted_block r \<noteq> None)"

definition wf_round :: "session_description \<Rightarrow> submission set \<Rightarrow> round_state \<Rightarrow> bool" where
  "wf_round desc B r \<longleftrightarrow> wf_round_vectors desc r \<and> wf_round_blocks desc B r \<and>
     wf_round_attempts desc B r \<and> wf_round_decisions desc B r"

lemma wf_roundD:
  assumes "wf_round desc B r"
  shows "wf_round_vectors desc r" "wf_round_blocks desc B r" "wf_round_attempts desc B r" "wf_round_decisions desc B r"
  using assms by (auto simp: wf_round_def)

lemma wf_round_decisionsD:
  assumes "wf_round_decisions desc B r"
  shows "s \<in> set (vector_wrapper_iter (rs_last_precommit r)) \<Longrightarrow> s \<noteq> 0 \<Longrightarrow> \<exists>b. round_voted desc r s b"
    and "rs_precommitted_block r = Some block \<Longrightarrow> known_block desc B block"
    and "rs_precommitted_block r = Some block \<Longrightarrow>
      \<exists>s. round_precommitted desc r s \<and> round_voted desc r s (sent_block_get_id block)"
    and "i < nodes_count desc \<Longrightarrow> round_signed r i \<Longrightarrow> rs_precommitted_block r \<noteq> None"
  using assms unfolding wf_round_decisions_def by blast+

lemma round_approval_of_candidate:
  assumes "wf_round_blocks desc B r" and "c \<in> set (round_blocks r)"
  shows "round_approval r (block_candidate_get_id c) = approved_at c"
  using assms key_sorted_inj [of block_candidate_get_id "round_blocks r" _ c]
  by (auto simp: round_approval_def wf_round_blocks_def fun_eq_iff)

lemma round_vote_of_attempt:
  assumes "wf_round_attempts desc B r" and "a \<in> set (round_attempts r)"
  shows "round_vote r (ra_sequence_number a) = attempt_vote a"
    and "round_precommit r (ra_sequence_number a) = attempt_precommit a"
    and "round_voted desc r (ra_sequence_number a) = attempt_voted desc a"
    and "round_precommitted desc r (ra_sequence_number a) = attempt_precommitted desc a"
proof -
  show "round_vote r (ra_sequence_number a) = attempt_vote a"
    and "round_precommit r (ra_sequence_number a) = attempt_precommit a"
    using assms key_sorted_inj [of ra_sequence_number "round_attempts r" _ a]
    by (auto simp: round_vote_def round_precommit_def wf_round_attempts_def fun_eq_iff)
  then show "round_voted desc r (ra_sequence_number a) = attempt_voted desc a"
    and "round_precommitted desc r (ra_sequence_number a) = attempt_precommitted desc a"
    by (simp_all add: round_voted_def [abs_def] attempt_voted_def [abs_def] round_precommitted_def
        attempt_precommitted_def)
qed

lemma round_voted_attempt:
  assumes "wf_desc desc" and "round_voted desc r s b"
  shows "\<exists>a \<in> set (round_attempts r). ra_sequence_number a = s"
  using vp.quorum_member [OF assms(1), of "round_vote r s b"] assms(2) by (auto simp: round_voted_def round_vote_def)

lemma wf_round_attemptD:
  assumes "wf_round_attempts desc B r" and "a \<in> set (round_attempts r)"
  shows "wf_attempt desc a" "attempt_blocks (round_approved_block desc B r) a" "ra_sequence_number a \<noteq> 0"
  using assms by (auto simp: wf_round_attempts_def attempt_ok_def)

lemma round_approved_iff:
  assumes "wf_desc desc" and "wf_round_blocks desc B r"
  shows "round_approved desc r b \<longleftrightarrow>
    (\<exists>c \<in> set (round_blocks r). block_candidate_get_id c = b \<and> cutoff_of desc \<le> weight_of desc (approved_at c))"
proof
  assume approved: "round_approved desc r b"
  then obtain i where "round_approval r b i"
    using vp.quorum_member [OF assms(1), of "round_approval r b"] by (auto simp: round_approved_def)
  then obtain c where "c \<in> set (round_blocks r)" "block_candidate_get_id c = b"
    by (auto simp: round_approval_def)
  with approved round_approval_of_candidate [OF assms(2)]
  show "\<exists>c \<in> set (round_blocks r). block_candidate_get_id c = b \<and> cutoff_of desc \<le> weight_of desc (approved_at c)"
    by (auto simp: round_approved_def)
qed (auto simp: round_approved_def round_approval_of_candidate [OF assms(2)])

subsection \<open>Choosing a block to vote for\<close>

lemma voted_block_approved:
  assumes "wf_desc desc" and "wf_round_attempts desc B r" and "a \<in> set (round_attempts r)"
    and "voted_block desc a = Some block"
  shows "round_approved_block desc B r block"
  using voted_block_SomeD(2) [OF assms(1) wf_round_attemptD(1) [OF assms(2,3)] assms(4)]
    wf_round_attemptD(2) [OF assms(2,3)]
  by (auto simp: attempt_blocks_def)

lemma first_voted_block_total:
  assumes "wf_desc desc" and "\<forall>a \<in> set as. wf_attempt desc a"
  shows "first_voted_block desc as = Some (map_option (\<lambda>a. the (voted_block desc a)) (List.find (\<lambda>a. voted_block desc a \<noteq> None) as))"
  using assms(2) by (induction as) (auto simp: get_voted_block_total [OF assms(1)] split: option.splits)

text \<open>The priority of a candidate: that of its author, and after all authors for the empty block.\<close>

definition candidate_priority :: "session_description \<Rightarrow> u32 \<Rightarrow> block_candidate \<Rightarrow> int" where
  "candidate_priority desc seqno c =
     (case bc_block c of
        Some b \<Rightarrow> the (get_node_priority desc (sb_source_id b) seqno)
      | None \<Rightarrow> int (unat (round_candidates (sd_options desc))))"

lemma max_priority_plus:
  assumes "wf_desc desc"
  shows "as_i32 (get_max_priority desc + 1) = int (unat (round_candidates (sd_options desc)))"
    and "as_i32 (get_max_priority desc + 2) = int (unat (round_candidates (sd_options desc))) + 1"
    and "unat (get_max_priority desc + 2) = unat (round_candidates (sd_options desc)) + 1"
proof -
  let ?rc = "round_candidates (sd_options desc)"
  have bound: "unat ?rc + 1 < 2 ^ 31" using assms by (simp add: wf_desc_def)
  then have one: "unat (?rc + 1) = unat ?rc + 1" by (subst unat_add_u32) auto
  have eq: "get_max_priority desc + 1 = ?rc" "get_max_priority desc + 2 = ?rc + 1"
    by (simp_all add: get_max_priority_def)
  show "as_i32 (get_max_priority desc + 1) = int (unat ?rc)"
    unfolding eq as_i32_def using bound by (intro sint_small_u32) simp
  show "as_i32 (get_max_priority desc + 2) = int (unat ?rc) + 1"
    unfolding eq as_i32_def using bound sint_small_u32 [of "?rc + 1"] one by simp
  show "unat (get_max_priority desc + 2) = unat ?rc + 1"
    unfolding eq by (rule one)
qed

lemma node_priority_range:
  assumes "wf_desc desc" and "unat i < nodes_count desc"
  obtains p where "get_node_priority desc i s = Some p" "- 1 \<le> p" "p < int (unat (round_candidates (sd_options desc)))"
proof -
  define d where "d = (unat i + nodes_count desc - unat s mod nodes_count desc) mod nodes_count desc"
  define k where "k = unat (round_candidates (sd_options desc))"
  have "get_node_priority desc i s = Some (if d < k then int d else - 1)"
    using node_priority_eq [OF assms, of s] by (simp add: d_def k_def Let_def)
  then show thesis
    by (rule that) (auto simp flip: k_def)
qed

lemma candidate_priority_range:
  assumes "wf_desc desc" and "known_block desc B (bc_block c)" and "proposer_ok desc s (bc_block c)"
  shows "0 \<le> candidate_priority desc s c"
    and "candidate_priority desc s c < as_i32 (get_max_priority desc + 2)"
    and "(case bc_block c of Some _ \<Rightarrow> get_node_priority desc (block_candidate_get_source_index c) s
          | None \<Rightarrow> Some (as_i32 (get_max_priority desc + 1))) = Some (candidate_priority desc s c)"
proof -
  show "0 \<le> candidate_priority desc s c"
    "(case bc_block c of Some _ \<Rightarrow> get_node_priority desc (block_candidate_get_source_index c) s
          | None \<Rightarrow> Some (as_i32 (get_max_priority desc + 1))) = Some (candidate_priority desc s c)"
    using assms by (auto simp: candidate_priority_def proposer_ok_def max_priority_plus
        block_candidate_get_source_index_def split: option.splits)
  show "candidate_priority desc s c < as_i32 (get_max_priority desc + 2)"
  proof (cases "bc_block c")
    case (Some b)
    with assms(2) have "unat (sb_source_id b) < nodes_count desc" by (simp add: known_block_source)
    then obtain p where "get_node_priority desc (sb_source_id b) s = Some p" "p < int (unat (round_candidates (sd_options desc)))"
      by (rule node_priority_range [OF assms(1)])
    with Some show ?thesis by (simp add: candidate_priority_def max_priority_plus [OF assms(1)])
  qed (simp add: candidate_priority_def max_priority_plus [OF assms(1)])
qed

abbreviation candidate_approved :: "session_description \<Rightarrow> block_candidate \<Rightarrow> bool" where
  "candidate_approved desc c \<equiv> cutoff_of desc \<le> weight_of desc (approved_at c)"

lemma choose_block_to_vote_loop_total:
  assumes "wf_desc desc"
    and "\<forall>c \<in> set cs. wf_block_candidate (nodes_count desc) c \<and> known_block desc B (bc_block c) \<and>
           proposer_ok desc s (bc_block c)"
  shows "\<exists>m' block'. choose_block_to_vote_loop desc s cs m block = Some (m', block') \<and> m' \<le> m \<and>
    (\<forall>c \<in> set cs. candidate_approved desc c \<longrightarrow> m' \<le> candidate_priority desc s c) \<and>
    (m' = m \<and> block' = block \<or>
     (\<exists>c \<in> set cs. candidate_approved desc c \<and> block' = Some (bc_block c) \<and> m' = candidate_priority desc s c))"
  using assms(2)
proof (induction cs arbitrary: m block)
  case (Cons c cs)
  have c: "wf_block_candidate (nodes_count desc) c" "known_block desc B (bc_block c)" "proposer_ok desc s (bc_block c)"
    using Cons.prems by auto
  let ?m = "if candidate_approved desc c \<and> candidate_priority desc s c < m then candidate_priority desc s c else m"
  let ?b = "if candidate_approved desc c \<and> candidate_priority desc s c < m then Some (bc_block c) else block"
  have "choose_block_to_vote_loop desc s (c # cs) m block = choose_block_to_vote_loop desc s cs ?m ?b"
    using candidate_priority_range [OF assms(1) c(2,3)]
    by (simp add: is_approved_total [OF assms(1) c(1)])
  moreover obtain m' block' where "choose_block_to_vote_loop desc s cs ?m ?b = Some (m', block')" "m' \<le> ?m"
    "\<forall>c \<in> set cs. candidate_approved desc c \<longrightarrow> m' \<le> candidate_priority desc s c"
    "m' = ?m \<and> block' = ?b \<or>
     (\<exists>c \<in> set cs. candidate_approved desc c \<and> block' = Some (bc_block c) \<and> m' = candidate_priority desc s c)"
    using Cons.IH [of ?m ?b] Cons.prems by auto
  ultimately show ?case by (auto split: if_splits)
qed simp

lemma last_precommit_voted:
  assumes "wf_desc desc" and "wf_round_attempts desc B r" and "round_voted desc r s b"
  obtains a block where "get_attempt (rs_attempts r) s = Some (Some a)" "a \<in> set (round_attempts r)"
    "ra_sequence_number a = s" "get_voted_block desc a = Some (Some block)" "voted_block desc a = Some block"
proof -
  obtain a where a: "a \<in> set (round_attempts r)" "ra_sequence_number a = s"
    using round_voted_attempt [OF assms(1,3)] by auto
  have sorted: "key_sorted ra_sequence_number (round_attempts r)"
    using assms(2) by (simp add: wf_round_attempts_def)
  have "attempt_voted desc a b"
    using assms(3) round_vote_of_attempt(3) [OF assms(2) a(1)] a(2) by simp
  then obtain block where "voted_block desc a = Some block"
    using voted_block_None_iff [OF assms(1) wf_round_attemptD(1) [OF assms(2) a(1)]] by (cases "voted_block desc a") auto
  moreover have "get_attempt (rs_attempts r) s = Some (Some a)"
    using get_attempt_total [of "rs_attempts r" s] sorted key_map_member [OF sorted a(1)] a(2)
    by (simp add: round_attempts_def)
  ultimately show thesis
    using a get_voted_block_total [OF assms(1) wf_round_attemptD(1) [OF assms(2) a(1)]] by (intro that) auto
qed

lemma wf_round_vectorsD:
  assumes "wf_round_vectors desc r" and "unat i < nodes_count desc"
  shows "vector_wrapper_at (rs_first_attempt r) (unat i) = Some (vector_wrapper_iter (rs_first_attempt r) ! unat i)"
    and "vector_wrapper_at (rs_last_precommit r) (unat i) = Some (vector_wrapper_iter (rs_last_precommit r) ! unat i)"
    and "vector_wrapper_iter (rs_last_precommit r) ! unat i \<in> set (vector_wrapper_iter (rs_last_precommit r))"
    and "vector_at (rs_signatures r) (unat i) = Some (rs_signatures r ! unat i)"
  using assms by (auto simp: wf_round_vectors_def)

lemma wf_round_last_precommit:
  assumes "wf_round desc B r" and "unat i < nodes_count desc" and "vector_wrapper_iter (rs_last_precommit r) ! unat i = s" and "s \<noteq> 0"
  obtains b where "round_voted desc r s b"
  using assms wf_round_vectorsD(3) [OF wf_roundD(1) [OF assms(1)] assms(2)]
  by (auto simp: wf_round_def wf_round_decisions_def)

lemma first_voted_block_approved:
  assumes "wf_desc desc" and "wf_round_attempts desc B r"
  obtains c where "first_voted_block desc (rev (round_attempts r)) = Some c"
    "\<And>block. c = Some block \<Longrightarrow> round_approved_block desc B r block"
proof -
  have "first_voted_block desc (rev (round_attempts r)) = Some (map_option (\<lambda>a. the (voted_block desc a))
      (List.find (\<lambda>a. voted_block desc a \<noteq> None) (rev (round_attempts r))))"
    using assms wf_round_attemptD(1) [OF assms(2)] by (intro first_voted_block_total) auto
  then show thesis
  proof (rule that)
    fix block
    assume "map_option (\<lambda>a. the (voted_block desc a)) (List.find (\<lambda>a. voted_block desc a \<noteq> None)
      (rev (round_attempts r))) = Some block"
    then obtain a where "a \<in> set (round_attempts r)" "voted_block desc a = Some block"
      by (auto dest!: find_SomeD)
    then show "round_approved_block desc B r block" by (rule voted_block_approved [OF assms])
  qed
qed

lemma approved_candidate_block:
  assumes "wf_desc desc" and "wf_round_blocks desc B r" and "c \<in> set (round_blocks r)" and "candidate_approved desc c"
  shows "round_approved_block desc B r (bc_block c)"
  using assms round_approved_iff [OF assms(1,2)]
  by (auto simp: round_approved_block_def wf_round_blocks_def simp flip: block_candidate_get_id_eq)

lemma choose_block_to_vote_total:
  assumes "wf_desc desc" and "wf_round desc B r" and "unat i < nodes_count desc"
    and vote_for: "\<And>block. vote_for = Some block \<Longrightarrow> round_approved_block desc B r block"
  shows "\<exists>c. choose_block_to_vote desc r i s vote_for = Some c \<and>
    (\<forall>block. c = Some block \<longrightarrow> round_approved_block desc B r block)"
proof -
  note wf = wf_roundD [OF assms(2)] and vectors = wf_round_vectorsD [OF wf_roundD(1) [OF assms(2)] assms(3)]
  let ?lp = "vector_wrapper_iter (rs_last_precommit r) ! unat i"
  let ?cs = "vector_wrapper_iter (rs_sent_blocks r)"
  obtain v where v: "first_voted_block desc (rev (vector_wrapper_iter (rs_attempts r))) = Some v"
    "\<And>block. v = Some block \<Longrightarrow> round_approved_block desc B r block"
    using first_voted_block_approved [OF assms(1) wf(3)] unfolding round_attempts_def by blast
  have cs: "\<forall>c \<in> set ?cs. wf_block_candidate (nodes_count desc) c \<and> known_block desc B (bc_block c) \<and>
      proposer_ok desc (rs_sequence_number r) (bc_block c)"
    using wf(2) by (simp add: wf_round_blocks_def round_blocks_def)
  obtain m block where loop: "choose_block_to_vote_loop desc (rs_sequence_number r) ?cs
      (as_i32 (get_max_priority desc + 2)) None = Some (m, block)"
    "block = None \<or> (\<exists>c \<in> set ?cs. candidate_approved desc c \<and> block = Some (bc_block c))"
    using choose_block_to_vote_loop_total [OF assms(1) cs, of "as_i32 (get_max_priority desc + 2)" None]
    by (elim exE conjE disjE) blast+
  have approved: "round_approved_block desc B r b" if "block = Some b" for b
    using that loop(2) approved_candidate_block [OF assms(1) wf(2)] by (auto simp: round_blocks_def)
  show ?thesis
  proof (cases "rs_sent_blocks r = None \<or> ?lp = 0")
    case True
    have "?lp = 0 \<Longrightarrow> \<not> ?lp > 0" by simp
    with True vectors v loop(1) approved vote_for show ?thesis
      by (auto simp: choose_block_to_vote_def Let_def split: option.splits)
  next
    case False
    then have pos: "?lp > 0" using word_neq_0_conv by blast
    obtain b where "round_voted desc r ?lp b"
      using wf_round_last_precommit [OF assms(2,3) refl] False by blast
    then obtain a block' where "get_attempt (rs_attempts r) ?lp = Some (Some a)" "a \<in> set (round_attempts r)"
      "get_voted_block desc a = Some (Some block')" "voted_block desc a = Some block'"
      using last_precommit_voted [OF assms(1) wf(3)] by metis
    with False pos vectors voted_block_approved [OF assms(1) wf(3)] show ?thesis
      by (auto simp: choose_block_to_vote_def)
  qed
qed

subsection \<open>The round provides what its attempts rely on\<close>

interpretation round_calls: round_interface
  "\<lambda>(desc, B, r). round_view_of desc r" "\<lambda>(desc, B, r). desc"
  "\<lambda>(desc, B, r). wf_desc desc \<and> wf_round desc B r" "\<lambda>(desc, B, r). round_approved_block desc B r"
proof (unfold_locales, goal_cases)
  case (1 r)
  then show ?case by auto
next
  case (2 r i)
  then show ?case
    by (auto simp: round_view_of_def get_first_attempt_def wf_round_vectorsD [OF wf_roundD(1)])
next
  case (3 r b bc)
  obtain desc B rs where r: "r = (desc, B, rs)" by (metis prod_cases3)
  with 3 have bc: "bc \<in> set (round_blocks rs)" "block_candidate_get_id bc = b" and wf: "wf_desc desc" "wf_round desc B rs"
    by (auto simp: round_view_of_def get_block_eq dest: key_map_SomeD)
  with approved_candidate_block [OF wf(1) wf_roundD(2) [OF wf(2)] bc(1)] wf_roundD(2) [OF wf(2)] r
  show ?case by (auto simp: wf_round_blocks_def)
next
  case (4 r i vote_for attempt)
  obtain desc B rs where r: "r = (desc, B, rs)" by (metis prod_cases3)
  with 4 show ?case
    using choose_block_to_vote_total [of desc B rs i vote_for attempt] by (auto simp: round_view_of_def)
qed

subsection \<open>How a round evolves\<close>

text \<open>
  What a step of one validator does to a round: approvals, votes, precommits and signatures are only
  added, only in the name of that validator, and at most one vote in an attempt in which it had none.
\<close>

definition round_evolves :: "nat \<Rightarrow> nat \<Rightarrow> round_state \<Rightarrow> round_state \<Rightarrow> bool" where
  "round_evolves n src r r' \<longleftrightarrow>
     rs_sequence_number r' = rs_sequence_number r \<and>
     (\<forall>b. \<forall>i < n. round_approval r b i \<longrightarrow> round_approval r' b i) \<and>
     (\<forall>b. \<forall>i < n. round_approval r' b i \<longrightarrow> round_approval r b i \<or> i = src) \<and>
     (\<forall>s b. \<forall>i < n. round_vote r s b i \<longrightarrow> round_vote r' s b i) \<and>
     (\<exists>s0 b0. \<forall>s b. \<forall>i < n. round_vote r' s b i \<longrightarrow> round_vote r s b i \<or>
        (i = src \<and> s = s0 \<and> b = b0 \<and> (\<forall>b'. \<not> round_vote r s b' src))) \<and>
     (\<forall>s. \<forall>i < n. round_precommit r s i \<longrightarrow> round_precommit r' s i) \<and>
     (\<forall>s. \<forall>i < n. round_precommit r' s i \<longrightarrow> round_precommit r s i \<or> i = src) \<and>
     (\<forall>i < n. round_signed r i \<longrightarrow> rs_signatures r' ! i = rs_signatures r ! i) \<and>
     (\<forall>i < n. round_signed r' i \<longrightarrow> round_signed r i \<or> i = src) \<and>
     (\<forall>block. rs_precommitted_block r = Some block \<longrightarrow> rs_precommitted_block r' = Some block)"

lemma round_evolves_refl [simp]: "round_evolves n src r r"
  by (auto simp: round_evolves_def)

text \<open>The parts of the state that the approvals, the votes and the precommits depend on.\<close>

lemma round_relations_cong:
  "rs_sent_blocks r' = rs_sent_blocks r \<Longrightarrow> round_approval r' = round_approval r"
  "rs_sent_blocks r' = rs_sent_blocks r \<Longrightarrow> round_approved desc r' = round_approved desc r"
  "rs_sent_blocks r' = rs_sent_blocks r \<Longrightarrow> round_approved_block desc B r' = round_approved_block desc B r"
  "rs_attempts r' = rs_attempts r \<Longrightarrow> round_vote r' = round_vote r"
  "rs_attempts r' = rs_attempts r \<Longrightarrow> round_precommit r' = round_precommit r"
  "rs_attempts r' = rs_attempts r \<Longrightarrow> round_voted desc r' = round_voted desc r"
  "rs_attempts r' = rs_attempts r \<Longrightarrow> round_precommitted desc r' = round_precommitted desc r"
  "rs_signatures r' = rs_signatures r \<Longrightarrow> round_signed r' = round_signed r"
  by (simp_all add: round_approval_def [abs_def] round_blocks_def round_approved_def [abs_def]
      round_approved_block_def [abs_def] round_vote_def [abs_def] round_precommit_def [abs_def] round_attempts_def
      round_voted_def [abs_def] round_precommitted_def [abs_def] round_signed_def [abs_def])

lemma wf_round_update_first_attempt:
  assumes "wf_round desc B r" and "length fa = nodes_count desc"
  shows "wf_round desc B (r\<lparr>rs_first_attempt := Some fa\<rparr>)"
    and "round_evolves n src r (r\<lparr>rs_first_attempt := Some fa\<rparr>)"
  using assms
  by (simp_all add: wf_round_def wf_round_vectors_def wf_round_blocks_def wf_round_attempts_def wf_round_decisions_def
      round_blocks_def round_attempts_def round_evolves_def round_relations_cong [of "r\<lparr>rs_first_attempt := Some fa\<rparr>" r])

lemma update_first_attempt_total:
  assumes "wf_round desc B r" and "unat i < nodes_count desc"
  obtains r' made where "update_first_attempt r i s = Some (r', made)" "wf_round desc B r'"
    "round_evolves n src r r'" "\<exists>fa. r' = r\<lparr>rs_first_attempt := fa\<rparr>"
    "s \<noteq> 0 \<Longrightarrow> update_first_attempt r' i s = Some (r', False)" "\<not> made \<Longrightarrow> r' = r"
proof -
  obtain fa where fa: "rs_first_attempt r = Some fa" "length fa = nodes_count desc"
    using wf_roundD(1) [OF assms(1)] by (auto simp: wf_round_vectors_def)
  show thesis
  proof (cases "fa ! unat i = 0 \<or> fa ! unat i > s")
    case True
    then have "update_first_attempt r i s = Some (r\<lparr>rs_first_attempt := Some (fa[unat i := s])\<rparr>, True)"
      using fa assms(2) by (simp add: update_first_attempt_def)
    moreover have "update_first_attempt (r\<lparr>rs_first_attempt := Some (fa[unat i := s])\<rparr>) i s =
      Some (r\<lparr>rs_first_attempt := Some (fa[unat i := s])\<rparr>, False)" if "s \<noteq> 0"
      using fa assms(2) that by (simp add: update_first_attempt_def)
    ultimately show thesis
      using fa wf_round_update_first_attempt [OF assms(1), of "fa[unat i := s]"]
      by (intro that [of "r\<lparr>rs_first_attempt := Some (fa[unat i := s])\<rparr>" True]) auto
  next
    case False
    then have "update_first_attempt r i s = Some (r, False)"
      using fa assms(2) by (simp add: update_first_attempt_def)
    then show thesis
      using assms(1) by (intro that [of r False]) (auto intro: exI [of _ "rs_first_attempt r"])
  qed
qed

subsection \<open>Adding a candidate\<close>

lemma round_approved_mono:
  assumes "\<And>i. i < nodes_count desc \<Longrightarrow> round_approval r b i \<Longrightarrow> round_approval r' b i" and "round_approved desc r b"
  shows "round_approved desc r' b"
  using assms(2) weight_of_mono [of desc "round_approval r b" "round_approval r' b"] assms(1)
  by (auto simp: round_approved_def intro: order.trans)

lemma wf_round_push_block:
  assumes "wf_round desc B r"
    and c: "wf_block_candidate (nodes_count desc) c" "known_block desc B (bc_block c)"
      "proposer_ok desc (rs_sequence_number r) (bc_block c)"
    and old: "\<And>i. i < nodes_count desc \<Longrightarrow> round_approval r (block_candidate_get_id c) i \<Longrightarrow> approved_at c i"
    and new: "\<And>i. i < nodes_count desc \<Longrightarrow> approved_at c i \<Longrightarrow> round_approval r (block_candidate_get_id c) i \<or> i = src"
  defines "r' \<equiv> r\<lparr>rs_sent_blocks := Some (key_insert block_candidate_get_id c (round_blocks r))\<rparr>"
  shows "wf_round desc B r'" and "round_evolves (nodes_count desc) src r r'"
proof -
  note wf = wf_roundD [OF assms(1)]
  have sorted: "key_sorted block_candidate_get_id (round_blocks r)" using wf(2) by (simp add: wf_round_blocks_def)
  have blocks: "round_blocks r' = key_insert block_candidate_get_id c (round_blocks r)"
    by (simp add: r'_def round_blocks_def)
  have seq: "rs_sequence_number r' = rs_sequence_number r" by (simp add: r'_def)
  have keep: "round_approval r' b i" if "i < nodes_count desc" "round_approval r b i" for b i
    using that old by (cases "b = block_candidate_get_id c") (auto simp: round_approval_def blocks set_key_insert [OF sorted])
  have only: "round_approval r b i \<or> i = src" if "i < nodes_count desc" "round_approval r' b i" for b i
    using that new by (auto simp: round_approval_def [of r'] blocks set_key_insert [OF sorted]) (auto simp: round_approval_def)
  have approved: "round_approved_block desc B r' block" if "round_approved_block desc B r block" for block
    using that keep round_approved_mono [of desc r _ r'] by (auto simp: round_approved_block_def)
  have "wf_round_blocks desc B r'"
    using wf(2) c seq by (auto simp: wf_round_blocks_def blocks key_insert_sorted set_key_insert)
  moreover have "wf_round_attempts desc B r'"
    using wf(3) approved attempt_blocks_mono [of "round_approved_block desc B r" _ "round_approved_block desc B r'"]
    by (auto simp: wf_round_attempts_def attempt_ok_def r'_def round_attempts_def)
  moreover have "wf_round_vectors desc r'" using wf(1) by (simp add: wf_round_vectors_def r'_def)
  moreover have "wf_round_decisions desc B r'"
    using wf(4) by (simp add: wf_round_decisions_def r'_def round_relations_cong
        [of "r\<lparr>rs_sent_blocks := Some (key_insert block_candidate_get_id c (round_blocks r))\<rparr>" r])
  ultimately show "wf_round desc B r'" by (simp add: wf_round_def)
  show "round_evolves (nodes_count desc) src r r'"
    using keep only unfolding round_evolves_def
    by (simp add: r'_def round_relations_cong
        [of "r\<lparr>rs_sent_blocks := Some (key_insert block_candidate_get_id c (round_blocks r))\<rparr>" r])
qed

subsection \<open>Block messages\<close>

lemma check_block_is_sent_by_iff:
  "check_block_is_sent_by r i \<longleftrightarrow> (\<exists>c \<in> set (round_blocks r). \<exists>b. bc_block c = Some b \<and> sb_source_id b = i)"
  by (auto simp: check_block_is_sent_by_def round_blocks_def list_ex_iff split: option.splits)

lemma proposer_ok_None [simp]: "proposer_ok desc s None"
  by (simp add: proposer_ok_def)

lemma apply_submitted_total:
  assumes "wf_desc desc" and "no_collisions desc B" and "wf_round desc B r" and "unat i < nodes_count desc"
    and "(i, root, file, coll) \<in> B"
  shows "\<exists>r'. apply_submitted_block_action desc r i root file coll r = Some r' \<and> wf_round desc B r' \<and>
    round_evolves (nodes_count desc) (unat i) r r'"
proof -
  note wf = wf_roundD [OF assms(3)]
  obtain p where p: "get_node_priority desc i (rs_sequence_number r) = Some p"
    by (rule node_priority_range [OF assms(1,4)])
  obtain b where b: "sent_block_create desc i root file coll = Some (Some b)" "known_block desc B (Some b)" "sb_source_id b = i"
    by (rule sent_block_create_total [OF assms(4,5)])
  let ?c = "block_candidate_create_unapproved desc (Some b)"
  show ?thesis
  proof (cases "p < 0 \<or> check_block_is_sent_by r i")
    case True
    with p have "apply_submitted_block_action desc r i root file coll r = Some r"
      by (auto simp: apply_submitted_block_action_def)
    with assms(3) show ?thesis by simp
  next
    case False
    have none: "\<not> round_approval r (block_candidate_get_id ?c) j" for j
    proof
      assume "round_approval r (block_candidate_get_id ?c) j"
      then obtain c where c: "c \<in> set (round_blocks r)" "sent_block_get_id (bc_block c) = sent_block_get_id (Some b)"
        by (auto simp: round_approval_def block_candidate_get_id_eq)
      moreover have "known_block desc B (bc_block c)" using wf(2) c(1) by (simp add: wf_round_blocks_def)
      ultimately have "bc_block c = Some b" using known_block_inject [OF assms(2) _ b(2)] by blast
      with c(1) b(3) False show False by (auto simp: check_block_is_sent_by_iff)
    qed
    have "apply_submitted_block_action desc r i root file coll r =
      Some (r\<lparr>rs_sent_blocks := Some (key_insert block_candidate_get_id ?c (round_blocks r))\<rparr>)"
      using False p b(1) wf(2)
      by (simp add: apply_submitted_block_action_def blocks_push_total round_blocks_def wf_round_blocks_def)
    moreover have "proposer_ok desc (rs_sequence_number r) (Some b)"
      using False p b(3) by (simp add: proposer_ok_def)
    ultimately show ?thesis
      using wf_round_push_block [OF assms(3), of ?c "unat i"] assms(1) b(2) none by simp
  qed
qed

lemma check_other_block_approved_total:
  assumes "wf_round_blocks desc B r" and "unat i < nodes_count desc"
  obtains other where "check_other_block_approved r i c = Some other"
proof -
  have "find_first (\<lambda>c'. if block_candidate_get_source_index c' = block_candidate_get_source_index c
      then block_candidate_check_block_is_approved_by c' i else Some False) (round_blocks r) =
    Some (List.find (\<lambda>c'. block_candidate_get_source_index c' = block_candidate_get_source_index c \<and> approved_at c' (unat i))
      (round_blocks r))"
    using assms by (intro find_first_total) (auto simp: wf_round_blocks_def is_approved_by_total)
  then show thesis by (intro that) (simp add: check_other_block_approved_def round_blocks_def)
qed

lemma check_signature_total:
  assumes "unat i < nodes_count desc"
  shows "\<exists>ok. check_approve_signature desc root file i s = Some ok" and "\<exists>ok. check_signature desc root file i s = Some ok"
  using assms by (simp_all add: check_approve_signature_def check_signature_def)

text \<open>An approval is recorded in one place: the candidate, or a fresh empty candidate, gets the signature.\<close>

lemma apply_approved_cases:
  assumes "wf_round_blocks desc B r" and "unat i < nodes_count desc"
  obtains "apply_approved_block_action desc r i b s r = Some r"
  | c where "get_block r b = Some c \<or> get_block r b = None \<and> b = 0 \<and> c = block_candidate_create_unapproved desc None"
      "apply_approved_block_action desc r i b s r =
         do { c' \<leftarrow> block_candidate_push c i (Some s);
              bs \<leftarrow> sorted_vector_push block_candidate_less (rs_sent_blocks r) c';
              Some (r\<lparr>rs_sent_blocks := bs\<rparr>) }"
      "b \<noteq> 0 \<Longrightarrow> \<exists>blk. bc_block c = Some blk \<and>
         check_approve_signature desc (sb_root_hash blk) (sb_file_hash blk) i s = Some True"
      "b = 0 \<Longrightarrow> s = []"
proof (cases "get_block r b")
  case None
  then show thesis
    using that by (cases "b = 0"; cases "s = []") (auto simp: apply_approved_block_action_def)
next
  case (Some c)
  then have c: "c \<in> set (round_blocks r)" "block_candidate_get_id c = b"
    by (auto simp: get_block_eq dest: key_map_SomeD)
  have ap: "block_candidate_check_block_is_approved_by c i = Some (approved_at c (unat i))"
    using assms c by (intro is_approved_by_total) (auto simp: wf_round_blocks_def)
  obtain other where other: "check_other_block_approved r i c = Some other"
    by (rule check_other_block_approved_total [OF assms])
  show thesis
  proof (cases "b = 0")
    case True
    with Some ap that show thesis
      by (cases "approved_at c (unat i)"; cases "s = []") (auto simp: apply_approved_block_action_def)
  next
    case False
    with c obtain blk where blk: "bc_block c = Some blk"
      by (cases "bc_block c") (auto simp: block_candidate_get_id_def)
    obtain ok where "check_approve_signature desc (sb_root_hash blk) (sb_file_hash blk) i s = Some ok"
      using check_signature_total [OF assms(2)] by blast
    with Some ap other blk False that show thesis
      by (cases "approved_at c (unat i)"; cases other; cases ok) (auto simp: apply_approved_block_action_def)
  qed
qed

lemma apply_approved_total:
  assumes "wf_desc desc" and "wf_round desc B r" and "unat i < nodes_count desc"
  shows "\<exists>r'. apply_approved_block_action desc r i b s r = Some r' \<and> wf_round desc B r' \<and>
    round_evolves (nodes_count desc) (unat i) r r'"
proof -
  note wf = wf_roundD [OF assms(2)]
  show ?thesis
  proof (rule apply_approved_cases [OF wf(2) assms(3), of b s])
    assume "apply_approved_block_action desc r i b s r = Some r"
    with assms(2) show ?thesis by simp
  next
    fix c
    assume c: "get_block r b = Some c \<or> get_block r b = None \<and> b = 0 \<and> c = block_candidate_create_unapproved desc None"
      and run: "apply_approved_block_action desc r i b s r =
         do { c' \<leftarrow> block_candidate_push c i (Some s);
              bs \<leftarrow> sorted_vector_push block_candidate_less (rs_sent_blocks r) c';
              Some (r\<lparr>rs_sent_blocks := bs\<rparr>) }"
    have wfc: "wf_block_candidate (nodes_count desc) c" "known_block desc B (bc_block c)"
      "proposer_ok desc (rs_sequence_number r) (bc_block c)"
      using c wf(2) assms(1)
      by (auto simp: get_block_eq wf_round_blocks_def dest!: key_map_SomeD)
    have approval: "round_approval r (block_candidate_get_id c) j \<longleftrightarrow> approved_at c j" if "j < nodes_count desc" for j
      using c
    proof
      assume "get_block r b = Some c"
      then have "c \<in> set (round_blocks r)" by (auto simp: get_block_eq dest: key_map_SomeD)
      then show ?thesis by (simp add: round_approval_of_candidate [OF wf(2)])
    next
      assume "get_block r b = None \<and> b = 0 \<and> c = block_candidate_create_unapproved desc None"
      then show ?thesis
        using that assms(1) by (auto simp: get_block_eq key_map_None_iff round_approval_def sent_block_get_id_def)
    qed
    let ?c = "block_candidate_add c (unat i) (Some s)"
    have "apply_approved_block_action desc r i b s r =
      Some (r\<lparr>rs_sent_blocks := Some (key_insert block_candidate_get_id ?c (round_blocks r))\<rparr>)"
      using run wf(2) block_candidate_push_total [OF wfc(1) assms(3)]
      by (simp add: blocks_push_total round_blocks_def wf_round_blocks_def)
    then show ?thesis
      using wf_round_push_block [OF assms(2), of ?c "unat i"] wfc approval approved_at_add [OF wfc(1) assms(3)]
      by simp
  qed
qed

lemma apply_committed_total:
  assumes "wf_desc desc" and "wf_round desc B r" and "unat i < nodes_count desc"
  shows "\<exists>r'. apply_committed_block_action desc r i b s r = Some r' \<and> wf_round desc B r' \<and>
    round_evolves (nodes_count desc) (unat i) r r'"
proof (cases "\<exists>block. rs_precommitted_block r = Some block \<and> sent_block_get_id block = b \<and> \<not> round_signed r (unat i)")
  case False
  then have "apply_committed_block_action desc r i b s r = Some r"
    using wf_round_vectorsD(4) [OF wf_roundD(1) [OF assms(2)] assms(3)]
    by (auto simp: apply_committed_block_action_def round_signed_def split: option.splits)
  with assms(2) show ?thesis by simp
next
  case True
  then obtain block where block: "rs_precommitted_block r = Some block" "sent_block_get_id block = b"
    "rs_signatures r ! unat i = None" by (auto simp: round_signed_def)
  have len: "length (rs_signatures r) = nodes_count desc"
    using wf_roundD(1) [OF assms(2)] by (simp add: wf_round_vectors_def)
  define r' where "r' = r\<lparr>rs_signatures := (rs_signatures r)[unat i := Some s]\<rparr>"
  have run: "apply_committed_block_action desc r i b s r \<in> {Some r, Some r'}"
  proof (cases "b = 0")
    case True
    then show ?thesis using block len assms(3) by (simp add: apply_committed_block_action_def r'_def)
  next
    case False
    then obtain blk where blk: "block = Some blk" using block(2) by (cases block) (auto simp: sent_block_get_id_def)
    obtain ok where "check_signature desc (sb_root_hash blk) (sb_file_hash blk) i s = Some ok"
      using check_signature_total(2) [OF assms(3)] by blast
    with False blk block len assms(3) show ?thesis by (simp add: apply_committed_block_action_def r'_def)
  qed
  note cong = round_relations_cong [of r' r]
  have "wf_round desc B r'"
    using wf_roundD [OF assms(2)] block(1) cong
    by (auto simp: wf_round_def wf_round_vectors_def wf_round_blocks_def wf_round_attempts_def wf_round_decisions_def
        r'_def round_blocks_def round_attempts_def)
  moreover have "round_evolves (nodes_count desc) (unat i) r r'"
    using cong block len assms(3) by (auto simp: round_evolves_def r'_def round_signed_def nth_list_update)
  ultimately show ?thesis using run assms(2) by auto
qed

subsection \<open>Updating an attempt\<close>

definition attempt_or_new :: "session_description \<Rightarrow> round_state \<Rightarrow> u32 \<Rightarrow> round_attempt" where
  "attempt_or_new desc r s =
     (case key_map ra_sequence_number (round_attempts r) s of
        Some a \<Rightarrow> a | None \<Rightarrow> round_attempt_create_empty desc s)"

lemma attempt_or_new_props:
  assumes "wf_desc desc" and "wf_round_attempts desc B r"
  shows "ra_sequence_number (attempt_or_new desc r s) = s"
    and "attempt_ok desc (round_approved_block desc B r) (attempt_or_new desc r s)"
    and "attempt_vote (attempt_or_new desc r s) = round_vote r s"
    and "i < nodes_count desc \<Longrightarrow> attempt_precommit (attempt_or_new desc r s) i \<longleftrightarrow> round_precommit r s i"
proof -
  have "ra_sequence_number (attempt_or_new desc r s) = s \<and>
    attempt_ok desc (round_approved_block desc B r) (attempt_or_new desc r s) \<and>
    attempt_vote (attempt_or_new desc r s) = round_vote r s \<and>
    (i < nodes_count desc \<longrightarrow> (attempt_precommit (attempt_or_new desc r s) i \<longleftrightarrow> round_precommit r s i))"
  proof (cases "key_map ra_sequence_number (round_attempts r) s")
    case None
    then have "s \<notin> ra_sequence_number ` set (round_attempts r)" by (simp add: key_map_None_iff)
    with None assms(1) show ?thesis
      by (auto simp: attempt_or_new_def round_vote_def round_precommit_def attempt_ok_def fun_eq_iff)
  next
    case (Some a)
    then have a: "a \<in> set (round_attempts r)" "ra_sequence_number a = s" by (auto dest: key_map_SomeD)
    with Some round_vote_of_attempt [OF assms(2) a(1)] wf_round_attemptD [OF assms(2) a(1)]
    show ?thesis by (auto simp: attempt_or_new_def attempt_ok_def)
  qed
  then show "ra_sequence_number (attempt_or_new desc r s) = s"
    and "attempt_ok desc (round_approved_block desc B r) (attempt_or_new desc r s)"
    and "attempt_vote (attempt_or_new desc r s) = round_vote r s"
    and "i < nodes_count desc \<Longrightarrow> attempt_precommit (attempt_or_new desc r s) i \<longleftrightarrow> round_precommit r s i"
    by auto
qed

lemma vote_received_or_new:
  assumes "wf_desc desc" and "wf_round_attempts desc B r"
  shows "vote_received (attempt_or_new desc r s) i \<longleftrightarrow> (\<exists>b. round_vote r s b i)"
  by (simp add: vote_received_iff attempt_or_new_props(3) [OF assms])

lemma get_attempt_or_new:
  assumes "wf_round_attempts desc B r"
  shows "get_attempt (rs_attempts r) s = Some (key_map ra_sequence_number (round_attempts r) s)"
  using assms get_attempt_total [of "rs_attempts r" s] by (simp add: wf_round_attempts_def round_attempts_def)

lemma set_push_attempt:
  assumes "key_sorted ra_sequence_number (round_attempts r)" and "ra_sequence_number a = s"
    and "rs_attempts r' = Some (key_insert ra_sequence_number a (round_attempts r))"
  shows "round_vote r' t = (if t = s then attempt_vote a else round_vote r t)"
    and "round_precommit r' t = (if t = s then attempt_precommit a else round_precommit r t)"
  using assms by (auto simp: round_vote_def [abs_def] round_precommit_def [abs_def] round_attempts_def set_key_insert fun_eq_iff)

lemma round_voted_mono:
  "(\<And>i. i < nodes_count desc \<Longrightarrow> round_vote r s b i \<Longrightarrow> round_vote r' s b i) \<Longrightarrow> round_voted desc r s b \<Longrightarrow> round_voted desc r' s b"
  using weight_of_mono [of desc "round_vote r s b" "round_vote r' s b"] by (auto simp: round_voted_def intro: order.trans)

lemma round_precommitted_mono:
  "(\<And>i. i < nodes_count desc \<Longrightarrow> round_precommit r s i \<Longrightarrow> round_precommit r' s i) \<Longrightarrow>
     round_precommitted desc r s \<Longrightarrow> round_precommitted desc r' s"
  using weight_of_mono [of desc "round_precommit r s" "round_precommit r' s"]
  by (auto simp: round_precommitted_def intro: order.trans)

text \<open>
  Replacing an attempt by one that evolved from it keeps the invariant, provided the new last
  precommits and the new precommitted block are backed by votes and precommits.
\<close>

lemma wf_round_push_attempt:
  assumes "wf_desc desc" and "wf_round desc B r" and "s \<noteq> 0"
    and a: "attempt_ok desc (round_approved_block desc B r) a"
      "attempt_evolves (nodes_count desc) src (attempt_or_new desc r s) a"
    and lp: "length lp = nodes_count desc"
      "\<And>t. t \<in> set lp \<Longrightarrow> t \<noteq> 0 \<Longrightarrow> t \<in> set (vector_wrapper_iter (rs_last_precommit r)) \<or> (t = s \<and> (\<exists>b. attempt_voted desc a b))"
    and pb: "pb = rs_precommitted_block r \<or> (rs_precommitted_block r = None \<and>
        (\<exists>block. pb = Some block \<and> known_block desc B block \<and> attempt_precommitted desc a \<and>
           attempt_voted desc a (sent_block_get_id block)))"
  defines "r' \<equiv> r\<lparr>rs_precommitted_block := pb, rs_last_precommit := Some lp,
      rs_attempts := Some (key_insert ra_sequence_number a (round_attempts r))\<rparr>"
  shows "wf_round desc B r'" and "round_evolves (nodes_count desc) src r r'"
proof -
  note wf = wf_roundD [OF assms(2)] and new = attempt_or_new_props [OF assms(1) wf_roundD(3) [OF assms(2)]]
  have sorted: "key_sorted ra_sequence_number (round_attempts r)" using wf(3) by (simp add: wf_round_attempts_def)
  have seq: "ra_sequence_number a = s" using a(2) new(1) by (simp add: attempt_evolves_def)
  have vote: "round_vote r' t = (if t = s then attempt_vote a else round_vote r t)"
    and precommit: "round_precommit r' t = (if t = s then attempt_precommit a else round_precommit r t)" for t
    by (rule set_push_attempt [OF sorted seq]; simp add: r'_def)+
  have keep: "round_vote r t b i \<Longrightarrow> round_vote r' t b i" "round_precommit r t i \<Longrightarrow> round_precommit r' t i"
    if "i < nodes_count desc" for t b i
    using a(2) that new(3,4) by (auto simp: attempt_evolves_def vote precommit)
  have cong: "round_approval r' = round_approval r" "round_approved_block desc B r' = round_approved_block desc B r"
    "round_signed r' = round_signed r" by (rule round_relations_cong, simp add: r'_def)+
  have "wf_round_attempts desc B r'"
    using wf(3) a(1) seq assms(3) unfolding wf_round_attempts_def cong
    by (auto simp: r'_def round_attempts_def key_insert_sorted set_key_insert)
  moreover have "wf_round_vectors desc r'" "wf_round_blocks desc B r'"
    using wf(1,2) lp(1) by (simp_all add: r'_def wf_round_vectors_def wf_round_blocks_def round_blocks_def)
  moreover have "wf_round_decisions desc B r'"
  proof -
    have here: "round_voted desc r' s = attempt_voted desc a" "round_precommitted desc r' s = attempt_precommitted desc a"
      by (simp_all add: round_voted_def [abs_def] attempt_voted_def [abs_def] vote round_precommitted_def attempt_precommitted_def precommit)
    have old: "round_voted desc r t b \<Longrightarrow> round_voted desc r' t b" "round_precommitted desc r t \<Longrightarrow> round_precommitted desc r' t" for t b
      using keep round_voted_mono [of desc r t b r'] round_precommitted_mono [of desc r t r'] by auto
    have "\<exists>b. round_voted desc r' t b" if "t \<in> set lp" "t \<noteq> 0" for t
      using lp(2) [OF that] wf(4) that(2) old(1) here(1) unfolding wf_round_decisions_def by metis
    moreover have "known_block desc B block \<and> (\<exists>t. round_precommitted desc r' t \<and> round_voted desc r' t (sent_block_get_id block))"
      if "pb = Some block" for block
      using pb that wf(4) old here unfolding wf_round_decisions_def by (metis option.inject)
    moreover have "pb \<noteq> None" if "\<exists>i < nodes_count desc. round_signed r i"
      using wf(4) that pb by (auto simp: wf_round_decisions_def)
    ultimately show ?thesis unfolding wf_round_decisions_def cong by (simp add: r'_def)
  qed
  ultimately show "wf_round desc B r'" by (simp add: wf_round_def)
  obtain b0 where b0: "\<forall>b. \<forall>i < nodes_count desc. attempt_vote a b i \<longrightarrow> attempt_vote (attempt_or_new desc r s) b i \<or>
      (i = src \<and> b = b0 \<and> \<not> vote_received (attempt_or_new desc r s) src)"
    using a(2) by (auto simp: attempt_evolves_def)
  have "\<forall>t b. \<forall>i < nodes_count desc. round_vote r' t b i \<longrightarrow> round_vote r t b i \<or>
        (i = src \<and> t = s \<and> b = b0 \<and> (\<forall>b'. \<not> round_vote r t b' src))"
    using b0 new(3) by (auto simp: vote vote_received_iff)
  moreover have "round_precommit r t i \<or> i = src" if "i < nodes_count desc" "round_precommit r' t i" for t i
    using a(2) that new(4) [of i] by (auto simp: attempt_evolves_def precommit split: if_splits)
  moreover have "rs_sequence_number r' = rs_sequence_number r" "rs_signatures r' = rs_signatures r"
    "rs_precommitted_block r' = Some block" if "rs_precommitted_block r = Some block" for block
    using pb that by (auto simp: r'_def)
  ultimately show "round_evolves (nodes_count desc) src r r'"
    using keep unfolding round_evolves_def cong by (intro conjI) (blast | simp add: r'_def)+
qed

subsection \<open>Attempt messages\<close>

lemma foldl_max_mem: "foldl max (m :: 'a::linorder) xs \<in> insert m (set xs)"
  by (induction xs arbitrary: m) (auto simp: max_def)

lemma foldl_max_ge: "x \<in> insert m (set xs) \<Longrightarrow> x \<le> foldl max (m :: 'a::linorder) xs"
proof (induction xs arbitrary: m x)
  case (Cons y xs)
  then show ?case using Cons.IH [of "max m y" "max m y"] Cons.IH [of x "max m y"] by (auto simp: le_max_iff_disj)
qed simp

lemma update_last_precommit_total:
  assumes "wf_desc desc" and "wf_round desc B r" and "rs_last_precommit r = Some lp"
  obtains flag lp' where "update_last_precommit desc r s voted = Some (flag, Some lp')"
    "length lp' = length lp" "\<And>t. t \<in> set lp' \<Longrightarrow> t \<noteq> 0 \<Longrightarrow> t \<in> set lp"
proof (cases "voted = None \<or> max_last_precommit (Some lp) = 0")
  case True
  then have "update_last_precommit desc r s voted = Some (False, Some lp)"
    using assms(3) by (auto simp: update_last_precommit_def split: option.splits)
  then show thesis by (rule that) auto
next
  case False
  let ?m = "max_last_precommit (Some lp)"
  have "?m \<in> set lp" using False foldl_max_mem [of 0 lp] by (simp add: max_last_precommit_def)
  then obtain b where "round_voted desc r ?m b"
    using wf_roundD(4) [OF assms(2)] assms(3) False by (auto simp: wf_round_decisions_def)
  then obtain a block where a: "get_attempt (rs_attempts r) ?m = Some (Some a)" "get_voted_block desc a = Some (Some block)"
    using last_precommit_voted [OF assms(1) wf_roundD(3) [OF assms(2)]] by metis
  obtain v where v: "voted = Some v" using False by auto
  have run: "update_last_precommit desc r s voted =
    (if sent_block_get_id block = sent_block_get_id v then Some (False, Some lp)
     else Some (True, Some (map (\<lambda>i. if i > s then i else 0) lp)))"
    using False a v assms(3) by (simp add: update_last_precommit_def)
  show thesis
  proof (cases "sent_block_get_id block = sent_block_get_id v")
    case True
    with run show thesis by (intro that [of False lp]) auto
  next
    case False
    with run show thesis by (intro that [of True "map (\<lambda>i. if i > s then i else 0) lp"]) auto
  qed
qed

abbreviation is_attempt_message :: "message \<Rightarrow> bool" where
  "is_attempt_message m \<equiv> (\<exists>x y b. m = Vote x y b \<or> m = VoteFor x y b \<or> m = Precommit x y b \<or> m = Empty x y)"

lemma record_last_precommit_total:
  assumes "wf_attempt desc a" and "unat i < nodes_count desc" and "length lp = nodes_count desc"
    and "attempt_precommit a (unat i) \<Longrightarrow> voted \<noteq> None"
  obtains lp' where "record_last_precommit a i s mx voted flag (Some lp) = Some (Some lp')"
    "length lp' = nodes_count desc" "lp' = lp \<or> (voted \<noteq> None \<and> lp' = lp[unat i := s])"
proof (cases "attempt_precommit a (unat i) \<and> lp ! unat i < s \<and> (s > mx \<or> \<not> flag)")
  case True
  then have "record_last_precommit a i s mx voted flag (Some lp) = Some (Some (lp[unat i := s]))"
    using assms by (auto simp: record_last_precommit_def check_precommit_received_total)
  with True assms show thesis by (intro that [of "lp[unat i := s]"]) auto
next
  case False
  then have "record_last_precommit a i s mx voted flag (Some lp) = Some (Some lp)"
    using assms by (auto simp: record_last_precommit_def check_precommit_received_total)
  then show thesis using assms(3) by (intro that [of lp]) auto
qed

lemma precommitted_by_attempt_total:
  assumes "wf_desc desc" and "wf_attempt desc a"
  shows "precommitted_by_attempt desc a (voted_block desc a) None =
    Some (if attempt_precommitted desc a then voted_block desc a else None)"
    and "attempt_precommitted desc a \<Longrightarrow> voted_block desc a \<noteq> None"
proof -
  show voted: "voted_block desc a \<noteq> None" if "attempt_precommitted desc a"
    using precommitted_voted [OF assms that] voted_block_None_iff [OF assms] by metis
  show "precommitted_by_attempt desc a (voted_block desc a) None =
    Some (if attempt_precommitted desc a then voted_block desc a else None)"
    using voted by (auto simp: precommitted_by_attempt_def check_attempt_is_precommitted_total [OF assms])
qed

lemma apply_action_on_attempt_total:
  assumes "wf_desc desc" and "wf_round desc B r" and "unat i < nodes_count desc" and "s \<noteq> 0" and "is_attempt_message m"
  shows "\<exists>r'. apply_action_on_attempt desc r i s m r = Some r' \<and> wf_round desc B r' \<and>
    round_evolves (nodes_count desc) (unat i) r r'"
proof (cases "rs_precommitted_block r = None")
  case False
  then have "apply_action_on_attempt desc r i s m r = Some r" by (simp add: apply_action_on_attempt_def)
  with assms(2) show ?thesis by simp
next
  case True
  note wf = wf_roundD [OF assms(2)] and new = attempt_or_new_props [OF assms(1) wf_roundD(3) [OF assms(2)], where s = s]
  obtain a where a: "round_attempt_apply_action desc (attempt_or_new desc r s) i s m (round_view_of desc r) = Some a"
    "attempt_ok desc (round_approved_block desc B r) a"
    "attempt_evolves (nodes_count desc) (unat i) (attempt_or_new desc r s) a"
    using round_calls.attempt_apply_action_total [of "(desc, B, r)" "attempt_or_new desc r s" i m s] assms new(2) by auto
  have wfa: "wf_attempt desc a" "wf_attempt desc (attempt_or_new desc r s)" "attempt_blocks (round_approved_block desc B r) a"
    using a(2) new(2) by (auto simp: attempt_ok_def)
  have voted_iff: "voted_block desc a \<noteq> None \<longleftrightarrow> (\<exists>b. attempt_voted desc a b)"
    using voted_block_None_iff [OF assms(1) wfa(1)] by metis
  obtain lp where lp: "rs_last_precommit r = Some lp" "length lp = nodes_count desc"
    using wf(1) by (auto simp: wf_round_vectors_def)
  obtain flag lp' where lp': "update_last_precommit desc r s (voted_block desc a) = Some (flag, Some lp')"
    "length lp' = length lp" "\<And>t. t \<in> set lp' \<Longrightarrow> t \<noteq> 0 \<Longrightarrow> t \<in> set lp"
    using update_last_precommit_total [OF assms(1,2) lp(1)] by blast
  obtain lp'' where lp'': "record_last_precommit a i s (max_last_precommit (Some lp)) (voted_block desc a) flag (Some lp') = Some (Some lp'')"
    "length lp'' = nodes_count desc" "lp'' = lp' \<or> (voted_block desc a \<noteq> None \<and> lp'' = lp'[unat i := s])"
    using record_last_precommit_total [OF wfa(1) assms(3), of lp' "voted_block desc a"] lp(2) lp'(2)
      wf_attemptD(4) [OF wfa(1) assms(3)] voted_iff by metis
  note pb = precommitted_by_attempt_total [OF assms(1) wfa(1)]
  define pb' where "pb' = (if attempt_precommitted desc a then voted_block desc a else None)"
  have push: "sorted_vector_push attempt_less (rs_attempts r) a = Some (Some (key_insert ra_sequence_number a (round_attempts r)))"
    using wf(3) by (simp add: attempts_push_total wf_round_attempts_def round_attempts_def)
  let ?r = "r\<lparr>rs_precommitted_block := pb', rs_last_precommit := Some lp'',
      rs_attempts := Some (key_insert ra_sequence_number a (round_attempts r))\<rparr>"
  have "apply_action_on_attempt desc r i s m r = Some ?r"
    using True lp(1) a(1) lp'(1) lp''(1) push pb(1)
    by (simp add: apply_action_on_attempt_def get_attempt_or_new [OF wf(3)] get_voted_block_total [OF assms(1)] wfa
        pb'_def attempt_or_new_def [symmetric])
  moreover have last: "t \<in> set (vector_wrapper_iter (rs_last_precommit r)) \<or> (t = s \<and> (\<exists>b. attempt_voted desc a b))"
    if "t \<in> set lp''" "t \<noteq> 0" for t
    using that lp'(3) [of t] lp''(3) voted_iff lp(1) set_update_subset_insert [of lp' "unat i" s] by auto
  moreover have "pb' = None \<or> (\<exists>block. pb' = Some block \<and> known_block desc B block \<and> attempt_precommitted desc a \<and>
      attempt_voted desc a (sent_block_get_id block))"
  proof (cases "attempt_precommitted desc a")
    case precommitted: True
    then obtain block where block: "voted_block desc a = Some block" using pb(2) by auto
    with voted_block_SomeD [OF assms(1) wfa(1) block] wfa(3) precommitted show ?thesis
      by (auto simp: pb'_def attempt_blocks_def round_approved_block_def)
  qed (simp add: pb'_def)
  ultimately show ?thesis
    using wf_round_push_attempt [OF assms(1,2,4) a(2,3) lp''(2), of pb'] True by auto
qed

lemma round_evolves_first_attempt:
  assumes "round_evolves n src (r\<lparr>rs_first_attempt := fa\<rparr>) r'"
  shows "round_evolves n src r r'"
  using assms unfolding round_evolves_def
  by (simp add: round_relations_cong [of "r\<lparr>rs_first_attempt := fa\<rparr>" r])

text \<open>A message of validator \<open>i\<close>: a submitted block is one of the known submissions.\<close>

definition message_ok :: "submission set \<Rightarrow> u32 \<Rightarrow> message \<Rightarrow> bool" where
  "message_ok B i m \<longleftrightarrow> (\<forall>x root file coll. m = SubmittedBlock x root file coll \<longrightarrow> (i, root, file, coll) \<in> B)"

lemma round_apply_action_total:
  assumes "wf_desc desc" and "no_collisions desc B" and "wf_round desc B r" and "unat i < nodes_count desc"
    and "s \<noteq> 0" and "message_ok B i m"
  shows "\<exists>r'. round_apply_action desc r i s m = Some r' \<and> wf_round desc B r' \<and>
    round_evolves (nodes_count desc) (unat i) r r'"
proof -
  obtain r1 made where r1: "update_first_attempt r i s = Some (r1, made)" "wf_round desc B r1"
    "\<exists>fa. r1 = r\<lparr>rs_first_attempt := fa\<rparr>"
    by (rule update_first_attempt_total [OF assms(3,4), where s = s and n = 0 and src = 0])
  have "\<exists>r'. round_apply_action desc r i s m = Some r' \<and> wf_round desc B r' \<and>
    round_evolves (nodes_count desc) (unat i) r1 r'"
    using apply_submitted_total [OF assms(1,2) r1(2) assms(4)] apply_approved_total [OF assms(1) r1(2) assms(4)]
      apply_committed_total [OF assms(1) r1(2) assms(4)]
      apply_action_on_attempt_total [OF assms(1) r1(2) assms(4,5), of m] r1(2) assms(6)
    by (cases m) (simp_all add: round_apply_action_def round_apply_action_dispatch_def r1(1) message_ok_def
        apply_rejected_block_action_def)
  with r1(3) show ?thesis using round_evolves_first_attempt by blast
qed

subsection \<open>Implicit actions\<close>

text \<open>How many implicit steps validator \<open>i\<close> still has in attempt \<open>s\<close>.\<close>

definition pending_steps :: "round_state \<Rightarrow> u32 \<Rightarrow> u32 \<Rightarrow> nat" where
  "pending_steps r i s =
     (if vector_wrapper_iter (rs_first_attempt r) ! unat i = 0 \<or> vector_wrapper_iter (rs_first_attempt r) ! unat i > s
      then 1 else 0) +
     (if \<exists>b. round_vote r s b (unat i) then 0 else 1) + (if round_precommit r s (unat i) then 0 else 1)"

lemma push_attempt_total:
  assumes "wf_round_attempts desc B r"
  shows "sorted_vector_push attempt_less (rs_attempts r) a = Some (Some (key_insert ra_sequence_number a (round_attempts r)))"
  using assms by (simp add: attempts_push_total wf_round_attempts_def round_attempts_def)

text \<open>The implicit vote or precommit of validator \<open>i\<close> in attempt \<open>s\<close>, and its effect on the round.\<close>

lemma implicit_action_total:
  assumes "wf_desc desc" and "wf_round desc B r" and "unat i < nodes_count desc" and "s \<noteq> 0"
  obtains "apply_default_action desc (attempt_or_new desc r s) i s None (round_view_of desc r) (attempt_or_new desc r s) =
      Some (attempt_or_new desc r s, False)"
  | a r' where "apply_default_action desc (attempt_or_new desc r s) i s None (round_view_of desc r)
        (attempt_or_new desc r s) = Some (a, True)"
      "r' = r\<lparr>rs_attempts := Some (key_insert ra_sequence_number a (round_attempts r))\<rparr>"
      "wf_round desc B r'" "round_evolves (nodes_count desc) (unat i) r r'" "pending_steps r' i s < pending_steps r i s"
proof -
  note wf = wf_roundD [OF assms(2)] and new = attempt_or_new_props [OF assms(1) wf_roundD(3) [OF assms(2)], where s = s]
  let ?a = "attempt_or_new desc r s"
  let ?run = "apply_default_action desc ?a i s None (round_view_of desc r) ?a"
  consider (same) "?run = Some (?a, False)"
    | (step) a where "?run = Some (a, True)" "attempt_ok desc (round_approved_block desc B r) a"
      "attempt_evolves (nodes_count desc) (unat i) ?a a"
      "(vote_received a (unat i) \<and> \<not> vote_received ?a (unat i)) \<or>
       (vote_received a = vote_received ?a \<and> attempt_precommit a (unat i) \<and> \<not> attempt_precommit ?a (unat i))"
    using round_calls.apply_default_action_total [of "(desc, B, r)" ?a i s None] assms new(2) by auto
  then show thesis
  proof cases
    case same
    then show thesis by (rule that(1))
  next
    case step
    let ?r = "r\<lparr>rs_attempts := Some (key_insert ra_sequence_number a (round_attempts r))\<rparr>"
    obtain lp where lp: "rs_last_precommit r = Some lp" "length lp = nodes_count desc"
      using wf(1) by (auto simp: wf_round_vectors_def)
    have eq: "?r = r\<lparr>rs_precommitted_block := rs_precommitted_block r, rs_last_precommit := Some lp,
      rs_attempts := Some (key_insert ra_sequence_number a (round_attempts r))\<rparr>" using lp(1) by simp
    have "wf_round desc B ?r" "round_evolves (nodes_count desc) (unat i) r ?r"
      unfolding eq by (rule wf_round_push_attempt [OF assms(1,2,4) step(2,3) lp(2)]; simp add: lp(1))+
    moreover have "pending_steps ?r i s < pending_steps r i s"
    proof -
      have seq: "ra_sequence_number a = s" using step(3) new(1) by (simp add: attempt_evolves_def)
      have "round_vote ?r s = attempt_vote a" "round_precommit ?r s = attempt_precommit a"
        using wf(3) set_push_attempt [OF _ seq, of r ?r s] by (simp_all add: wf_round_attempts_def)
      moreover have "attempt_precommit ?a (unat i) \<longrightarrow> attempt_precommit a (unat i)"
        using step(3) assms(3) by (simp add: attempt_evolves_def)
      ultimately show ?thesis
        using step(4) new(4) [OF assms(3)] by (auto simp: pending_steps_def vote_received_iff new(3) fun_eq_iff)
    qed
    ultimately show thesis using step(1) by (intro that(2)) auto
  qed
qed

lemma update_first_attempt_pending:
  assumes "wf_round desc B r" and "unat i < nodes_count desc" and "s \<noteq> 0"
  obtains r' made where "update_first_attempt r i s = Some (r', made)" "wf_round desc B r'"
    "\<exists>fa. r' = r\<lparr>rs_first_attempt := fa\<rparr>" "\<not> made \<Longrightarrow> r' = r"
    "pending_steps r' i s \<le> pending_steps r i s" "made \<Longrightarrow> pending_steps r' i s < pending_steps r i s"
proof -
  obtain r1 made where r1: "update_first_attempt r i s = Some (r1, made)" "wf_round desc B r1"
    "\<exists>fa. r1 = r\<lparr>rs_first_attempt := fa\<rparr>" "\<not> made \<Longrightarrow> r1 = r" "update_first_attempt r1 i s = Some (r1, False)"
    using update_first_attempt_total [OF assms(1,2), where s = s and n = 0 and src = 0] assms(3) by metis
  then obtain fa where fa: "r1 = r\<lparr>rs_first_attempt := fa\<rparr>" by blast
  have same: "round_vote r1 = round_vote r" "round_precommit r1 = round_precommit r"
    by (rule round_relations_cong, simp add: fa)+
  have "\<not> (vector_wrapper_iter (rs_first_attempt r1) ! unat i = 0 \<or> vector_wrapper_iter (rs_first_attempt r1) ! unat i > s)"
    using r1(5) wf_round_vectorsD [OF wf_roundD(1) [OF r1(2)] assms(2)]
    by (auto simp: update_first_attempt_def split: if_splits bind_splits)
  moreover have "vector_wrapper_iter (rs_first_attempt r) ! unat i = 0 \<or> vector_wrapper_iter (rs_first_attempt r) ! unat i > s" if made
    using r1(1) that wf_round_vectorsD [OF wf_roundD(1) [OF assms(1)] assms(2)]
    by (auto simp: update_first_attempt_def split: if_splits)
  ultimately have less: "made \<Longrightarrow> pending_steps r1 i s < pending_steps r i s" by (simp add: pending_steps_def same)
  then have "pending_steps r1 i s \<le> pending_steps r i s" using r1(4) by (cases made) auto
  with less show thesis by (intro that [OF r1(1-4)])
qed

lemma round_make_one_total:
  assumes "wf_desc desc" and "wf_round desc B r" and "unat i < nodes_count desc" and "s \<noteq> 0"
  obtains r' made where "round_make_one desc r i s = Some (r', made)" "wf_round desc B r'"
    "round_evolves (nodes_count desc) (unat i) r r'" "\<not> made \<Longrightarrow> r' = r"
    "made \<Longrightarrow> pending_steps r' i s < pending_steps r i s"
    "rs_precommitted_block r' = rs_precommitted_block r" "rs_signatures r' = rs_signatures r"
proof -
  obtain r1 made where r1: "update_first_attempt r i s = Some (r1, made)" "wf_round desc B r1"
    "\<exists>fa. r1 = r\<lparr>rs_first_attempt := fa\<rparr>" "\<not> made \<Longrightarrow> r1 = r" "pending_steps r1 i s \<le> pending_steps r i s"
    "made \<Longrightarrow> pending_steps r1 i s < pending_steps r i s"
    using update_first_attempt_pending [OF assms(2-4)] by metis
  then obtain fa where fa: "r1 = r\<lparr>rs_first_attempt := fa\<rparr>" by blast
  note wf = wf_roundD [OF r1(2)]
  have evolves: "round_evolves (nodes_count desc) (unat i) r r'" if "round_evolves (nodes_count desc) (unat i) r1 r'" for r'
    using that unfolding fa by (rule round_evolves_first_attempt)
  have fields: "rs_precommitted_block r1 = rs_precommitted_block r" "rs_signatures r1 = rs_signatures r" by (simp_all add: fa)
  let ?a = "attempt_or_new desc r1 s"
  have run: "round_make_one desc r i s = (if rs_precommitted_block r1 \<noteq> None then Some (r1, made)
    else do { (a', ch) \<leftarrow> apply_default_action desc ?a i s None (round_view_of desc r1) ?a;
              if \<not> ch then Some (r1, made)
              else Some (r1\<lparr>rs_attempts := Some (key_insert ra_sequence_number a' (round_attempts r1))\<rparr>, True) })"
    unfolding round_make_one_def
    by (simp add: r1(1) get_attempt_or_new [OF wf(3)] round_attempt_make_one_def attempt_or_new_def [symmetric]
        push_attempt_total [OF wf(3)] Let_def cong: if_cong)
  note result = that
  have stay: thesis if "round_make_one desc r i s = Some (r1, made)"
    using that r1 evolves fields by (intro result [of r1 made]) auto
  consider "rs_precommitted_block r1 \<noteq> None"
    | "apply_default_action desc ?a i s None (round_view_of desc r1) ?a = Some (?a, False)"
    | a r2 where "apply_default_action desc ?a i s None (round_view_of desc r1) ?a = Some (a, True)"
      "r2 = r1\<lparr>rs_attempts := Some (key_insert ra_sequence_number a (round_attempts r1))\<rparr>" "rs_precommitted_block r1 = None"
      "wf_round desc B r2" "round_evolves (nodes_count desc) (unat i) r1 r2" "pending_steps r2 i s < pending_steps r1 i s"
    using implicit_action_total [OF assms(1) r1(2) assms(3,4)] by metis
  then show thesis
  proof cases
    case 3
    with run have "round_make_one desc r i s = Some (r2, True)" by simp
    moreover have "pending_steps r2 i s < pending_steps r i s" using 3(6) r1(5) by (rule order.strict_trans2)
    ultimately show thesis using 3 evolves fields by (intro result [of r2 True]) auto
  qed (use run stay in auto)
qed

end
