(* ===== verification/VS_Round_Merge.thy ===== *)
theory VS_Round_Merge
  imports VS_Round_Invariant
begin

text \<open>
  Merging two states of the same round. The merge does not panic when both states are well formed and
  do not contradict each other on the precommitted block; it keeps the invariant, joins the four
  relations of the rounds pointwise, and does not depend on the order of its arguments.
\<close>

subsection \<open>The components of a merge\<close>

interpretation first_attempt_join: mergeable "\<lambda>l r. Some (first_attempt_merge_fn l r)" first_attempt_merge_fn
  by unfold_locales (auto simp: first_attempt_merge_fn_def min_def)

definition merged_attempts :: "round_state \<Rightarrow> round_state \<Rightarrow> round_attempt list option" where
  "merged_attempts l r = combine_options (key_merge ra_sequence_number attempt_join) (rs_attempts l) (rs_attempts r)"

definition merged_blocks :: "round_state \<Rightarrow> round_state \<Rightarrow> block_candidate list option" where
  "merged_blocks l r =
     combine_options (key_merge block_candidate_get_id block_candidate_join) (rs_sent_blocks l) (rs_sent_blocks r)"

definition merged_first_attempt :: "round_state \<Rightarrow> round_state \<Rightarrow> u32 list option" where
  "merged_first_attempt l r = combine_options (list_join first_attempt_merge_fn) (rs_first_attempt l) (rs_first_attempt r)"

definition merged_precommitted :: "round_state \<Rightarrow> round_state \<Rightarrow> sent_block_ptr option" where
  "merged_precommitted l r =
     (case rs_precommitted_block l of None \<Rightarrow> rs_precommitted_block r | Some block \<Rightarrow> Some block)"

text \<open>Two states of a round whose decisions agree.\<close>

definition round_compatible :: "round_state \<Rightarrow> round_state \<Rightarrow> bool" where
  "round_compatible l r \<longleftrightarrow> rs_sequence_number l = rs_sequence_number r \<and>
     (\<forall>x y. rs_precommitted_block l = Some x \<longrightarrow> rs_precommitted_block r = Some y \<longrightarrow>
        sent_block_get_id x = sent_block_get_id y)"

lemma vector_wrapper_merge_total:
  assumes "mergeable f g"
  shows "vector_wrapper_merge_impl l r False f = Some (combine_options (list_join g) l r)"
proof -
  have "vector_merge_custom xs ys f = Some (list_join g xs ys)" for xs ys
    by (rule mergeable.vector_merge_total [OF assms])
  moreover have "list_join g xs xs = xs" for xs
    by (rule list_join_idem) (rule mergeable.join_idem [OF assms])
  ultimately show ?thesis
    by (cases l; cases r) (auto simp: vector_wrapper_merge_impl_def vector_merge_custom_def)
qed

lemma attempts_merge_total:
  assumes "wf_round_attempts desc B l" and "wf_round_attempts desc B r"
  shows "sorted_vector_wrapper_merge attempt_less (rs_attempts l) (rs_attempts r) round_attempt_merge =
    Some (merged_attempts l r)"
  unfolding merged_attempts_def
proof (rule attempt_order.wrapper_merge_total)
  show "key_sorted ra_sequence_number xs" if "rs_attempts l = Some xs" for xs
    using assms(1) that by (simp add: wf_round_attempts_def round_attempts_def)
  show "round_attempt_merge x y = Some (attempt_join x y)"
    if "rs_attempts l = Some ls" "x \<in> set ls" "ra_sequence_number x = ra_sequence_number y" for ls x y
    using that wf_round_attemptD(1) [OF assms(1), of x] by (intro attempt_merge_total) (auto simp: round_attempts_def)
  show "attempt_join x x = x" if "rs_attempts l = Some xs \<or> rs_attempts r = Some xs" "x \<in> set xs" for xs x
    using that wf_round_attemptD(1) [OF assms(1), of x] wf_round_attemptD(1) [OF assms(2), of x]
    by (intro attempt_join_idem) (auto simp: round_attempts_def)
qed

lemma blocks_merge_total:
  assumes "wf_round_blocks desc B l" and "wf_round_blocks desc B r"
  shows "sorted_vector_wrapper_merge block_candidate_less (rs_sent_blocks l) (rs_sent_blocks r) block_candidate_merge =
    Some (merged_blocks l r)"
  unfolding merged_blocks_def using assms
  by (intro block_order.wrapper_merge_total)
    (auto simp: block_candidate_merge_total wf_round_blocks_def round_blocks_def)

lemma precommitted_merge_total:
  assumes "no_collisions desc B" and "wf_round_decisions desc B l" and "wf_round_decisions desc B r" and "round_compatible l r"
  shows "option_merge sent_block_merge (rs_precommitted_block l) (rs_precommitted_block r) = Some (merged_precommitted l r)"
    and "merged_precommitted l r = merged_precommitted r l"
    and "(case (rs_precommitted_block l, rs_precommitted_block r) of
            (Some x, Some y) \<Rightarrow> rs_assert (sent_block_get_id x = sent_block_get_id y) | _ \<Rightarrow> Some ()) = Some ()"
proof -
  have "x = y" if "rs_precommitted_block l = Some x" "rs_precommitted_block r = Some y" for x y
    using that assms by (intro known_block_inject [OF assms(1)]) (auto simp: wf_round_decisions_def round_compatible_def)
  then show "option_merge sent_block_merge (rs_precommitted_block l) (rs_precommitted_block r) = Some (merged_precommitted l r)"
    and "merged_precommitted l r = merged_precommitted r l"
    and "(case (rs_precommitted_block l, rs_precommitted_block r) of
            (Some x, Some y) \<Rightarrow> rs_assert (sent_block_get_id x = sent_block_get_id y) | _ \<Rightarrow> Some ()) = Some ()"
    by (auto simp: option_merge_def merged_precommitted_def split: option.splits)
qed

subsection \<open>The merged attempts and blocks\<close>

lemma iter_merged_attempts:
  "vector_wrapper_iter (merged_attempts l r) = key_merge ra_sequence_number attempt_join (round_attempts l) (round_attempts r)"
  by (cases "rs_attempts l"; cases "rs_attempts r") (simp_all add: merged_attempts_def round_attempts_def)

lemma iter_merged_blocks:
  "vector_wrapper_iter (merged_blocks l r) =
     key_merge block_candidate_get_id block_candidate_join (round_blocks l) (round_blocks r)"
  by (cases "rs_sent_blocks l"; cases "rs_sent_blocks r") (simp_all add: merged_blocks_def round_blocks_def)

lemma merged_approval:
  assumes "wf_round_blocks desc B l" and "wf_round_blocks desc B r" and "i < nodes_count desc"
    and "rs_sent_blocks m = merged_blocks l r"
  shows "round_approval m b i \<longleftrightarrow> round_approval l b i \<or> round_approval r b i"
proof -
  have m: "round_blocks m = key_merge block_candidate_get_id block_candidate_join (round_blocks l) (round_blocks r)"
    using assms(4) by (simp add: round_blocks_def [of m] iter_merged_blocks)
  show ?thesis
    unfolding round_approval_def m using assms(1-3)
    by (intro key_merge_relation) (auto simp: wf_round_blocks_def approved_at_join)
qed

lemma merged_vote:
  assumes "wf_round_attempts desc B l" and "wf_round_attempts desc B r" and "i < nodes_count desc"
    and "rs_attempts m = merged_attempts l r"
  shows "round_vote m s b i \<longleftrightarrow> round_vote l s b i \<or> round_vote r s b i"
    and "round_precommit m s i \<longleftrightarrow> round_precommit l s i \<or> round_precommit r s i"
proof -
  have m: "round_attempts m = key_merge ra_sequence_number attempt_join (round_attempts l) (round_attempts r)"
    using assms(4) by (simp add: round_attempts_def [of m] iter_merged_attempts)
  have sorted: "key_sorted ra_sequence_number (round_attempts l)" "key_sorted ra_sequence_number (round_attempts r)"
    using assms(1,2) by (simp_all add: wf_round_attempts_def)
  note wf = wf_round_attemptD(1) [OF assms(1)] wf_round_attemptD(1) [OF assms(2)]
  show "round_vote m s b i \<longleftrightarrow> round_vote l s b i \<or> round_vote r s b i"
    unfolding round_vote_def m using attempt_vote_join [OF wf assms(3)] by (intro key_merge_relation sorted) auto
  show "round_precommit m s i \<longleftrightarrow> round_precommit l s i \<or> round_precommit r s i"
    unfolding round_precommit_def m using attempt_precommit_join [OF wf assms(3)] by (intro key_merge_relation sorted) auto
qed

lemma merged_blocks_wf:
  assumes "wf_round_blocks desc B l" and "wf_round_blocks desc B r" and "rs_sequence_number l = rs_sequence_number r"
    and "rs_sent_blocks m = merged_blocks l r" and "rs_sequence_number m = rs_sequence_number l"
  shows "wf_round_blocks desc B m"
proof -
  have m: "round_blocks m = key_merge block_candidate_get_id block_candidate_join (round_blocks l) (round_blocks r)"
    using assms(4) by (simp add: round_blocks_def [of m] iter_merged_blocks)
  have "key_sorted block_candidate_get_id (round_blocks m)"
    unfolding m using assms(1,2) by (intro key_merge_sorted) (auto simp: wf_round_blocks_def)
  moreover have "wf_block_candidate (nodes_count desc) c \<and> known_block desc B (bc_block c) \<and>
      proposer_ok desc (rs_sequence_number m) (bc_block c)" if "c \<in> set (round_blocks m)" for c
    using set_key_merge [OF that [unfolded m]] assms by (auto simp: wf_round_blocks_def)
  ultimately show ?thesis by (auto simp: wf_round_blocks_def)
qed

lemma merged_attempts_wf:
  assumes "wf_round_attempts desc B l" and "wf_round_attempts desc B r"
    and "rs_attempts m = merged_attempts l r"
    and mono: "\<And>b. round_approved desc l b \<Longrightarrow> round_approved desc m b" "\<And>b. round_approved desc r b \<Longrightarrow> round_approved desc m b"
  shows "wf_round_attempts desc B m"
proof -
  have m: "round_attempts m = key_merge ra_sequence_number attempt_join (round_attempts l) (round_attempts r)"
    using assms(3) by (simp add: round_attempts_def [of m] iter_merged_attempts)
  have blocks: "attempt_blocks (round_approved_block desc B m) a"
    if "attempt_blocks (round_approved_block desc B l) a \<or> attempt_blocks (round_approved_block desc B r) a" for a
    using that mono by (auto simp: attempt_blocks_def round_approved_block_def)
  have "key_sorted ra_sequence_number (round_attempts m)"
    unfolding m using assms(1,2) by (intro key_merge_sorted) (auto simp: wf_round_attempts_def)
  moreover have "ra_sequence_number a \<noteq> 0 \<and> attempt_ok desc (round_approved_block desc B m) a"
    if "a \<in> set (round_attempts m)" for a
    using set_key_merge [OF that [unfolded m]] wf_round_attemptD [OF assms(1)] wf_round_attemptD [OF assms(2)] blocks
    by (auto simp: attempt_ok_def wf_attempt_join attempt_blocks_join)
  ultimately show ?thesis by (simp add: wf_round_attempts_def)
qed

subsection \<open>The loop over the attempts\<close>

text \<open>
  The two latest attempts with different voted blocks: filled in order, the first later than the second,
  and none of them zero once filled. \<open>bound\<close> is above all attempts still to be visited.
\<close>

definition diversed_ok :: "diversed \<Rightarrow> bool" where
  "diversed_ok dv \<longleftrightarrow>
     length (dv_blocks dv) = 2 \<and> length (dv_attempts dv) = 2 \<and> dv_count dv \<le> 2 \<and>
     (dv_count dv = 0 \<longrightarrow> dv_attempts dv ! 1 = 0) \<and>
     (dv_count dv = 1 \<longrightarrow> dv_attempts dv ! 1 = 0 \<and> dv_attempts dv ! 0 \<noteq> 0) \<and>
     (dv_count dv = 2 \<longrightarrow> dv_attempts dv ! 1 < dv_attempts dv ! 0)"

lemma diversed_step_total:
  assumes "wf_desc desc" and "wf_attempt desc a" and "ra_sequence_number a \<noteq> 0" and "diversed_ok dv"
    and "1 \<le> dv_count dv \<Longrightarrow> ra_sequence_number a < dv_attempts dv ! 0"
  obtains dv' where "diversed_step desc a dv = Some dv'" "diversed_ok dv'" "dv_count dv \<le> dv_count dv'"
    "dv_count dv' = 0 \<Longrightarrow> voted_block desc a = None"
    "\<And>s. s < ra_sequence_number a \<Longrightarrow> 1 \<le> dv_count dv' \<Longrightarrow> (1 \<le> dv_count dv \<Longrightarrow> s < dv_attempts dv ! 0) \<Longrightarrow> s < dv_attempts dv' ! 0"
proof -
  let ?s = "ra_sequence_number a"
  have eq: "diversed_step desc a dv =
    (if dv_count dv \<le> 1 then
       (case voted_block desc a of
          None \<Rightarrow> Some dv
        | Some block \<Rightarrow>
            if dv_count dv = 1 \<and> sent_block_get_id (dv_blocks dv ! 0) = sent_block_get_id block then Some dv
            else Some \<lparr> dv_blocks = (dv_blocks dv)[dv_count dv := block],
                        dv_attempts = (dv_attempts dv)[dv_count dv := ?s], dv_count = dv_count dv + 1 \<rparr>)
     else Some dv)"
    by (cases "voted_block desc a") (simp_all add: diversed_step_def get_voted_block_total [OF assms(1,2)])
  show thesis
  proof (cases "\<exists>block. voted_block desc a = Some block \<and> dv_count dv \<le> 1 \<and>
      \<not> (dv_count dv = 1 \<and> sent_block_get_id (dv_blocks dv ! 0) = sent_block_get_id block)")
    case True
    then obtain block where block: "voted_block desc a = Some block" "dv_count dv \<le> 1"
      "\<not> (dv_count dv = 1 \<and> sent_block_get_id (dv_blocks dv ! 0) = sent_block_get_id block)" by blast
    define dv' where "dv' = \<lparr> dv_blocks = (dv_blocks dv)[dv_count dv := block],
                        dv_attempts = (dv_attempts dv)[dv_count dv := ?s], dv_count = dv_count dv + 1 \<rparr>"
    have step: "diversed_step desc a dv = Some dv'" using eq block by (auto simp: dv'_def)
    consider "dv_count dv = 0" | "dv_count dv = 1" using block(2) by linarith
    then show thesis
    proof cases
      case 1
      with assms(3,4) step show thesis by (intro that [of dv']) (auto simp: dv'_def diversed_ok_def)
    next
      case 2
      with assms(4,5) step show thesis by (intro that [of dv']) (auto simp: dv'_def diversed_ok_def)
    qed
  next
    case False
    then have "diversed_step desc a dv = Some dv" using eq by (auto split: option.splits)
    with False assms(4) show thesis by (intro that [of dv]) (auto simp: diversed_ok_def)
  qed
qed

lemma merge_attempts_loop_total:
  assumes "wf_desc desc" and "\<And>a. a \<in> set as \<Longrightarrow> wf_attempt desc a \<and> ra_sequence_number a \<noteq> 0"
    and "sorted_wrt (\<lambda>x y. ra_sequence_number y < ra_sequence_number x) as" and "diversed_ok dv"
    and "\<And>a. a \<in> set as \<Longrightarrow> 1 \<le> dv_count dv \<Longrightarrow> ra_sequence_number a < dv_attempts dv ! 0"
  shows "\<exists>dv'. merge_attempts_loop desc as p dv =
      Some (if p = None then Option.bind (List.find (attempt_precommitted desc) as) (voted_block desc) else p, dv') \<and>
    diversed_ok dv' \<and> dv_count dv \<le> dv_count dv' \<and> (dv_count dv' = 0 \<longrightarrow> (\<forall>a \<in> set as. voted_block desc a = None))"
  using assms(2-)
proof (induction as arbitrary: p dv)
  case (Cons a as)
  have a: "wf_attempt desc a" "ra_sequence_number a \<noteq> 0" using Cons.prems(1) by auto
  obtain dv1 where dv1: "diversed_step desc a dv = Some dv1" "diversed_ok dv1" "dv_count dv \<le> dv_count dv1"
    "dv_count dv1 = 0 \<Longrightarrow> voted_block desc a = None"
    "\<And>s. s < ra_sequence_number a \<Longrightarrow> 1 \<le> dv_count dv1 \<Longrightarrow> (1 \<le> dv_count dv \<Longrightarrow> s < dv_attempts dv ! 0) \<Longrightarrow> s < dv_attempts dv1 ! 0"
    using diversed_step_total [OF assms(1) a Cons.prems(3)] Cons.prems(4) [of a] by (metis list.set_intros(1))
  let ?p = "if p = None \<and> attempt_precommitted desc a then voted_block desc a else p"
  have voted: "voted_block desc a \<noteq> None" if "attempt_precommitted desc a"
    using precommitted_by_attempt_total(2) [OF assms(1) a(1) that] .
  have run: "merge_attempts_loop desc (a # as) p dv =
    (if ?p \<noteq> None \<and> dv_count dv1 = 2 then Some (?p, dv1) else merge_attempts_loop desc as ?p dv1)"
    using voted by (auto simp: dv1(1) check_attempt_is_precommitted_total [OF assms(1) a(1)]
        get_voted_block_total [OF assms(1) a(1)])
  have result: "(if p = None then Option.bind (List.find (attempt_precommitted desc) (a # as)) (voted_block desc) else p) =
    (if ?p = None then Option.bind (List.find (attempt_precommitted desc) as) (voted_block desc) else ?p)"
    using voted by auto
  show ?case
  proof (cases "?p \<noteq> None \<and> dv_count dv1 = 2")
    case True
    with run result dv1 show ?thesis by auto
  next
    case False
    have bound: "ra_sequence_number x < dv_attempts dv1 ! 0" if "x \<in> set as" "1 \<le> dv_count dv1" for x
      using that Cons.prems(2) Cons.prems(4) [of x] by (intro dv1(5)) auto
    obtain dv2 where "merge_attempts_loop desc as ?p dv1 =
        Some (if ?p = None then Option.bind (List.find (attempt_precommitted desc) as) (voted_block desc) else ?p, dv2)"
      "diversed_ok dv2" "dv_count dv1 \<le> dv_count dv2" "dv_count dv2 = 0 \<longrightarrow> (\<forall>a \<in> set as. voted_block desc a = None)"
      using Cons.IH [of dv1 ?p] Cons.prems(1,2) dv1(2) bound by auto
    with False run result dv1(3,4) show ?thesis by auto
  qed
qed simp

subsection \<open>Merging is total and joins the four relations\<close>

text \<open>What a merged round is: it says exactly what one of the two rounds says.\<close>

definition round_merged :: "nat \<Rightarrow> round_state \<Rightarrow> round_state \<Rightarrow> round_state \<Rightarrow> bool" where
  "round_merged n l r m \<longleftrightarrow>
     rs_sequence_number m = rs_sequence_number l \<and>
     (\<forall>b. \<forall>i < n. round_approval m b i \<longleftrightarrow> round_approval l b i \<or> round_approval r b i) \<and>
     (\<forall>s b. \<forall>i < n. round_vote m s b i \<longleftrightarrow> round_vote l s b i \<or> round_vote r s b i) \<and>
     (\<forall>s. \<forall>i < n. round_precommit m s i \<longleftrightarrow> round_precommit l s i \<or> round_precommit r s i) \<and>
     (\<forall>i < n. rs_signatures m ! i = combine_options min (rs_signatures l ! i) (rs_signatures r ! i)) \<and>
     (\<forall>block. rs_precommitted_block l = Some block \<or> rs_precommitted_block r = Some block \<longrightarrow>
        rs_precommitted_block m = Some block)"

lemma round_merged_voted:
  assumes "round_merged (nodes_count desc) l r m"
  shows "round_approved desc l b \<or> round_approved desc r b \<Longrightarrow> round_approved desc m b"
    and "round_voted desc l s b \<or> round_voted desc r s b \<Longrightarrow> round_voted desc m s b"
    and "round_precommitted desc l s \<or> round_precommitted desc r s \<Longrightarrow> round_precommitted desc m s"
  using assms round_approved_mono [of desc _ b m] round_voted_mono [of desc _ s b m] round_precommitted_mono [of desc _ s m]
  by (auto simp: round_merged_def)

definition diversed_init :: diversed where
  "diversed_init = \<lparr> dv_blocks = [None, None], dv_attempts = [0, 0], dv_count = 0 \<rparr>"

text \<open>The merge, with the merges of its components evaluated.\<close>

lemma round_merge_eq:
  assumes "no_collisions desc B" and "wf_round desc B l" and "wf_round desc B r" and "round_compatible l r"
  shows "round_merge desc l r =
    do { (pb, dv) \<leftarrow> merge_attempts_loop desc (rev (vector_wrapper_iter (merged_attempts l r))) (merged_precommitted l r) diversed_init;
         rs_assert (dv_count dv \<ge> 1 \<longrightarrow> dv_attempts dv ! 0 > dv_attempts dv ! 1);
         lp \<leftarrow> vector_wrapper_merge_impl (rs_last_precommit l) (rs_last_precommit r) True (last_precommit_merge_fn dv);
         Some \<lparr> rs_precommitted_block = pb, rs_sequence_number = rs_sequence_number l,
                rs_first_attempt = merged_first_attempt l r, rs_last_precommit = lp,
                rs_sent_blocks = merged_blocks l r,
                rs_signatures = list_join (combine_options min) (rs_signatures l) (rs_signatures r),
                rs_attempts = merged_attempts l r \<rparr> }"
proof -
  note wf = wf_roundD [OF assms(2)] wf_roundD [OF assms(3)]
  have seq: "rs_sequence_number l = rs_sequence_number r" using assms(4) by (simp add: round_compatible_def)
  have first: "vector_wrapper_merge_impl (rs_first_attempt l) (rs_first_attempt r) False (\<lambda>l r. Some (first_attempt_merge_fn l r)) =
    Some (merged_first_attempt l r)"
    unfolding merged_first_attempt_def by (rule vector_wrapper_merge_total) (rule first_attempt_join.mergeable_axioms)
  note pre = precommitted_merge_total [OF assms(1) wf(4,8) assms(4)]
  show ?thesis
    unfolding round_merge_def
    using pre(3)
    by (simp add: seq first attempts_merge_total [OF wf(3,7)] blocks_merge_total [OF wf(2,6)] pre(1)
        signatures_join.merge_total diversed_init_def)
qed

lemma merged_attempts_wf':
  assumes "wf_round desc B l" and "wf_round desc B r"
  defines "m \<equiv> l\<lparr>rs_attempts := merged_attempts l r, rs_sent_blocks := merged_blocks l r\<rparr>"
  shows "wf_round_attempts desc B m"
    and "i < nodes_count desc \<Longrightarrow> round_vote m s b i \<longleftrightarrow> round_vote l s b i \<or> round_vote r s b i"
    and "i < nodes_count desc \<Longrightarrow> round_precommit m s i \<longleftrightarrow> round_precommit l s i \<or> round_precommit r s i"
    and "i < nodes_count desc \<Longrightarrow> round_approval m b i \<longleftrightarrow> round_approval l b i \<or> round_approval r b i"
    and "round_attempts m = vector_wrapper_iter (merged_attempts l r)"
proof -
  note wf = wf_roundD [OF assms(1)] wf_roundD [OF assms(2)]
  have m: "rs_attempts m = merged_attempts l r" "rs_sent_blocks m = merged_blocks l r" by (simp_all add: m_def)
  note approval = merged_approval [OF wf(2,6) _ m(2)]
  then show "i < nodes_count desc \<Longrightarrow> round_approval m b i \<longleftrightarrow> round_approval l b i \<or> round_approval r b i" .
  show "wf_round_attempts desc B m"
    by (rule merged_attempts_wf [OF wf(3,7) m(1)]; rule round_approved_mono) (auto simp: approval)
  show "i < nodes_count desc \<Longrightarrow> round_vote m s b i \<longleftrightarrow> round_vote l s b i \<or> round_vote r s b i"
    "i < nodes_count desc \<Longrightarrow> round_precommit m s i \<longleftrightarrow> round_precommit l s i \<or> round_precommit r s i"
    by (rule merged_vote [OF wf(3,7) _ m(1)], assumption)+
  show "round_attempts m = vector_wrapper_iter (merged_attempts l r)" by (simp add: m round_attempts_def)
qed

lemma merge_loop_result:
  assumes "wf_desc desc" and "wf_round desc B l" and "wf_round desc B r"
  obtains dv where "merge_attempts_loop desc (rev (vector_wrapper_iter (merged_attempts l r))) p diversed_init =
      Some (if p = None then Option.bind (List.find (attempt_precommitted desc) (rev (vector_wrapper_iter (merged_attempts l r))))
              (voted_block desc) else p, dv)"
    "diversed_ok dv" "dv_count dv = 0 \<Longrightarrow> a \<in> set (vector_wrapper_iter (merged_attempts l r)) \<Longrightarrow> voted_block desc a = None"
proof -
  note m = merged_attempts_wf' [OF assms(2,3)]
  let ?as = "vector_wrapper_iter (merged_attempts l r)"
  have "sorted_wrt (\<lambda>x y. ra_sequence_number y < ra_sequence_number x) (rev ?as)"
    using m(1,5) by (simp add: wf_round_attempts_def key_sorted_def sorted_wrt_rev sorted_wrt_map)
  moreover have "wf_attempt desc a \<and> ra_sequence_number a \<noteq> 0" if "a \<in> set (rev ?as)" for a
    using that wf_round_attemptD [OF m(1), of a] m(5) by simp
  moreover have "diversed_ok diversed_init" "dv_count diversed_init = 0"
    by (simp_all add: diversed_ok_def diversed_init_def)
  ultimately obtain dv where "merge_attempts_loop desc (rev ?as) p diversed_init =
      Some (if p = None then Option.bind (List.find (attempt_precommitted desc) (rev ?as)) (voted_block desc) else p, dv)"
    "diversed_ok dv" "dv_count dv = 0 \<longrightarrow> (\<forall>a \<in> set (rev ?as). voted_block desc a = None)"
    using merge_attempts_loop_total [OF assms(1), of "rev ?as" diversed_init p] by auto
  then show thesis by (intro that) auto
qed

definition last_precommit_join :: "diversed \<Rightarrow> u32 \<Rightarrow> u32 \<Rightarrow> u32" where
  "last_precommit_join dv x y = (if dv_count dv \<noteq> 0 \<and> max x y \<le> dv_attempts dv ! 1 then 0 else max x y)"

text \<open>
  The last precommits can be merged: as long as one of them is set, the attempt it names has a voted
  block, so the loop found one.
\<close>

lemma last_precommit_merge_total:
  assumes "wf_desc desc" and "wf_round desc B l" and "wf_round desc B r"
    and "rs_last_precommit l = Some ls" and "rs_last_precommit r = Some rs"
    and "dv_count dv = 0 \<Longrightarrow> (\<And>a. a \<in> set (vector_wrapper_iter (merged_attempts l r)) \<Longrightarrow> voted_block desc a = None)"
  shows "vector_wrapper_merge_impl (rs_last_precommit l) (rs_last_precommit r) True (last_precommit_merge_fn dv) =
    Some (Some (map2 (last_precommit_join dv) ls rs))"
proof -
  note m = merged_attempts_wf' [OF assms(2,3)]
  let ?m = "l\<lparr>rs_attempts := merged_attempts l r, rs_sent_blocks := merged_blocks l r\<rparr>"
  have len: "length ls = nodes_count desc" "length rs = nodes_count desc"
    using assms(4,5) wf_roundD(1) [OF assms(2)] wf_roundD(1) [OF assms(3)] by (auto simp: wf_round_vectors_def)
  have zero: "s = 0" if "dv_count dv = 0" "s \<in> set ls \<union> set rs" for s
  proof (rule ccontr)
    assume "s \<noteq> 0"
    with that(2) assms(4,5) obtain b where "round_voted desc l s b \<or> round_voted desc r s b"
      using wf_round_decisionsD(1) [OF wf_roundD(4) [OF assms(2)], of s]
        wf_round_decisionsD(1) [OF wf_roundD(4) [OF assms(3)], of s] by auto
    then have "round_voted desc ?m s b"
      using round_voted_mono [of desc l s b ?m] round_voted_mono [of desc r s b ?m] m(2) by auto
    then obtain a block where "a \<in> set (round_attempts ?m)" "voted_block desc a = Some block"
      using last_precommit_voted [OF assms(1) m(1)] by metis
    with assms(6) [OF that(1)] m(5) show False by auto
  qed
  have "last_precommit_merge_fn dv (ls ! i) (rs ! i) = Some (last_precommit_join dv (ls ! i) (rs ! i))" if "i < length ls" for i
    using that len zero [of "ls ! i"] zero [of "rs ! i"]
    by (auto simp: last_precommit_merge_fn_def last_precommit_join_def Let_def less_max_iff_disj)
  then show ?thesis
    using assms(4,5) len by (simp add: vector_wrapper_merge_impl_def vector_merge_impl_all)
qed

text \<open>The precommitted block of the merged round is backed by a precommitted attempt.\<close>

lemma merged_precommitted_backed:
  assumes "wf_desc desc" and "wf_round_attempts desc B m"
    and "Option.bind (List.find (attempt_precommitted desc) (rev (round_attempts m))) (voted_block desc) = Some block"
  shows "known_block desc B block \<and> (\<exists>s. round_precommitted desc m s \<and> round_voted desc m s (sent_block_get_id block))"
proof -
  obtain a where a: "a \<in> set (round_attempts m)" "attempt_precommitted desc a" "voted_block desc a = Some block"
    using assms(3) by (cases "List.find (attempt_precommitted desc) (rev (round_attempts m))") (auto dest!: find_SomeD)
  moreover have "attempt_voted desc a (sent_block_get_id block)"
    using voted_block_SomeD(1) [OF assms(1) wf_round_attemptD(1) [OF assms(2) a(1)] a(3)] .
  ultimately show ?thesis
    using voted_block_approved [OF assms(1,2) a(1,3)] round_vote_of_attempt(3,4) [OF assms(2) a(1)]
    by (auto simp: round_approved_block_def)
qed

lemma wf_round_decisions_merged:
  assumes merged: "round_merged (nodes_count desc) l r m" and "wf_desc desc" and "wf_round desc B l" and "wf_round desc B r"
    and "wf_round_attempts desc B m"
    and lp: "\<And>s. s \<in> set (vector_wrapper_iter (rs_last_precommit m)) \<Longrightarrow> s \<noteq> 0 \<Longrightarrow>
      s \<in> set (vector_wrapper_iter (rs_last_precommit l)) \<union> set (vector_wrapper_iter (rs_last_precommit r))"
    and pb: "rs_precommitted_block m = (if merged_precommitted l r = None
      then Option.bind (List.find (attempt_precommitted desc) (rev (round_attempts m))) (voted_block desc)
      else merged_precommitted l r)"
  shows "wf_round_decisions desc B m"
  unfolding wf_round_decisions_def
proof (intro conjI allI ballI impI)
  note dl = wf_round_decisionsD [OF wf_roundD(4) [OF assms(3)]] and dr = wf_round_decisionsD [OF wf_roundD(4) [OF assms(4)]]
  note up = round_merged_voted [OF merged]
  show "\<exists>b. round_voted desc m s b" if "s \<in> set (vector_wrapper_iter (rs_last_precommit m))" "s \<noteq> 0" for s
    using lp [OF that] dl(1) dr(1) that(2) up(2) by blast
  have "known_block desc B block \<and> (\<exists>s. round_precommitted desc m s \<and> round_voted desc m s (sent_block_get_id block))"
    if "rs_precommitted_block m = Some block" for block
  proof (cases "merged_precommitted l r")
    case None
    with that pb show ?thesis by (intro merged_precommitted_backed [OF assms(2,5)]) auto
  next
    case (Some b)
    with that pb have "rs_precommitted_block l = Some block \<or> rs_precommitted_block r = Some block"
      by (auto simp: merged_precommitted_def split: option.splits)
    then show ?thesis using dl(2,3) dr(2,3) up(2,3) by blast
  qed
  then show "known_block desc B block" "\<exists>s. round_precommitted desc m s \<and> round_voted desc m s (sent_block_get_id block)"
    if "rs_precommitted_block m = Some block" for block using that by auto
  show "rs_precommitted_block m \<noteq> None" if "\<exists>i < nodes_count desc. round_signed m i"
  proof -
    from that obtain i where i: "i < nodes_count desc" "round_signed m i" by blast
    then have "round_signed l i \<or> round_signed r i"
      using merged by (auto simp: round_merged_def round_signed_def)
    then have "rs_precommitted_block l \<noteq> None \<or> rs_precommitted_block r \<noteq> None" using i(1) dl(4) dr(4) by blast
    then show ?thesis using merged by (auto simp: round_merged_def)
  qed
qed

lemma round_merge_total:
  assumes "wf_desc desc" and "no_collisions desc B" and "wf_round desc B l" and "wf_round desc B r" and "round_compatible l r"
  shows "\<exists>m. round_merge desc l r = Some m \<and> wf_round desc B m \<and> round_merged (nodes_count desc) l r m"
proof -
  note wf = wf_roundD [OF assms(3)] wf_roundD [OF assms(4)] and rel = merged_attempts_wf' [OF assms(3,4)]
  let ?as = "vector_wrapper_iter (merged_attempts l r)"
  let ?m = "l\<lparr>rs_attempts := merged_attempts l r, rs_sent_blocks := merged_blocks l r\<rparr>"
  define pb where "pb = (if merged_precommitted l r = None
    then Option.bind (List.find (attempt_precommitted desc) (rev ?as)) (voted_block desc) else merged_precommitted l r)"
  obtain dv where dv: "merge_attempts_loop desc (rev ?as) (merged_precommitted l r) diversed_init = Some (pb, dv)"
    "diversed_ok dv" "\<And>a. dv_count dv = 0 \<Longrightarrow> a \<in> set ?as \<Longrightarrow> voted_block desc a = None"
    unfolding pb_def using merge_loop_result [OF assms(1,3,4)] by metis
  obtain ls rs where lp: "rs_last_precommit l = Some ls" "rs_last_precommit r = Some rs"
    "length ls = nodes_count desc" "length rs = nodes_count desc"
    using wf(1,5) by (auto simp: wf_round_vectors_def)
  have ordered: "dv_count dv \<ge> 1 \<longrightarrow> dv_attempts dv ! 0 > dv_attempts dv ! 1"
  proof (cases "dv_count dv = 1")
    case True
    then have "dv_attempts dv ! 1 = 0" "0 < dv_attempts dv ! 0"
      using dv(2) word_neq_0_conv by (auto simp: diversed_ok_def)
    then show ?thesis by simp
  qed (use dv(2) in \<open>auto simp: diversed_ok_def\<close>)
  define m where "m = \<lparr> rs_precommitted_block = pb, rs_sequence_number = rs_sequence_number l,
    rs_first_attempt = merged_first_attempt l r, rs_last_precommit = Some (map2 (last_precommit_join dv) ls rs),
    rs_sent_blocks = merged_blocks l r,
    rs_signatures = list_join (combine_options min) (rs_signatures l) (rs_signatures r), rs_attempts = merged_attempts l r \<rparr>"
  have run: "round_merge desc l r = Some m"
    using ordered by (simp add: round_merge_eq [OF assms(2-5)] dv(1) m_def
        last_precommit_merge_total [OF assms(1,3,4) lp(1,2) dv(3)])
  have "round_vote m = round_vote ?m" "round_precommit m = round_precommit ?m" "round_approval m = round_approval ?m"
    by (rule round_relations_cong, simp add: m_def)+
  then have merged: "round_merged (nodes_count desc) l r m"
    using rel(2-4) wf(1,5) precommitted_merge_total(2) [OF assms(2) wf(4,8) assms(5)]
    by (auto simp: round_merged_def m_def pb_def nth_list_join wf_round_vectors_def merged_precommitted_def split: option.splits)
  have as: "round_attempts m = ?as" by (simp add: m_def round_attempts_def)
  have approved: "round_approved desc m b" if "round_approved desc l b \<or> round_approved desc r b" for b
    using round_merged_voted(1) [OF merged that] .
  have wfa: "wf_round_attempts desc B m" using approved by (intro merged_attempts_wf [OF wf(3,7)]) (auto simp: m_def)
  have "s \<in> set ls \<union> set rs" if "s \<in> set (map2 (last_precommit_join dv) ls rs)" "s \<noteq> 0" for s
    using that by (auto simp: last_precommit_join_def max_def dest: set_zip_leftD set_zip_rightD split: if_splits)
  then have "wf_round_decisions desc B m"
    using lp by (intro wf_round_decisions_merged [OF merged assms(1,3,4) wfa]) (auto simp: m_def pb_def as round_attempts_def)
  moreover have "wf_round_blocks desc B m"
    using assms(5) by (intro merged_blocks_wf [OF wf(2,6)]) (auto simp: m_def round_compatible_def)
  moreover have "wf_round_vectors desc m"
    using wf(1,5) lp by (auto simp: wf_round_vectors_def m_def merged_first_attempt_def)
  ultimately have "wf_round desc B m" using wfa by (simp add: wf_round_def)
  with run merged show ?thesis by blast
qed

subsection \<open>Merging is commutative\<close>

lemma vector_merge_items_commute:
  assumes "\<And>x y. f x y = f y x"
  shows "vector_merge_items merge_all f ls rs = vector_merge_items merge_all f rs ls"
proof (induction ls arbitrary: rs)
  case Nil
  have "vector_merge_items merge_all f [] rs = vector_merge_items merge_all f rs []"
    by (induction rs) simp_all
  then show ?case .
next
  case (Cons l ls)
  then show ?case
  proof (cases rs)
    case Nil
    have "vector_merge_items merge_all f xs [] = vector_merge_items merge_all f [] xs" for xs
      by (induction xs) simp_all
    with Nil show ?thesis by simp
  next
    case r: (Cons r rs')
    then show ?thesis using Cons.IH [of rs'] assms [of l r] by simp
  qed
qed

lemma last_precommit_merge_commute:
  "vector_wrapper_merge_impl l r True (last_precommit_merge_fn dv) =
     vector_wrapper_merge_impl r l True (last_precommit_merge_fn dv)"
proof -
  have "last_precommit_merge_fn dv x y = last_precommit_merge_fn dv y x" for x y
    by (simp add: last_precommit_merge_fn_def max.commute)
  then have "vector_merge_items True (last_precommit_merge_fn dv) xs ys = vector_merge_items True (last_precommit_merge_fn dv) ys xs" for xs ys
    by (rule vector_merge_items_commute)
  then show ?thesis
    by (cases l; cases r) (simp_all add: vector_wrapper_merge_impl_def vector_merge_impl_def)
qed

lemma known_attempt_blocks:
  assumes "wf_round_attempts desc B r" and "a \<in> set (round_attempts r)"
  shows "v \<in> set (attempt_votes a) \<Longrightarrow> known_block desc B (vc_block v)"
    and "ra_vote_for a = Some block \<Longrightarrow> known_block desc B block"
  using wf_round_attemptD(2) [OF assms] by (auto simp: attempt_blocks_def round_approved_block_def)

lemma merged_attempts_commute:
  assumes "no_collisions desc B" and "wf_round_attempts desc B l" and "wf_round_attempts desc B r"
  shows "merged_attempts l r = merged_attempts r l"
proof (cases "rs_attempts l"; cases "rs_attempts r")
  fix xs ys assume eq: "rs_attempts l = Some xs" "rs_attempts r = Some ys"
  have "attempt_join a b = attempt_join b a"
    if "a \<in> set (round_attempts l)" "b \<in> set (round_attempts r)" "ra_sequence_number a = ra_sequence_number b" for a b
  proof (rule attempt_join_commute [OF wf_round_attemptD(1) [OF assms(2) that(1)] wf_round_attemptD(1) [OF assms(3) that(2)] that(3)])
    note known = known_attempt_blocks [OF assms(2) that(1)] known_attempt_blocks [OF assms(3) that(2)]
    show "vc_block v = vc_block w" if "v \<in> set (attempt_votes a)" "w \<in> set (attempt_votes b)"
      "vote_candidate_get_id v = vote_candidate_get_id w" for v w
      using that known by (intro known_block_inject [OF assms(1)]) (auto simp: vote_candidate_get_id_def)
    show "x = y" if "ra_vote_for a = Some x" "ra_vote_for b = Some y" "sent_block_get_id x = sent_block_get_id y" for x y
      using that known by (intro known_block_inject [OF assms(1)]) auto
  qed
  then have "key_merge ra_sequence_number attempt_join xs ys = key_merge ra_sequence_number attempt_join ys xs"
    using eq assms(2,3) by (intro key_merge_commute) (auto simp: wf_round_attempts_def round_attempts_def)
  with eq show ?thesis by (simp add: merged_attempts_def)
qed (simp_all add: merged_attempts_def)

lemma merged_blocks_commute:
  assumes "no_collisions desc B" and "wf_round_blocks desc B l" and "wf_round_blocks desc B r"
  shows "merged_blocks l r = merged_blocks r l"
proof (cases "rs_sent_blocks l"; cases "rs_sent_blocks r")
  fix xs ys assume eq: "rs_sent_blocks l = Some xs" "rs_sent_blocks r = Some ys"
  have "block_candidate_join c d = block_candidate_join d c"
    if "c \<in> set xs" "d \<in> set ys" "block_candidate_get_id c = block_candidate_get_id d" for c d
    using that eq assms by (intro block_candidate_join_commute known_block_inject [OF assms(1)])
      (auto simp: wf_round_blocks_def round_blocks_def block_candidate_get_id_eq)
  then have "key_merge block_candidate_get_id block_candidate_join xs ys = key_merge block_candidate_get_id block_candidate_join ys xs"
    using eq assms(2,3) by (intro key_merge_commute) (auto simp: wf_round_blocks_def round_blocks_def)
  with eq show ?thesis by (simp add: merged_blocks_def)
qed (simp_all add: merged_blocks_def)

lemma round_merge_commute:
  assumes "no_collisions desc B" and "wf_round desc B l" and "wf_round desc B r" and "round_compatible l r"
  shows "round_merge desc l r = round_merge desc r l"
proof -
  note wf = wf_roundD [OF assms(2)] wf_roundD [OF assms(3)]
  have compatible: "round_compatible r l" and seq: "rs_sequence_number l = rs_sequence_number r"
    using assms(4) by (auto simp: round_compatible_def)
  have "merged_first_attempt l r = merged_first_attempt r l"
    by (cases "rs_first_attempt l"; cases "rs_first_attempt r")
      (auto simp: merged_first_attempt_def intro!: list_join_commute first_attempt_join.join_commute)
  then show ?thesis
    unfolding round_merge_eq [OF assms] round_merge_eq [OF assms(1,3,2) compatible]
      precommitted_merge_total(2) [OF assms(1) wf(4,8) assms(4)]
      merged_attempts_commute [OF assms(1) wf(3,7)] merged_blocks_commute [OF assms(1) wf(2,6)] seq
      signatures_join.join_commute [of "rs_signatures l"] last_precommit_merge_commute [of "rs_last_precommit l"]
    by simp
qed

end
