(* ===== verification/VS_Old_Round.thy ===== *)
theory VS_Old_Round
  imports VS_Round_Merge
begin

text \<open>
  A round that has been decided (\<^verbatim>\<open>validator-session/src/old_round.rs\<close>): the committed block with its
  commit and approve signatures. Only late approvals and signatures of that block change it.
\<close>

subsection \<open>State and creation\<close>

record old_round =
  or_sequence_number :: u32
  or_block :: sent_block_ptr
  or_signatures :: "block_candidate_signature_ptr list"
  or_approve_signatures :: "block_candidate_signature_ptr list"

definition create_from_round :: "session_description \<Rightarrow> round_state \<Rightarrow> old_round option" where
  "create_from_round desc round =
     do { block \<leftarrow> get_precommitted_block round;
          signed \<leftarrow> check_block_is_signed desc round;
          rs_assert signed;
          block_candidate \<leftarrow> get_block round (sent_block_get_id block);
          Some \<lparr> or_sequence_number = rs_sequence_number round, or_block = block,
                 or_signatures = rs_signatures round,
                 or_approve_signatures = bc_approved_by block_candidate \<rparr> }"

definition old_round_get_block_id :: "old_round \<Rightarrow> block_id" where
  "old_round_get_block_id self = sent_block_get_id (or_block self)"

definition old_round_check_block_is_approved_by :: "old_round \<Rightarrow> u32 \<Rightarrow> bool option" where
  "old_round_check_block_is_approved_by self src_idx =
     do { s \<leftarrow> vector_at (or_approve_signatures self) (unat src_idx); Some (s \<noteq> None) }"

definition old_round_check_block_is_signed_by :: "old_round \<Rightarrow> u32 \<Rightarrow> bool option" where
  "old_round_check_block_is_signed_by self src_idx =
     do { s \<leftarrow> vector_at (or_signatures self) (unat src_idx); Some (s \<noteq> None) }"

subsection \<open>Merging\<close>

text \<open>Merge a state of the same round that another validator has not decided yet.\<close>

definition old_round_merge_round :: "old_round \<Rightarrow> round_state \<Rightarrow> old_round option" where
  "old_round_merge_round left right =
     do { rs_assert (or_sequence_number left = rs_sequence_number right);
          let signed_block = get_block right (old_round_get_block_id left);
          signatures \<leftarrow> signature_vector_merge (or_signatures left) (rs_signatures right);
          approve_signatures \<leftarrow>
            (case signed_block of
               Some c \<Rightarrow> signature_vector_merge (or_approve_signatures left) (bc_approved_by c)
             | None \<Rightarrow> Some (or_approve_signatures left));
          Some \<lparr> or_sequence_number = or_sequence_number left, or_block = or_block left,
                 or_signatures = signatures, or_approve_signatures = approve_signatures \<rparr> }"

definition old_round_merge :: "old_round \<Rightarrow> old_round \<Rightarrow> old_round option" where
  "old_round_merge left right =
     do { rs_assert (or_sequence_number left = or_sequence_number right);
          signatures \<leftarrow> signature_vector_merge (or_signatures left) (or_signatures right);
          approve_signatures \<leftarrow> signature_vector_merge (or_approve_signatures left) (or_approve_signatures right);
          Some \<lparr> or_sequence_number = or_sequence_number left, or_block = or_block left,
                 or_signatures = signatures, or_approve_signatures = approve_signatures \<rparr> }"

subsection \<open>Late messages\<close>

definition old_round_apply_approved_block_action ::
  "session_description \<Rightarrow> old_round \<Rightarrow> u32 \<Rightarrow> block_id \<Rightarrow> block_signature \<Rightarrow> old_round \<Rightarrow> old_round option" where
  "old_round_apply_approved_block_action desc self src_idx candidate signature default_state =
     (if candidate \<noteq> old_round_get_block_id self then Some default_state
      else
        do { s \<leftarrow> vector_at (or_approve_signatures self) (unat src_idx);
             if s \<noteq> None then Some default_state
             else
               do { signature_ok \<leftarrow>
                      (if candidate \<noteq> SKIP_ROUND_CANDIDATE_BLOCKID
                       then do { b \<leftarrow> or_block self;
                                 check_approve_signature desc (sb_root_hash b) (sb_file_hash b) src_idx signature }
                       else Some (length signature = 0));
                    if \<not> signature_ok then Some default_state
                    else do { approve_signatures \<leftarrow>
                                vector_change (or_approve_signatures self) (unat src_idx) (Some signature);
                              Some (self\<lparr>or_approve_signatures := approve_signatures\<rparr>) } } })"

definition old_round_apply_committed_block_action ::
  "session_description \<Rightarrow> old_round \<Rightarrow> u32 \<Rightarrow> block_id \<Rightarrow> block_signature \<Rightarrow> old_round \<Rightarrow> old_round option" where
  "old_round_apply_committed_block_action desc self src_idx candidate signature default_state =
     (if candidate \<noteq> old_round_get_block_id self then Some default_state
      else
        do { signature_ok \<leftarrow>
               (if candidate \<noteq> SKIP_ROUND_CANDIDATE_BLOCKID
                then do { b \<leftarrow> or_block self;
                          check_signature desc (sb_root_hash b) (sb_file_hash b) src_idx signature }
                else Some (length signature = 0));
             if \<not> signature_ok then Some default_state
             else
               do { signed \<leftarrow> old_round_check_block_is_signed_by self src_idx;
                    if signed then Some default_state
                    else do { signatures \<leftarrow> vector_change (or_signatures self) (unat src_idx) (Some signature);
                              Some (self\<lparr>or_signatures := signatures\<rparr>) } } })"

definition old_round_apply_action ::
  "session_description \<Rightarrow> old_round \<Rightarrow> u32 \<Rightarrow> message \<Rightarrow> old_round option" where
  "old_round_apply_action desc self src_idx message =
     (case message of
        ApprovedBlock _ candidate signature \<Rightarrow>
          old_round_apply_approved_block_action desc self src_idx candidate signature self
      | Commit _ candidate signature \<Rightarrow>
          old_round_apply_committed_block_action desc self src_idx candidate signature self
      | _ \<Rightarrow> Some self)"

subsection \<open>The invariant of a decided round\<close>

definition or_signed :: "old_round \<Rightarrow> nat \<Rightarrow> bool" where
  "or_signed d i \<longleftrightarrow> or_signatures d ! i \<noteq> None"

definition or_approved :: "old_round \<Rightarrow> nat \<Rightarrow> bool" where
  "or_approved d i \<longleftrightarrow> or_approve_signatures d ! i \<noteq> None"

text \<open>More than two thirds of the weight approved the committed block and signed it.\<close>

definition wf_old_round :: "session_description \<Rightarrow> submission set \<Rightarrow> u32 \<Rightarrow> old_round \<Rightarrow> bool" where
  "wf_old_round desc B s d \<longleftrightarrow>
     or_sequence_number d = s \<and> known_block desc B (or_block d) \<and>
     length (or_signatures d) = nodes_count desc \<and> length (or_approve_signatures d) = nodes_count desc \<and>
     cutoff_of desc \<le> weight_of desc (or_signed d) \<and> cutoff_of desc \<le> weight_of desc (or_approved d)"

text \<open>A decided round only gains signatures.\<close>

definition old_round_extends :: "nat \<Rightarrow> old_round \<Rightarrow> old_round \<Rightarrow> bool" where
  "old_round_extends n d d' \<longleftrightarrow> or_sequence_number d' = or_sequence_number d \<and> or_block d' = or_block d \<and>
     (\<forall>i < n. or_signed d i \<longrightarrow> or_signed d' i) \<and> (\<forall>i < n. or_approved d i \<longrightarrow> or_approved d' i)"

lemma old_round_extends_refl [simp]: "old_round_extends n d d"
  by (simp add: old_round_extends_def)

lemma old_round_extends_trans: "old_round_extends n d e \<Longrightarrow> old_round_extends n e f \<Longrightarrow> old_round_extends n d f"
  by (simp add: old_round_extends_def)

lemma wf_old_round_extends:
  assumes "wf_old_round desc B s d" and "old_round_extends (nodes_count desc) d d'"
    and "length (or_signatures d') = nodes_count desc" and "length (or_approve_signatures d') = nodes_count desc"
  shows "wf_old_round desc B s d'"
proof -
  have "weight_of desc (or_signed d) \<le> weight_of desc (or_signed d')" "weight_of desc (or_approved d) \<le> weight_of desc (or_approved d')"
    using assms(2) by (auto simp: old_round_extends_def intro!: weight_of_mono)
  with assms show ?thesis by (auto simp: wf_old_round_def old_round_extends_def)
qed

subsection \<open>A signed round becomes a decided round\<close>

lemma check_block_is_signed_total:
  "wf_desc desc \<Longrightarrow> wf_round_vectors desc r \<Longrightarrow>
     check_block_is_signed desc r = Some (cutoff_of desc \<le> weight_of desc (round_signed r))"
  unfolding check_block_is_signed_def
  by (rule cutoff_reached_total) (simp_all add: round_signed_def wf_round_vectors_def)

text \<open>The precommitted block of a round was voted for, so it was approved.\<close>

lemma precommitted_approved:
  assumes "wf_desc desc" and "wf_round desc B r" and "rs_precommitted_block r = Some block"
  shows "round_approved desc r (sent_block_get_id block)"
proof -
  obtain s where s: "round_voted desc r s (sent_block_get_id block)"
    using wf_round_decisionsD(3) [OF wf_roundD(4) [OF assms(2)] assms(3)] by blast
  then obtain i where "round_vote r s (sent_block_get_id block) i"
    using vp.quorum_member [OF assms(1), of "round_vote r s (sent_block_get_id block)"] by (auto simp: round_voted_def)
  then obtain a where a: "a \<in> set (round_attempts r)" "attempt_vote a (sent_block_get_id block) i"
    by (auto simp: round_vote_def)
  then show ?thesis
    using attempt_blocks_vote [OF wf_round_attemptD(1,2) [OF wf_roundD(3) [OF assms(2)] a(1)] a(2)]
    by (auto simp: round_approved_block_def)
qed

lemma create_from_round_total:
  assumes "wf_desc desc" and "wf_round desc B r" and "cutoff_of desc \<le> weight_of desc (round_signed r)"
  shows "\<exists>d. create_from_round desc r = Some d \<and> wf_old_round desc B (rs_sequence_number r) d \<and>
    rs_precommitted_block r = Some (or_block d) \<and> or_signatures d = rs_signatures r"
proof -
  note wf = wf_roundD [OF assms(2)]
  obtain i where "i < nodes_count desc" "round_signed r i"
    using vp.quorum_member [OF assms(1), of "round_signed r"] assms(3) by blast
  then obtain block where block: "rs_precommitted_block r = Some block"
    using wf_round_decisionsD(4) [OF wf(4)] by blast
  obtain c where c: "c \<in> set (round_blocks r)" "block_candidate_get_id c = sent_block_get_id block"
    "cutoff_of desc \<le> weight_of desc (approved_at c)"
    using precommitted_approved [OF assms(1,2) block] round_approved_iff [OF assms(1) wf(2)] by blast
  have wfc: "wf_block_candidate (nodes_count desc) c" using wf(2) c(1) by (simp add: wf_round_blocks_def)
  have "get_block r (sent_block_get_id block) = Some c"
    using key_map_member [of block_candidate_get_id "round_blocks r" c] wf(2) c
    by (simp add: get_block_eq wf_round_blocks_def)
  then have "create_from_round desc r = Some \<lparr> or_sequence_number = rs_sequence_number r, or_block = block,
      or_signatures = rs_signatures r, or_approve_signatures = bc_approved_by c \<rparr>"
    using block assms(3)
    by (simp add: create_from_round_def get_precommitted_block_def check_block_is_signed_total [OF assms(1) wf(1)])
  then show ?thesis
    using wf(1) wfc c(3) block assms(3) wf_round_decisionsD(2) [OF wf(4) block]
    by (auto simp: wf_old_round_def wf_round_vectors_def wf_block_candidate_def or_signed_def [abs_def]
        or_approved_def [abs_def] round_signed_def [abs_def] approved_at_def [abs_def])
qed

subsection \<open>Late messages and merges\<close>

lemma old_round_apply_action_total:
  assumes "wf_old_round desc B s d" and "unat i < nodes_count desc"
  shows "\<exists>d'. old_round_apply_action desc d i m = Some d' \<and> wf_old_round desc B s d' \<and> old_round_extends (nodes_count desc) d d'"
proof -
  have len: "length (or_signatures d) = nodes_count desc" "length (or_approve_signatures d) = nodes_count desc"
    using assms(1) by (simp_all add: wf_old_round_def)
  let ?a = "\<lambda>sig. d\<lparr>or_approve_signatures := (or_approve_signatures d)[unat i := Some sig]\<rparr>"
  let ?s = "\<lambda>sig. d\<lparr>or_signatures := (or_signatures d)[unat i := Some sig]\<rparr>"
  have ext: "old_round_extends (nodes_count desc) d (?a sig)" "old_round_extends (nodes_count desc) d (?s sig)" for sig
    using assms(2) by (auto simp: old_round_extends_def or_signed_def or_approved_def nth_list_update len)
  have wf: "wf_old_round desc B s (?a sig)" "wf_old_round desc B s (?s sig)" for sig
    using len ext by (auto intro!: wf_old_round_extends [OF assms(1)])
  have block: "\<exists>b. or_block d = Some b" if "sent_block_get_id (or_block d) \<noteq> 0"
    using that by (cases "or_block d") (auto simp: sent_block_get_id_def)
  have "old_round_apply_action desc d i m \<in> insert (Some d) (range (\<lambda>sig. Some (?a sig)) \<union> range (\<lambda>sig. Some (?s sig)))"
  proof (cases m)
    case (ApprovedBlock x b sig)
    show ?thesis
    proof (cases "b = 0")
      case False
      show ?thesis
      proof (cases "b = old_round_get_block_id d")
        case True
        then obtain blk where "or_block d = Some blk" using block False by (auto simp: old_round_get_block_id_def)
        moreover obtain ok where "check_approve_signature desc (sb_root_hash blk) (sb_file_hash blk) i sig = Some ok"
          using check_signature_total(1) [OF assms(2)] by blast
        ultimately show ?thesis
          using ApprovedBlock assms(2) len
          by (auto simp: old_round_apply_action_def old_round_apply_approved_block_action_def)
      qed (use ApprovedBlock in \<open>simp add: old_round_apply_action_def old_round_apply_approved_block_action_def\<close>)
    qed (use ApprovedBlock assms(2) len in \<open>auto simp: old_round_apply_action_def old_round_apply_approved_block_action_def\<close>)
  next
    case (Commit x b sig)
    show ?thesis
    proof (cases "b = 0")
      case False
      show ?thesis
      proof (cases "b = old_round_get_block_id d")
        case True
        then obtain blk where "or_block d = Some blk" using block False by (auto simp: old_round_get_block_id_def)
        moreover obtain ok where "check_signature desc (sb_root_hash blk) (sb_file_hash blk) i sig = Some ok"
          using check_signature_total(2) [OF assms(2)] by blast
        ultimately show ?thesis
          using Commit assms(2) len
          by (auto simp: old_round_apply_action_def old_round_apply_committed_block_action_def
              old_round_check_block_is_signed_by_def)
      qed (use Commit in \<open>simp add: old_round_apply_action_def old_round_apply_committed_block_action_def\<close>)
    qed (use Commit assms(2) len in \<open>auto simp: old_round_apply_action_def old_round_apply_committed_block_action_def
        old_round_check_block_is_signed_by_def\<close>)
  qed (simp_all add: old_round_apply_action_def)
  then show ?thesis using assms(1) ext wf by auto
qed

definition old_round_join :: "old_round \<Rightarrow> old_round \<Rightarrow> old_round" where
  "old_round_join l r = l\<lparr>or_signatures := list_join (combine_options min) (or_signatures l) (or_signatures r),
     or_approve_signatures := list_join (combine_options min) (or_approve_signatures l) (or_approve_signatures r)\<rparr>"

lemma old_round_merge_total:
  "or_sequence_number l = or_sequence_number r \<Longrightarrow> old_round_merge l r = Some (old_round_join l r)"
  by (simp add: old_round_merge_def old_round_join_def signatures_join.merge_total)

lemma signature_join_some:
  "length xs = n \<Longrightarrow> length ys = n \<Longrightarrow> i < n \<Longrightarrow>
     list_join (combine_options min) xs ys ! i \<noteq> None \<longleftrightarrow> xs ! i \<noteq> None \<or> ys ! i \<noteq> None"
  by (auto simp: nth_list_join combine_options_def split: option.splits)

lemma old_round_join_props:
  assumes "wf_old_round desc B s l" and "wf_old_round desc B s r"
  shows "wf_old_round desc B s (old_round_join l r)" and "old_round_extends (nodes_count desc) l (old_round_join l r)"
    and "or_block l = or_block r \<Longrightarrow> old_round_extends (nodes_count desc) r (old_round_join l r)"
    and "old_round_join l l = l"
    and "or_block l = or_block r \<Longrightarrow> old_round_join l r = old_round_join r l"
proof -
  have len: "length (or_signatures l) = nodes_count desc" "length (or_signatures r) = nodes_count desc"
    "length (or_approve_signatures l) = nodes_count desc" "length (or_approve_signatures r) = nodes_count desc"
    "or_sequence_number l = or_sequence_number r"
    using assms by (simp_all add: wf_old_round_def)
  show ext: "old_round_extends (nodes_count desc) l (old_round_join l r)"
    "or_block l = or_block r \<Longrightarrow> old_round_extends (nodes_count desc) r (old_round_join l r)"
    using len signature_join_some [OF len(1,2)] signature_join_some [OF len(3,4)]
    by (auto simp: old_round_extends_def old_round_join_def or_signed_def or_approved_def simp del: not_None_eq)
  show "wf_old_round desc B s (old_round_join l r)"
    using len by (intro wf_old_round_extends [OF assms(1) ext(1)]) (simp_all add: old_round_join_def)
  show "old_round_join l l = l" by (simp add: old_round_join_def signatures_join.join_idem)
  show "or_block l = or_block r \<Longrightarrow> old_round_join l r = old_round_join r l"
    using len(5) signatures_join.join_commute by (simp add: old_round_join_def)
qed

lemma old_round_merge_round_total:
  assumes "wf_old_round desc B s d" and "wf_round desc B r" and "rs_sequence_number r = s"
  shows "\<exists>d'. old_round_merge_round d r = Some d' \<and> wf_old_round desc B s d' \<and> old_round_extends (nodes_count desc) d d'"
proof -
  note wf = wf_roundD [OF assms(2)]
  let ?join = "list_join (combine_options min)"
  define as where "as = (case get_block r (old_round_get_block_id d) of
    Some c \<Rightarrow> ?join (or_approve_signatures d) (bc_approved_by c) | None \<Rightarrow> or_approve_signatures d)"
  define d' where "d' = d\<lparr>or_signatures := ?join (or_signatures d) (rs_signatures r), or_approve_signatures := as\<rparr>"
  have len: "length (or_signatures d) = nodes_count desc" "length (rs_signatures r) = nodes_count desc"
    "length (or_approve_signatures d) = nodes_count desc"
    using assms(1) wf(1) by (simp_all add: wf_old_round_def wf_round_vectors_def)
  have c: "length (bc_approved_by c) = nodes_count desc" if "get_block r b = Some c" for b c
    using that wf(2) by (auto simp: get_block_eq wf_round_blocks_def wf_block_candidate_def dest!: key_map_SomeD)
  have "old_round_merge_round d r = Some d'"
    using assms(1,3) by (simp add: old_round_merge_round_def wf_old_round_def signatures_join.merge_total d'_def as_def
        split: option.splits)
  moreover have lens: "length (or_signatures d') = nodes_count desc" "length (or_approve_signatures d') = nodes_count desc"
    using len c by (auto simp: d'_def as_def split: option.splits)
  moreover have ext: "old_round_extends (nodes_count desc) d d'"
    using signature_join_some [OF len(1,2)] signature_join_some [OF len(3) c]
    by (auto simp: old_round_extends_def d'_def as_def or_signed_def or_approved_def simp del: not_None_eq split: option.splits)
  ultimately show ?thesis using wf_old_round_extends [OF assms(1) ext lens] by blast
qed

end
