(* ===== verification/VS_Session.thy ===== *)
theory VS_Session
  imports VS_Old_Round
begin

text \<open>
  The state of a validator session (\<^verbatim>\<open>validator-session/src/session_state.rs\<close>): the attempt each validator
  has reached, the current round and the decided rounds. Messages are dispatched to the current or to a
  decided round; a current round that collects enough commit signatures is decided and a new one starts;
  states of different validators are merged.

  \<^verbatim>\<open>make_all\<close> repeats \<^verbatim>\<open>make_one\<close> until nothing changes. In the model it is a partial function, in which a
  loop without end would be \<open>None\<close>; lemma \<open>make_all_total\<close> shows that it returns.
\<close>

subsection \<open>State\<close>

definition MIN_ATTEMPT_ID :: u32 where
  "MIN_ATTEMPT_ID = 1024"

record session_state =
  ss_attempt_ids :: "u32 list"
  ss_current_round :: round_state
  ss_old_rounds :: "old_round list option"

definition get_round_id :: "message \<Rightarrow> u32" where
  "get_round_id message =
     (case message of
        ApprovedBlock round _ _ \<Rightarrow> round
      | Commit round _ _ \<Rightarrow> round
      | Empty round _ \<Rightarrow> round
      | Precommit round _ _ \<Rightarrow> round
      | RejectedBlock round _ _ \<Rightarrow> round
      | SubmittedBlock round _ _ _ \<Rightarrow> round
      | Vote round _ _ \<Rightarrow> round
      | VoteFor round _ _ \<Rightarrow> round)"

definition session_state_create_empty :: "session_description \<Rightarrow> session_state" where
  "session_state_create_empty desc =
     \<lparr> ss_attempt_ids = replicate (unat (get_total_nodes desc)) 0,
       ss_current_round = create_current_round desc 0,
       ss_old_rounds = None \<rparr>"

subsection \<open>Queries\<close>

definition session_get_ts :: "session_state \<Rightarrow> u32 \<Rightarrow> u32 option" where
  "session_get_ts self src_idx = vector_at (ss_attempt_ids self) (unat src_idx)"

definition get_current_round_sequence_number :: "session_state \<Rightarrow> u32" where
  "get_current_round_sequence_number self = rs_sequence_number (ss_current_round self)"

definition session_get_block :: "session_state \<Rightarrow> block_id \<Rightarrow> sent_block_ptr option" where
  "session_get_block self block_id = map_option bc_block (get_block (ss_current_round self) block_id)"

definition session_check_block_is_sent_by :: "session_state \<Rightarrow> u32 \<Rightarrow> bool" where
  "session_check_block_is_sent_by self src_idx = check_block_is_sent_by (ss_current_round self) src_idx"

definition get_committed_block_approve_signatures ::
  "session_state \<Rightarrow> u32 \<Rightarrow> block_candidate_signature_ptr list option option" where
  "get_committed_block_approve_signatures self sequence_number =
     (if unat sequence_number < vector_wrapper_len (ss_old_rounds self)
      then do { d \<leftarrow> vector_wrapper_at (ss_old_rounds self) (unat sequence_number); Some (Some (or_approve_signatures d)) }
      else Some None)"

definition session_get_blocks_approved_by :: "session_state \<Rightarrow> u32 \<Rightarrow> sent_block_ptr list option" where
  "session_get_blocks_approved_by self src_idx = get_blocks_approved_by (ss_current_round self) src_idx"

definition session_choose_blocks_to_approve ::
  "session_description \<Rightarrow> session_state \<Rightarrow> u32 \<Rightarrow> sent_block_ptr list option" where
  "session_choose_blocks_to_approve desc self src_idx = choose_blocks_to_approve desc (ss_current_round self) src_idx"

definition session_check_block_is_approved_by :: "session_state \<Rightarrow> u32 \<Rightarrow> block_id \<Rightarrow> bool option" where
  "session_check_block_is_approved_by self src_idx block_id =
     (case get_block (ss_current_round self) block_id of
        None \<Rightarrow> Some False
      | Some c \<Rightarrow> block_candidate_check_block_is_approved_by c src_idx)"

definition session_get_block_approvers :: "session_description \<Rightarrow> session_state \<Rightarrow> block_id \<Rightarrow> u32 list option" where
  "session_get_block_approvers desc self block_id = get_block_approvers desc (ss_current_round self) block_id"

definition session_check_need_generate_vote_for ::
  "session_description \<Rightarrow> session_state \<Rightarrow> u32 \<Rightarrow> u32 \<Rightarrow> bool option" where
  "session_check_need_generate_vote_for desc self src_idx attempt =
     check_need_generate_vote_for desc (ss_current_round self) src_idx attempt"

definition session_generate_vote_for ::
  "session_description \<Rightarrow> session_state \<Rightarrow> nat \<Rightarrow> u32 \<Rightarrow> u32 \<Rightarrow> message option" where
  "session_generate_vote_for desc self random src_idx attempt_id =
     generate_vote_for desc (ss_current_round self) random src_idx attempt_id"

definition get_committed_block_signatures ::
  "session_state \<Rightarrow> u32 \<Rightarrow> block_candidate_signature_ptr list option option" where
  "get_committed_block_signatures self sequence_number =
     (if unat sequence_number < vector_wrapper_len (ss_old_rounds self)
      then do { d \<leftarrow> vector_wrapper_at (ss_old_rounds self) (unat sequence_number); Some (Some (or_signatures d)) }
      else Some None)"

definition session_choose_block_to_sign :: "session_state \<Rightarrow> u32 \<Rightarrow> sent_block_ptr option option" where
  "session_choose_block_to_sign self src_idx =
     do { signed \<leftarrow> round_check_block_is_signed_by (ss_current_round self) src_idx;
          if signed then Some None else Some (round_choose_block_to_sign (ss_current_round self) src_idx) }"

definition get_committed_block :: "session_state \<Rightarrow> u32 \<Rightarrow> sent_block_ptr option option" where
  "get_committed_block self round_seqno =
     (if unat round_seqno < vector_wrapper_len (ss_old_rounds self)
      then do { d \<leftarrow> vector_wrapper_at (ss_old_rounds self) (unat round_seqno); Some (Some (or_block d)) }
      else Some None)"

definition session_check_block_is_signed_by :: "session_state \<Rightarrow> u32 \<Rightarrow> bool option" where
  "session_check_block_is_signed_by self src_idx = round_check_block_is_signed_by (ss_current_round self) src_idx"

definition session_create_action :: "session_description \<Rightarrow> session_state \<Rightarrow> u32 \<Rightarrow> u32 \<Rightarrow> message option" where
  "session_create_action desc self src_idx attempt_id = round_create_action desc (ss_current_round self) src_idx attempt_id"

subsection \<open>Applying a message\<close>

text \<open>The attempt of a validator never goes back and is at least \<open>MIN_ATTEMPT_ID\<close>.\<close>

definition clamp_attempt_id :: "u32 \<Rightarrow> u32 \<Rightarrow> u32" where
  "clamp_attempt_id current_attempt_id_for_node attempt_id =
     (let attempt_id = (if attempt_id < current_attempt_id_for_node then current_attempt_id_for_node else attempt_id) in
      if attempt_id < MIN_ATTEMPT_ID then MIN_ATTEMPT_ID else attempt_id)"

text \<open>Decide the current round and start the next one.\<close>

definition switch_round ::
  "session_description \<Rightarrow> round_state \<Rightarrow> old_round list option \<Rightarrow> (round_state \<times> old_round list option) option" where
  "switch_round desc round old_rounds =
     do { old_round \<leftarrow> create_from_round desc round;
          rs_assert (word_of_nat (vector_wrapper_len old_rounds) = or_sequence_number old_round);
          Some (create_current_round desc (rs_sequence_number round + 1), vector_wrapper_push old_rounds old_round) }"

definition session_apply_action ::
  "session_description \<Rightarrow> session_state \<Rightarrow> u32 \<Rightarrow> u32 \<Rightarrow> message \<Rightarrow> session_state option" where
  "session_apply_action desc self src_idx attempt_id message =
     do { current \<leftarrow> vector_at (ss_attempt_ids self) (unat src_idx);
          let attempt_id = clamp_attempt_id current attempt_id;
          new_attempt_ids \<leftarrow> vector_change (ss_attempt_ids self) (unat src_idx) attempt_id;
          let round_id = get_round_id message;
          let current_round_id = rs_sequence_number (ss_current_round self);
          if round_id > current_round_id then
            Some (self\<lparr>ss_attempt_ids := new_attempt_ids\<rparr>)
          else if round_id = current_round_id then
            do { new_current_round \<leftarrow> round_apply_action desc (ss_current_round self) src_idx attempt_id message;
                 signed \<leftarrow> check_block_is_signed desc new_current_round;
                 (new_current_round, new_old_rounds) \<leftarrow>
                   (if signed then switch_round desc new_current_round (ss_old_rounds self)
                    else Some (new_current_round, ss_old_rounds self));
                 Some \<lparr> ss_attempt_ids = new_attempt_ids, ss_current_round = new_current_round,
                        ss_old_rounds = new_old_rounds \<rparr> }
          else
            do { old_round \<leftarrow> vector_wrapper_at (ss_old_rounds self) (unat round_id);
                 new_old_round \<leftarrow> old_round_apply_action desc old_round src_idx message;
                 new_old_rounds \<leftarrow> vector_wrapper_change (ss_old_rounds self) (unat round_id) new_old_round;
                 Some \<lparr> ss_attempt_ids = new_attempt_ids, ss_current_round = ss_current_round self,
                        ss_old_rounds = new_old_rounds \<rparr> } }"

subsection \<open>Implicit actions\<close>

definition session_make_one ::
  "session_description \<Rightarrow> session_state \<Rightarrow> u32 \<Rightarrow> u32 \<Rightarrow> (session_state \<times> bool) option" where
  "session_make_one desc self src_idx attempt_id =
     do { current \<leftarrow> vector_at (ss_attempt_ids self) (unat src_idx);
          let attempt_id = clamp_attempt_id current attempt_id;
          (attempt_ids, time_updated) \<leftarrow>
            (if current \<ge> attempt_id then Some (ss_attempt_ids self, False)
             else do { ids \<leftarrow> vector_change (ss_attempt_ids self) (unat src_idx) attempt_id; Some (ids, True) });
          (round, made_changes) \<leftarrow> round_make_one desc (ss_current_round self) src_idx attempt_id;
          if \<not> made_changes \<and> \<not> time_updated then Some (self, False)
          else
            do { signed \<leftarrow> check_block_is_signed desc round;
                 rs_assert (\<not> signed);
                 Some (\<lparr> ss_attempt_ids = attempt_ids, ss_current_round = round,
                         ss_old_rounds = ss_old_rounds self \<rparr>, True) } }"

partial_function (option) make_all ::
  "session_description \<Rightarrow> session_state \<Rightarrow> u32 \<Rightarrow> u32 \<Rightarrow> session_state option" where
  "make_all desc state src_idx attempt_id =
     do { (new_state, made) \<leftarrow> session_make_one desc state src_idx attempt_id;
          if \<not> made then Some new_state else make_all desc new_state src_idx attempt_id }"

subsection \<open>Merging\<close>

text \<open>
  The rounds are merged when both sessions are in the same one; otherwise the session that is ahead
  provides the current round, and what the other one knows of its round goes to the decided round.
\<close>

definition merge_current_rounds ::
  "session_description \<Rightarrow> round_state \<Rightarrow> round_state \<Rightarrow> old_round list option \<Rightarrow> (round_state \<times> old_round list option) option" where
  "merge_current_rounds desc left right old_rounds =
     (let left_sequence_number = rs_sequence_number left; right_sequence_number = rs_sequence_number right in
      if left_sequence_number < right_sequence_number then
        do { old_round \<leftarrow> vector_wrapper_at old_rounds (unat left_sequence_number);
             old_round \<leftarrow> old_round_merge_round old_round left;
             old_rounds \<leftarrow> vector_wrapper_change old_rounds (unat left_sequence_number) old_round;
             Some (right, old_rounds) }
      else if left_sequence_number > right_sequence_number then
        do { old_round \<leftarrow> vector_wrapper_at old_rounds (unat right_sequence_number);
             old_round \<leftarrow> old_round_merge_round old_round right;
             old_rounds \<leftarrow> vector_wrapper_change old_rounds (unat right_sequence_number) old_round;
             Some (left, old_rounds) }
      else
        do { round \<leftarrow> round_merge desc left right;
             Some (round, old_rounds) })"

definition session_merge :: "session_description \<Rightarrow> session_state \<Rightarrow> session_state \<Rightarrow> session_state option" where
  "session_merge desc left right =
     do { rs_assert (length (ss_attempt_ids left) = unat (get_total_nodes desc));
          rs_assert (length (ss_attempt_ids right) = unat (get_total_nodes desc));
          attempt_ids \<leftarrow> vector_merge_custom (ss_attempt_ids left) (ss_attempt_ids right) (\<lambda>l r. Some (max l r));
          old_rounds \<leftarrow> vector_wrapper_merge_impl (ss_old_rounds left) (ss_old_rounds right) False old_round_merge;
          (round, old_rounds) \<leftarrow> merge_current_rounds desc (ss_current_round left) (ss_current_round right) old_rounds;
          signed \<leftarrow> check_block_is_signed desc round;
          (round, old_rounds) \<leftarrow>
            (if signed then do { rs_assert (unat (rs_sequence_number round) = vector_wrapper_len old_rounds);
                                 switch_round desc round old_rounds }
             else Some (round, old_rounds));
          Some \<lparr> ss_attempt_ids = attempt_ids, ss_current_round = round, ss_old_rounds = old_rounds \<rparr> }"

subsection \<open>The invariant of a session\<close>

definition session_old_rounds :: "session_state \<Rightarrow> old_round list" where
  "session_old_rounds st = vector_wrapper_iter (ss_old_rounds st)"

definition wf_old_rounds :: "session_description \<Rightarrow> submission set \<Rightarrow> old_round list \<Rightarrow> bool" where
  "wf_old_rounds desc B ds \<longleftrightarrow> (\<forall>k < length ds. wf_old_round desc B (word_of_nat k) (ds ! k))"

text \<open>
  Every validator has an attempt; the current round is well formed and not decided; the decided rounds
  are numbered from zero up to the current one, each with more than two thirds of the weight behind it.
\<close>

definition wf_session :: "session_description \<Rightarrow> submission set \<Rightarrow> session_state \<Rightarrow> bool" where
  "wf_session desc B st \<longleftrightarrow>
     length (ss_attempt_ids st) = nodes_count desc \<and>
     (\<forall>a \<in> set (ss_attempt_ids st). a = 0 \<or> MIN_ATTEMPT_ID \<le> a) \<and>
     wf_round desc B (ss_current_round st) \<and>
     \<not> cutoff_of desc \<le> weight_of desc (round_signed (ss_current_round st)) \<and>
     length (session_old_rounds st) = unat (rs_sequence_number (ss_current_round st)) \<and>
     wf_old_rounds desc B (session_old_rounds st)"

text \<open>Decided rounds are final: they keep their block and only gain signatures; attempts do not go back.\<close>

definition session_extends :: "nat \<Rightarrow> session_state \<Rightarrow> session_state \<Rightarrow> bool" where
  "session_extends n st st' \<longleftrightarrow>
     length (session_old_rounds st) \<le> length (session_old_rounds st') \<and>
     (\<forall>k < length (session_old_rounds st). old_round_extends n (session_old_rounds st ! k) (session_old_rounds st' ! k)) \<and>
     (\<forall>i < n. ss_attempt_ids st ! i \<le> ss_attempt_ids st' ! i)"

lemma session_extends_refl [simp]: "session_extends n st st"
  by (simp add: session_extends_def)

lemma session_extends_trans:
  "session_extends n st st' \<Longrightarrow> session_extends n st' st'' \<Longrightarrow> session_extends n st st''"
  unfolding session_extends_def by (meson dual_order.strict_trans1 old_round_extends_trans order.trans)

lemma wf_sessionD:
  assumes "wf_session desc B st"
  shows "length (ss_attempt_ids st) = nodes_count desc" "wf_round desc B (ss_current_round st)"
    "\<not> cutoff_of desc \<le> weight_of desc (round_signed (ss_current_round st))"
    "length (session_old_rounds st) = unat (rs_sequence_number (ss_current_round st))"
    "wf_old_rounds desc B (session_old_rounds st)"
    "a \<in> set (ss_attempt_ids st) \<Longrightarrow> a = 0 \<or> MIN_ATTEMPT_ID \<le> a"
  using assms by (auto simp: wf_session_def)

lemma wf_create_current_round:
  assumes "wf_desc desc"
  shows "wf_round desc B (create_current_round desc s)"
    and "\<not> cutoff_of desc \<le> weight_of desc (round_signed (create_current_round desc s))"
proof -
  have n: "0 < nodes_count desc" using assms by (simp add: wf_desc_def)
  have unsigned: "\<not> round_signed (create_current_round desc s) i" if "i < nodes_count desc" for i
    using assms that by (simp add: round_signed_def create_current_round_def)
  show "wf_round desc B (create_current_round desc s)"
    using assms n unsigned
    by (auto simp: wf_round_def wf_round_vectors_def wf_round_blocks_def wf_round_attempts_def wf_round_decisions_def
        round_blocks_def round_attempts_def create_current_round_def vector_create_wrapper_def)
  show "\<not> cutoff_of desc \<le> weight_of desc (round_signed (create_current_round desc s))"
    using vp.quorum_member [OF assms] unsigned by blast
qed

lemma wf_session_create_empty:
  assumes "wf_desc desc"
  shows "wf_session desc B (session_state_create_empty desc)"
  using wf_create_current_round(1) [OF assms, where B = B and s = 0] wf_create_current_round(2) [OF assms, where s = 0] assms
  by (auto simp: wf_session_def session_state_create_empty_def session_old_rounds_def wf_old_rounds_def)
    (simp_all add: create_current_round_def)

subsection \<open>Attempt numbers\<close>

lemma clamp_attempt_id_props:
  "current \<le> clamp_attempt_id current a" "MIN_ATTEMPT_ID \<le> clamp_attempt_id current a"
  "a \<le> clamp_attempt_id current a" "clamp_attempt_id current a \<noteq> 0"
proof -
  show le: "current \<le> clamp_attempt_id current a" "MIN_ATTEMPT_ID \<le> clamp_attempt_id current a" "a \<le> clamp_attempt_id current a"
    by (auto simp: clamp_attempt_id_def Let_def)
  have "MIN_ATTEMPT_ID > 0" by (simp add: MIN_ATTEMPT_ID_def)
  from this le(2) have "0 < clamp_attempt_id current a" by (rule order.strict_trans2)
  then show "clamp_attempt_id current a \<noteq> 0" by simp
qed

lemma clamp_attempt_id_idem: "clamp_attempt_id (clamp_attempt_id current a) a = clamp_attempt_id current a"
  by (auto simp: clamp_attempt_id_def Let_def)

lemma wf_attempt_ids_update:
  assumes "wf_session desc B st" and "unat i < nodes_count desc"
  shows "vector_at (ss_attempt_ids st) (unat i) = Some (ss_attempt_ids st ! unat i)"
    and "vector_change (ss_attempt_ids st) (unat i) s = Some ((ss_attempt_ids st)[unat i := s])"
    and "MIN_ATTEMPT_ID \<le> s \<Longrightarrow> a \<in> set ((ss_attempt_ids st)[unat i := s]) \<Longrightarrow> a = 0 \<or> MIN_ATTEMPT_ID \<le> a"
    and "ss_attempt_ids st ! unat i \<le> s \<Longrightarrow> j < nodes_count desc \<Longrightarrow>
      ss_attempt_ids st ! j \<le> (ss_attempt_ids st)[unat i := s] ! j"
  using assms wf_sessionD(1,6) [OF assms(1)] set_update_subset_insert [of "ss_attempt_ids st" "unat i" s]
  by (auto simp: nth_list_update)

subsection \<open>Deciding a round\<close>

lemma wf_old_rounds_append:
  "wf_old_rounds desc B ds \<Longrightarrow> wf_old_round desc B (word_of_nat (length ds)) d \<Longrightarrow> wf_old_rounds desc B (ds @ [d])"
  by (auto simp: wf_old_rounds_def nth_append less_Suc_eq)

lemma wf_old_rounds_update:
  "wf_old_rounds desc B ds \<Longrightarrow> wf_old_round desc B (word_of_nat k) d \<Longrightarrow> wf_old_rounds desc B (ds[k := d])"
  by (cases "k < length ds") (auto simp: wf_old_rounds_def nth_list_update)

lemma switch_round_total:
  assumes "wf_desc desc" and "wf_round desc B r" and "cutoff_of desc \<le> weight_of desc (round_signed r)"
    and "wf_old_rounds desc B (vector_wrapper_iter ds)" and "vector_wrapper_len ds = unat (rs_sequence_number r)"
  obtains d where "switch_round desc r ds = Some (create_current_round desc (rs_sequence_number r + 1), Some (vector_wrapper_iter ds @ [d]))"
    "wf_old_rounds desc B (vector_wrapper_iter ds @ [d])" "rs_precommitted_block r = Some (or_block d)"
    "or_signatures d = rs_signatures r"
proof -
  obtain d where d: "create_from_round desc r = Some d" "wf_old_round desc B (rs_sequence_number r) d"
    "rs_precommitted_block r = Some (or_block d)" "or_signatures d = rs_signatures r"
    using create_from_round_total [OF assms(1-3)] by blast
  have len: "vector_wrapper_len ds = length (vector_wrapper_iter ds)" by (cases ds) auto
  have seq: "word_of_nat (vector_wrapper_len ds) = rs_sequence_number r" using assms(5) by simp
  have "wf_old_rounds desc B (vector_wrapper_iter ds @ [d])"
    using assms(4) d(2) seq len by (intro wf_old_rounds_append) auto
  moreover have "switch_round desc r ds = Some (create_current_round desc (rs_sequence_number r + 1), Some (vector_wrapper_iter ds @ [d]))"
    using d(1,2) seq by (cases ds) (auto simp: switch_round_def wf_old_round_def)
  ultimately show thesis using d(3,4) by (intro that)
qed

subsection \<open>Messages keep the invariant\<close>

text \<open>There is a next round number.\<close>

abbreviation round_number_left :: "session_state \<Rightarrow> bool" where
  "round_number_left st \<equiv> unat (rs_sequence_number (ss_current_round st)) + 1 < 2 ^ 32"

lemma wf_session_decide:
  assumes "wf_desc desc" and "length ids = nodes_count desc" and "\<And>a. a \<in> set ids \<Longrightarrow> a = 0 \<or> MIN_ATTEMPT_ID \<le> a"
    and "wf_round desc B r" and "wf_old_rounds desc B (vector_wrapper_iter ds)"
    and "vector_wrapper_len ds = unat (rs_sequence_number r)" and "unat (rs_sequence_number r) + 1 < 2 ^ 32"
  obtains r' ds' where "(if cutoff_of desc \<le> weight_of desc (round_signed r) then switch_round desc r ds else Some (r, ds)) = Some (r', ds')"
    "wf_session desc B \<lparr> ss_attempt_ids = ids, ss_current_round = r', ss_old_rounds = ds' \<rparr>"
    "\<exists>zs. vector_wrapper_iter ds' = vector_wrapper_iter ds @ zs"
    "cutoff_of desc \<le> weight_of desc (round_signed r) \<Longrightarrow> \<exists>d. vector_wrapper_iter ds' = vector_wrapper_iter ds @ [d] \<and>
       rs_precommitted_block r = Some (or_block d) \<and> r' = create_current_round desc (rs_sequence_number r + 1)"
    "\<not> cutoff_of desc \<le> weight_of desc (round_signed r) \<Longrightarrow> r' = r \<and> ds' = ds"
proof (cases "cutoff_of desc \<le> weight_of desc (round_signed r)")
  case True
  obtain d where d: "switch_round desc r ds = Some (create_current_round desc (rs_sequence_number r + 1), Some (vector_wrapper_iter ds @ [d]))"
    "wf_old_rounds desc B (vector_wrapper_iter ds @ [d])" "rs_precommitted_block r = Some (or_block d)"
    by (rule switch_round_total [OF assms(1,4) True assms(5,6)])
  have len: "vector_wrapper_len ds = length (vector_wrapper_iter ds)" by (cases ds) auto
  have "unat (rs_sequence_number r + 1) = unat (rs_sequence_number r) + 1"
    using assms(7) by (subst unat_add_u32) auto
  then have "wf_session desc B \<lparr> ss_attempt_ids = ids, ss_current_round = create_current_round desc (rs_sequence_number r + 1),
      ss_old_rounds = Some (vector_wrapper_iter ds @ [d]) \<rparr>"
    using assms(2,3,6) d(2) len wf_create_current_round(1) [OF assms(1)] wf_create_current_round(2) [OF assms(1)]
    by (auto simp: wf_session_def session_old_rounds_def) (simp add: create_current_round_def)
  with True d show thesis
    by (intro that [of "create_current_round desc (rs_sequence_number r + 1)" "Some (vector_wrapper_iter ds @ [d])"]) auto
next
  case False
  have len: "vector_wrapper_len ds = length (vector_wrapper_iter ds)" by (cases ds) auto
  have "wf_session desc B \<lparr> ss_attempt_ids = ids, ss_current_round = r, ss_old_rounds = ds \<rparr>"
    using assms(2-6) False len by (auto simp: wf_session_def session_old_rounds_def)
  with False show thesis by (intro that [of r ds]) auto
qed

text \<open>A message for the current round, for a decided round, and for a round that has not begun.\<close>

lemma session_apply_current_round:
  assumes "wf_desc desc" and "no_collisions desc B" and "wf_session desc B st" and "unat i < nodes_count desc"
    and "message_ok B i m" and "round_number_left st" and "get_round_id m = rs_sequence_number (ss_current_round st)"
  shows "\<exists>st'. session_apply_action desc st i a m = Some st' \<and> wf_session desc B st' \<and> session_extends (nodes_count desc) st st'"
proof -
  note wf = wf_sessionD [OF assms(3)]
  let ?cur = "ss_current_round st"
  let ?s = "clamp_attempt_id (ss_attempt_ids st ! unat i) a"
  let ?ids = "(ss_attempt_ids st)[unat i := ?s]"
  note ids = wf_attempt_ids_update [OF assms(3,4)] and clamp = clamp_attempt_id_props [of "ss_attempt_ids st ! unat i" a]
  have len: "vector_wrapper_len (ss_old_rounds st) = length (session_old_rounds st)"
    by (cases "ss_old_rounds st") (auto simp: session_old_rounds_def)
  obtain r where r: "round_apply_action desc ?cur i ?s m = Some r" "wf_round desc B r"
    "round_evolves (nodes_count desc) (unat i) ?cur r"
    using round_apply_action_total [OF assms(1,2) wf(2) assms(4) clamp(4) assms(5)] by blast
  have seq: "rs_sequence_number r = rs_sequence_number ?cur" using r(3) by (simp add: round_evolves_def)
  obtain r' ds' where d: "(if cutoff_of desc \<le> weight_of desc (round_signed r) then switch_round desc r (ss_old_rounds st)
      else Some (r, ss_old_rounds st)) = Some (r', ds')"
    "wf_session desc B \<lparr> ss_attempt_ids = ?ids, ss_current_round = r', ss_old_rounds = ds' \<rparr>"
    "\<exists>zs. vector_wrapper_iter ds' = vector_wrapper_iter (ss_old_rounds st) @ zs"
    using wf_session_decide [OF assms(1), of ?ids B r "ss_old_rounds st"] wf ids(3) clamp(2) r(2) seq len assms(6)
    by (metis length_list_update session_old_rounds_def)
  have "session_apply_action desc st i a m = Some \<lparr> ss_attempt_ids = ?ids, ss_current_round = r', ss_old_rounds = ds' \<rparr>"
    using assms(7) r(1) d(1)
    by (simp add: session_apply_action_def ids(1,2) check_block_is_signed_total [OF assms(1) wf_roundD(1) [OF r(2)]])
  then show ?thesis
    using d(2,3) ids(4) clamp(1) by (auto simp: session_extends_def session_old_rounds_def nth_append)
qed

lemma wf_old_rounds_nth: "wf_old_rounds desc B ds \<Longrightarrow> k < length ds \<Longrightarrow> wf_old_round desc B (word_of_nat k) (ds ! k)"
  by (simp add: wf_old_rounds_def)

lemma session_apply_old_round:
  assumes "wf_session desc B st" and "unat i < nodes_count desc" and "get_round_id m < rs_sequence_number (ss_current_round st)"
  shows "\<exists>st'. session_apply_action desc st i a m = Some st' \<and> wf_session desc B st' \<and> session_extends (nodes_count desc) st st'"
proof -
  note wf = wf_sessionD [OF assms(1)]
  let ?s = "clamp_attempt_id (ss_attempt_ids st ! unat i) a"
  let ?ids = "(ss_attempt_ids st)[unat i := ?s]"
  let ?k = "unat (get_round_id m)"
  note ids = wf_attempt_ids_update [OF assms(1,2)] and clamp = clamp_attempt_id_props [of "ss_attempt_ids st ! unat i" a]
  have k: "?k < length (session_old_rounds st)" using assms(3) wf(4) by (simp add: word_less_nat_alt)
  then obtain ds where ds: "ss_old_rounds st = Some ds" "session_old_rounds st = ds"
    by (cases "ss_old_rounds st") (auto simp: session_old_rounds_def)
  obtain d where d: "old_round_apply_action desc (ds ! ?k) i m = Some d" "wf_old_round desc B (word_of_nat ?k) d"
    "old_round_extends (nodes_count desc) (ds ! ?k) d"
    using old_round_apply_action_total [OF wf_old_rounds_nth [OF wf(5) k] assms(2)] ds by blast
  let ?st = "\<lparr> ss_attempt_ids = ?ids, ss_current_round = ss_current_round st, ss_old_rounds = Some (ds[?k := d]) \<rparr>"
  have "\<not> get_round_id m > rs_sequence_number (ss_current_round st)" "get_round_id m \<noteq> rs_sequence_number (ss_current_round st)"
    using assms(3) by auto
  then have "session_apply_action desc st i a m = Some ?st"
    using d(1) k ds by (simp add: session_apply_action_def ids(1,2) Let_def)
  moreover have "wf_session desc B ?st"
    using wf ds ids(3) clamp(2) wf_old_rounds_update [OF _ d(2), of ds] by (auto simp: wf_session_def session_old_rounds_def)
  moreover have "session_extends (nodes_count desc) st ?st"
    using ids(4) clamp(1) d(3) k ds by (auto simp: session_extends_def session_old_rounds_def nth_list_update)
  ultimately show ?thesis by blast
qed

lemma session_apply_future_round:
  assumes "wf_session desc B st" and "unat i < nodes_count desc" and "get_round_id m > rs_sequence_number (ss_current_round st)"
  shows "\<exists>st'. session_apply_action desc st i a m = Some st' \<and> wf_session desc B st' \<and> session_extends (nodes_count desc) st st'"
proof -
  let ?ids = "(ss_attempt_ids st)[unat i := clamp_attempt_id (ss_attempt_ids st ! unat i) a]"
  note ids = wf_attempt_ids_update [OF assms(1,2)] and clamp = clamp_attempt_id_props [of "ss_attempt_ids st ! unat i" a]
  have "session_apply_action desc st i a m = Some (st\<lparr>ss_attempt_ids := ?ids\<rparr>)"
    using assms(3) by (simp add: session_apply_action_def ids(1,2))
  moreover have "wf_session desc B (st\<lparr>ss_attempt_ids := ?ids\<rparr>)"
    using wf_sessionD [OF assms(1)] ids(3) clamp(2) by (auto simp: wf_session_def session_old_rounds_def)
  ultimately show ?thesis
    using ids(4) clamp(1) by (auto simp: session_extends_def session_old_rounds_def)
qed

lemma session_apply_action_total:
  assumes "wf_desc desc" and "no_collisions desc B" and "wf_session desc B st" and "unat i < nodes_count desc"
    and "message_ok B i m" and "round_number_left st"
  shows "\<exists>st'. session_apply_action desc st i a m = Some st' \<and> wf_session desc B st' \<and> session_extends (nodes_count desc) st st'"
  using session_apply_current_round [OF assms] session_apply_old_round [OF assms(3,4)]
    session_apply_future_round [OF assms(3,4)]
  by (cases rule: linorder_cases [of "get_round_id m" "rs_sequence_number (ss_current_round st)"])

subsection \<open>Implicit actions end\<close>

definition session_pending :: "session_state \<Rightarrow> u32 \<Rightarrow> u32 \<Rightarrow> nat" where
  "session_pending st i a =
     (if ss_attempt_ids st ! unat i < clamp_attempt_id (ss_attempt_ids st ! unat i) a then 1 else 0) +
     pending_steps (ss_current_round st) i (clamp_attempt_id (ss_attempt_ids st ! unat i) a)"

lemma session_make_one_total:
  assumes "wf_desc desc" and "wf_session desc B st" and "unat i < nodes_count desc"
  obtains st' made where "session_make_one desc st i a = Some (st', made)" "wf_session desc B st'"
    "session_extends (nodes_count desc) st st'" "\<not> made \<Longrightarrow> st' = st"
    "made \<Longrightarrow> session_pending st' i a < session_pending st i a"
proof -
  note wf = wf_sessionD [OF assms(2)] and ids = wf_attempt_ids_update [OF assms(2,3)]
  let ?c = "ss_attempt_ids st ! unat i" and ?cur = "ss_current_round st"
  define s where "s = clamp_attempt_id ?c a"
  have clamp: "?c \<le> s" "MIN_ATTEMPT_ID \<le> s" "s \<noteq> 0" "clamp_attempt_id s a = s"
    using clamp_attempt_id_props [of ?c a] by (simp_all add: s_def clamp_attempt_id_idem)
  obtain r made where r: "round_make_one desc ?cur i s = Some (r, made)" "wf_round desc B r"
    "round_evolves (nodes_count desc) (unat i) ?cur r" "\<not> made \<Longrightarrow> r = ?cur"
    "made \<Longrightarrow> pending_steps r i s < pending_steps ?cur i s" "rs_signatures r = rs_signatures ?cur"
    using round_make_one_total [OF assms(1) wf(2) assms(3) clamp(3)] by metis
  have seq: "rs_sequence_number r = rs_sequence_number ?cur" using r(3) by (simp add: round_evolves_def)
  have unsigned: "\<not> cutoff_of desc \<le> weight_of desc (round_signed r)"
    using wf(3) r(6) round_relations_cong(8) [of r ?cur] by simp
  note signed = check_block_is_signed_total [OF assms(1) wf_roundD(1) [OF r(2)]]
  let ?ids = "if ?c < s then (ss_attempt_ids st)[unat i := s] else ss_attempt_ids st"
  let ?st = "\<lparr> ss_attempt_ids = ?ids, ss_current_round = r, ss_old_rounds = ss_old_rounds st \<rparr>"
  have run: "session_make_one desc st i a = Some (if made \<or> ?c < s then (?st, True) else (st, False))"
    using r(1) unsigned signed ids(1) ids(2) [of s] clamp(1)
    by (auto simp: session_make_one_def s_def [symmetric] Let_def)
  have "wf_session desc B ?st"
    using wf r(2) unsigned seq ids(3) [OF clamp(2)] by (auto simp: wf_session_def session_old_rounds_def)
  moreover have "session_extends (nodes_count desc) st ?st"
    using ids(4) [OF clamp(1)] by (auto simp: session_extends_def session_old_rounds_def)
  moreover have "session_pending ?st i a < session_pending st i a" if "made \<or> ?c < s"
  proof -
    have "?ids ! unat i = s" using clamp(1) wf(1) assms(3) by auto
    then have "session_pending ?st i a = pending_steps r i s" by (simp add: session_pending_def clamp(4))
    moreover have "session_pending st i a = (if ?c < s then 1 else 0) + pending_steps ?cur i s"
      by (simp add: session_pending_def s_def)
    ultimately show ?thesis using that r(4,5) by (cases made) auto
  qed
  ultimately show thesis
  proof (cases "made \<or> ?c < s")
    case True
    assume "wf_session desc B ?st" "session_extends (nodes_count desc) st ?st"
      "made \<or> ?c < s \<Longrightarrow> session_pending ?st i a < session_pending st i a"
    then show thesis using run True by (intro that [of ?st True]) simp_all
  next
    case False
    then show thesis using run assms(2) by (intro that [of st False]) simp_all
  qed
qed

lemma make_all_total:
  assumes "wf_desc desc" and "wf_session desc B st" and "unat i < nodes_count desc"
  shows "\<exists>st'. make_all desc st i a = Some st' \<and> wf_session desc B st' \<and> session_extends (nodes_count desc) st st' \<and>
    session_make_one desc st' i a = Some (st', False)"
  using assms(2)
proof (induction "session_pending st i a" arbitrary: st rule: less_induct)
  case less
  obtain st' made where st': "session_make_one desc st i a = Some (st', made)" "wf_session desc B st'"
    "session_extends (nodes_count desc) st st'" "\<not> made \<Longrightarrow> st' = st"
    "made \<Longrightarrow> session_pending st' i a < session_pending st i a"
    using session_make_one_total [OF assms(1) less.prems assms(3)] by metis
  show ?case
  proof (cases made)
    case True
    with less.hyps [OF st'(5) st'(2)] st' show ?thesis
      by (subst make_all.simps) (auto intro: session_extends_trans)
  next
    case False
    with st' show ?thesis by (subst make_all.simps) auto
  qed
qed

end
