(* ===== verification/VS_Processor.thy ===== *)
theory VS_Processor
  imports VS_Session "HOL-Library.AList"
begin

text \<open>
  The processor of a session (\<^verbatim>\<open>validator-session/src/session_processor.rs\<close>): it computes the session state of
  every block of the catchain, keeps the state of the own chain of blocks (the real state) and of everything
  received (the virtual state), decides what the validator has to do next, publishes its messages in a new
  block and reports finished rounds.

  The calls to the listener and to the catchain are recorded in \<open>sp_calls\<close> in the order the code makes
  them; an answer that arrives later is a call of the operation that the completion handler runs. One reading
  of the clock and of the random generator serves a whole handler. The state caches are off in the code
  (\<^verbatim>\<open>TELEGRAM_NODE_COMPATIBILITY_HASHES_BUG\<close> is \<open>true\<close>), as are the debug switches. Completion handler
  timeouts, statistics, metrics and log output are left out.
\<close>

subsection \<open>Data\<close>

record block_update =
  bu_ts :: u64
  bu_actions :: "message list"

text \<open>A block of the catchain; the previous block and the dependencies are given by their extra identifiers.\<close>

record catchain_block =
  cb_extra_id :: nat
  cb_source_id :: u32
  cb_prev :: "nat option"
  cb_deps :: "nat list"
  cb_payload :: bytes

record tl_candidate =
  tc_src :: public_key_hash
  tc_round :: u32
  tc_root_hash :: block_hash
  tc_data :: bytes
  tc_collated_data :: bytes

record download_query =
  dq_round :: u32
  dq_src :: public_key_hash
  dq_root_hash :: block_hash
  dq_file_hash :: block_hash
  dq_collated_data_file_hash :: block_hash

datatype query_error = CannotParse | TooBigRound | WrongBlockOldRound | WrongBlockCurrentRound | NotApproved

datatype outgoing =
    RequestNewBlock bool
  | ProcessedBlock block_update
  | SendBroadcast tl_candidate
  | DownloadCandidate public_key_hash u32 public_key_hash block_hash block_hash block_hash sys_time
  | OnCandidate u32 public_key block_hash bytes bytes
  | OnGenerateSlot u32
  | OnBlockCommitted u32 public_key block_hash block_hash bytes
      "(public_key_hash \<times> block_signature) list" "(public_key_hash \<times> block_signature) list"
  | OnBlockSkipped u32
  | OnGetApprovedCandidate public_key block_hash block_hash block_hash
  | QueryFailed query_error

text \<open>
  What a handler reads from outside: the clock, the timestamp of the clock, a random number, the TL parsers and
  the signature by the key of this validator.
\<close>

record environment =
  env_now :: sys_time
  env_ts :: u64
  env_random :: nat
  env_parse_update :: "bytes \<Rightarrow> block_update option"
  env_parse_candidate :: "bytes \<Rightarrow> tl_candidate option"
  env_parse_query :: "bytes \<Rightarrow> download_query option"
  env_sign :: "bytes \<Rightarrow> block_signature option"

record processor =
  sp_catchain_started :: bool
  sp_description :: session_description
  sp_block_to_state_map :: "session_state option list"
  sp_real_state :: session_state
  sp_virtual_state :: session_state
  sp_current_round :: u32
  sp_requested_new_block :: bool
  sp_requested_new_block_now :: bool
  sp_next_awake_time :: sys_time
  sp_round_started_at :: sys_time
  sp_round_debug_at :: sys_time
  sp_pending_generate :: bool
  sp_generated :: bool
  sp_sent_generated :: bool
  sp_generated_block :: block_id
  sp_blocks :: "u32 \<rightharpoonup> (block_id \<rightharpoonup> tl_candidate \<times> sys_time)"
  sp_pending_approve :: "block_id set"
  sp_pending_reject :: "(block_id \<times> bytes) list"
  sp_rejected :: "block_id set"
  sp_approved :: "block_id \<rightharpoonup> sys_time \<times> block_signature"
  sp_active_requests :: "block_id set"
  sp_pending_sign :: bool
  sp_signed :: bool
  sp_signed_block :: block_id
  sp_signature :: block_signature
  sp_calls :: "outgoing list"

definition call :: "outgoing \<Rightarrow> processor \<Rightarrow> processor" where
  "call c p = p\<lparr>sp_calls := sp_calls p @ [c]\<rparr>"

definition get_local_idx :: "processor \<Rightarrow> u32" where
  "get_local_idx p = sd_self_idx (sp_description p)"

text \<open>\<^verbatim>\<open>SystemTime + Duration\<close> panics when the seconds do not fit in an \<open>i64\<close>.\<close>

definition time_add :: "sys_time \<Rightarrow> duration \<Rightarrow> sys_time option" where
  "time_add t d = do { rs_assert ((t + d) div 1000000000 < 2 ^ 63); Some (t + d) }"

definition ROUND_DEBUG_PERIOD :: duration where
  "ROUND_DEBUG_PERIOD = from_millis 15000"

definition processor_create :: "environment \<Rightarrow> session_description \<Rightarrow> processor" where
  "processor_create env desc =
     \<lparr> sp_catchain_started = False, sp_description = desc, sp_block_to_state_map = [],
       sp_real_state = session_state_create_empty desc, sp_virtual_state = session_state_create_empty desc,
       sp_current_round = 0, sp_requested_new_block = False, sp_requested_new_block_now = False,
       sp_next_awake_time = env_now env, sp_round_started_at = env_now env, sp_round_debug_at = env_now env,
       sp_pending_generate = False, sp_generated = False, sp_sent_generated = False, sp_generated_block = 0,
       sp_blocks = Map.empty, sp_pending_approve = {}, sp_pending_reject = [], sp_rejected = {}, sp_approved = Map.empty,
       sp_active_requests = {}, sp_pending_sign = False, sp_signed = False, sp_signed_block = 0, sp_signature = [],
       sp_calls = [] \<rparr>"

subsection \<open>Awake time and requests for a new block\<close>

definition set_next_awake_time :: "environment \<Rightarrow> sys_time \<Rightarrow> processor \<Rightarrow> processor" where
  "set_next_awake_time env timestamp p =
     (let timestamp = (if timestamp < env_now env then env_now env else timestamp) in
      if sp_next_awake_time p \<le> timestamp then p else p\<lparr>sp_next_awake_time := timestamp\<rparr>)"

definition reset_next_awake_time :: "environment \<Rightarrow> processor \<Rightarrow> processor option" where
  "reset_next_awake_time env p =
     do { t \<leftarrow> time_add (env_now env) (catchain_idle_timeout (sd_options (sp_description p)));
          Some (p\<lparr>sp_next_awake_time := t\<rparr>) }"

definition request_new_block :: "bool \<Rightarrow> processor \<Rightarrow> processor" where
  "request_new_block now p =
     (if sp_requested_new_block_now p then p
      else if \<not> now \<and> sp_requested_new_block p then p
      else call (RequestNewBlock now)
        (p\<lparr>sp_requested_new_block := True,
           sp_requested_new_block_now := (if now then True else sp_requested_new_block_now p)\<rparr>))"

subsection \<open>States of blocks\<close>

definition find_state :: "processor \<Rightarrow> nat \<Rightarrow> session_state option" where
  "find_state p extra_id =
     (if extra_id < length (sp_block_to_state_map p) then sp_block_to_state_map p ! extra_id else None)"

text \<open>A block without a state is \<^verbatim>\<open>unreachable!()\<close>.\<close>

definition get_state :: "processor \<Rightarrow> nat \<Rightarrow> session_state option" where
  "get_state p extra_id = find_state p extra_id"

definition set_state :: "processor \<Rightarrow> nat \<Rightarrow> session_state \<Rightarrow> processor" where
  "set_state p extra_id state =
     (let states = sp_block_to_state_map p;
          states = (if extra_id \<ge> length states then states @ replicate (extra_id + 1 - length states) None else states) in
      p\<lparr>sp_block_to_state_map := states[extra_id := Some state]\<rparr>)"

definition merge_states :: "processor \<Rightarrow> session_state \<Rightarrow> session_state \<Rightarrow> session_state option" where
  "merge_states p left right = session_merge (sp_description p) left right"

fun merge_deps :: "processor \<Rightarrow> session_state \<Rightarrow> nat list \<Rightarrow> session_state option" where
  "merge_deps p state [] = Some state"
| "merge_deps p state (dep # deps) =
     do { dep_state \<leftarrow> get_state p dep; state \<leftarrow> merge_states p state dep_state; merge_deps p state deps }"

subsection \<open>Signing\<close>

definition signed_block :: "u32 \<Rightarrow> block_id \<Rightarrow> block_signature \<Rightarrow> processor \<Rightarrow> processor" where
  "signed_block round hash signature p =
     (if round \<noteq> sp_current_round p then p
      else request_new_block False
        (p\<lparr>sp_pending_sign := False, sp_signed := True, sp_signed_block := hash, sp_signature := signature\<rparr>))"

definition check_sign_slot :: "environment \<Rightarrow> processor \<Rightarrow> processor option" where
  "check_sign_slot env p =
     (if \<not> sp_catchain_started p then Some p
      else if sp_pending_sign p then Some p
      else
        do { is_signed \<leftarrow> session_check_block_is_signed_by (sp_real_state p) (get_local_idx p);
             if is_signed then Some (p\<lparr>sp_signed := True\<rparr>)
             else if sp_signed p then Some (request_new_block False p)
             else
               do { commit_candidate \<leftarrow> session_choose_block_to_sign (sp_virtual_state p) (get_local_idx p);
                    case commit_candidate of
                      None \<Rightarrow> Some p
                    | Some None \<Rightarrow>
                        Some (request_new_block False
                          (p\<lparr>sp_signed := True, sp_signed_block := SKIP_ROUND_CANDIDATE_BLOCKID\<rparr>))
                    | Some (Some block) \<Rightarrow>
                        let p = p\<lparr>sp_pending_sign := True\<rparr> in
                        (case env_sign env (ext_serialize (sd_ext (sp_description p))
                                (TlBlockId (sb_root_hash block) (sb_file_hash block))) of
                           None \<Rightarrow> Some p
                         | Some signature \<Rightarrow>
                             Some (signed_block (sp_current_round p) (sb_candidate_id block) signature p)) } })"

subsection \<open>Candidates of the rounds\<close>

definition insert_signed_block_for_round ::
  "u32 \<Rightarrow> block_id \<Rightarrow> tl_candidate \<times> sys_time \<Rightarrow> processor \<Rightarrow> processor" where
  "insert_signed_block_for_round round block_id data p =
     (let round_block_map = (case sp_blocks p round of Some m \<Rightarrow> m | None \<Rightarrow> Map.empty) in
      p\<lparr>sp_blocks := (sp_blocks p)(round \<mapsto> round_block_map(block_id \<mapsto> data))\<rparr>)"

definition get_signed_block_for_round :: "processor \<Rightarrow> u32 \<Rightarrow> block_id \<Rightarrow> (tl_candidate \<times> sys_time) option" where
  "get_signed_block_for_round p round block_id =
     (case sp_blocks p round of Some m \<Rightarrow> m block_id | None \<Rightarrow> None)"

definition check_generate_slot :: "environment \<Rightarrow> processor \<Rightarrow> processor option" where
  "check_generate_slot env p =
     (if \<not> sp_catchain_started p then Some p
      else if sp_generated p \<or> sp_pending_generate p then Some p
      else if session_check_block_is_sent_by (sp_real_state p) (get_local_idx p) then
        Some (p\<lparr>sp_generated := True, sp_sent_generated := True\<rparr>)
      else
        do { priority \<leftarrow> get_node_priority (sp_description p) (get_local_idx p) (sp_current_round p);
             if priority < 0 then Some p
             else
               do { delay \<leftarrow> get_delay (sp_description p) (word_of_int priority);
                    block_generation_time \<leftarrow> time_add (sp_round_started_at p) delay;
                    _ \<leftarrow> time_add block_generation_time (next_candidate_delay (sd_options (sp_description p)));
                    if is_in_future (sp_description p) (env_now env) block_generation_time
                    then Some (set_next_awake_time env block_generation_time p)
                    else Some (call (OnGenerateSlot (sp_current_round p)) (p\<lparr>sp_pending_generate := True\<rparr>)) } })"

text \<open>The answer of the collator; \<open>creation_time\<close> is the earlier creation time of the two payloads.\<close>

definition generated_block ::
  "u32 \<Rightarrow> block_hash \<Rightarrow> bytes \<Rightarrow> bytes \<Rightarrow> sys_time \<Rightarrow> processor \<Rightarrow> processor option" where
  "generated_block round root_hash data collated_data creation_time p =
     (let desc = sp_description p in
      if round \<noteq> sp_current_round p then Some p
      else if length data > unat (max_block_size (sd_options desc)) \<or>
              length collated_data > unat (max_collated_data_size (sd_options desc)) then Some p
      else
        do { let file_hash = ext_sha256 (sd_ext desc) data;
             let collated_data_file_hash = ext_sha256 (sd_ext desc) collated_data;
             local_id \<leftarrow> get_source_public_key_hash desc (get_local_idx p);
             let candidate = \<lparr> tc_src = local_id, tc_round = round, tc_root_hash = root_hash, tc_data = data,
                               tc_collated_data = collated_data \<rparr>;
             block_id \<leftarrow> candidate_id desc (get_local_idx p) root_hash file_hash collated_data_file_hash;
             let p = insert_signed_block_for_round (sp_current_round p) block_id (candidate, creation_time)
                       (call (SendBroadcast candidate) p);
             Some (request_new_block True
               (p\<lparr>sp_pending_generate := False, sp_generated := True, sp_generated_block := block_id\<rparr>)) })"

subsection \<open>Approval\<close>

definition candidate_approved_signed ::
  "environment \<Rightarrow> block_id \<Rightarrow> sys_time \<Rightarrow> block_signature \<Rightarrow> processor \<Rightarrow> processor" where
  "candidate_approved_signed env hash validity_start_time signature p =
     (let p = p\<lparr>sp_pending_approve := sp_pending_approve p - {hash},
                sp_approved := (sp_approved p)(hash \<mapsto> (validity_start_time, signature))\<rparr> in
      if validity_start_time \<le> get_time (sp_description p) (env_now env) then request_new_block False p
      else set_next_awake_time env validity_start_time p)"

definition candidate_decision_ok ::
  "environment \<Rightarrow> u32 \<Rightarrow> block_id \<Rightarrow> block_hash \<Rightarrow> block_hash \<Rightarrow> sys_time \<Rightarrow> processor \<Rightarrow> processor" where
  "candidate_decision_ok env round hash root_hash file_hash validity_start_time p =
     (if round \<noteq> sp_current_round p then p
      else
        (case env_sign env (ext_serialize (sd_ext (sp_description p)) (TlBlockIdApprove root_hash file_hash)) of
           None \<Rightarrow> p
         | Some signature \<Rightarrow> candidate_approved_signed env hash validity_start_time signature p))"

definition candidate_decision_fail :: "u32 \<Rightarrow> block_id \<Rightarrow> bytes \<Rightarrow> processor \<Rightarrow> processor" where
  "candidate_decision_fail round hash reason p =
     (if round \<noteq> sp_current_round p then p
      else p\<lparr>sp_pending_approve := sp_pending_approve p - {hash},
             sp_pending_reject := AList.update hash reason (sp_pending_reject p),
             sp_rejected := insert hash (sp_rejected p)\<rparr>)"

definition get_broadcast_p2p ::
  "environment \<Rightarrow> public_key_hash \<Rightarrow> public_key_hash \<Rightarrow> sent_block \<Rightarrow> sys_time \<Rightarrow> processor \<Rightarrow> processor" where
  "get_broadcast_p2p env adnl_id source block timeout p =
     (if is_in_past (sp_description p) (env_now env) timeout
      then p\<lparr>sp_active_requests := sp_active_requests p - {sb_candidate_id block}\<rparr>
      else call (DownloadCandidate adnl_id (sp_current_round p) source (sb_root_hash block) (sb_file_hash block)
             (sb_collated_data_file_hash block) timeout) p)"

text \<open>The last part of \<^verbatim>\<open>try_approve_block\<close>: the payload of the block has not arrived.\<close>

definition request_absent_block :: "environment \<Rightarrow> sent_block \<Rightarrow> sys_time \<Rightarrow> processor \<Rightarrow> processor option" where
  "request_absent_block env block block_proposal_time p =
     (let desc = sp_description p; block_id = sb_candidate_id block in
      if is_in_past desc (env_now env) block_proposal_time then
        if block_id \<in> sp_active_requests p then Some p
        else
          do { approvers \<leftarrow> session_get_block_approvers desc (sp_virtual_state p) block_id;
               if length approvers = 0 then Some p
               else
                 do { node \<leftarrow> index approvers (env_random env mod length approvers);
                      adnl_id \<leftarrow> get_source_adnl_id desc node;
                      source \<leftarrow> get_source_public_key_hash desc (sb_source_id block);
                      timeout \<leftarrow> time_add (get_time desc (env_now env)) (from_millis 2000);
                      Some (get_broadcast_p2p env adnl_id source block timeout
                        (p\<lparr>sp_active_requests := insert block_id (sp_active_requests p)\<rparr>)) } }
      else Some (set_next_awake_time env block_proposal_time p))"

definition try_approve_block :: "environment \<Rightarrow> sent_block_ptr \<Rightarrow> processor \<Rightarrow> processor option" where
  "try_approve_block env block p =
     (let desc = sp_description p; block_id = sent_block_get_id block in
      case sp_approved p block_id of
        Some (approve_time, _) \<Rightarrow>
          Some (if approve_time \<le> get_time desc (env_now env) then request_new_block False p
                else set_next_awake_time env approve_time p)
      | None \<Rightarrow>
          if block_id \<in> sp_pending_approve p \<or> block_id \<in> sp_rejected p then Some p
          else
            do { block_round_proposal_delay \<leftarrow>
                   (case block of
                      Some b \<Rightarrow> do { priority \<leftarrow> get_node_priority desc (sb_source_id b) (sp_current_round p);
                                     get_delay desc (word_of_int priority) }
                    | None \<Rightarrow> get_empty_block_delay desc);
                 block_proposal_time \<leftarrow> time_add (sp_round_started_at p) block_round_proposal_delay;
                 if is_in_future desc (env_now env) block_proposal_time
                 then Some (set_next_awake_time env block_proposal_time p)
                 else
                   (case block of
                      None \<Rightarrow>
                        Some (request_new_block False (p\<lparr>sp_approved := (sp_approved p)(block_id \<mapsto> (0, []))\<rparr>))
                    | Some b \<Rightarrow>
                        do { delay \<leftarrow> get_delay desc (sb_source_id b);
                             block_proposal_time \<leftarrow> time_add (sp_round_started_at p) delay;
                             block_proposal_time \<leftarrow> time_add block_proposal_time (from_millis 2000);
                             (case get_signed_block_for_round p (sp_current_round p) block_id of
                                Some (tl_block, _) \<Rightarrow>
                                  do { rs_assert (sp_current_round p = tc_round tl_block);
                                       source_public_key \<leftarrow> get_source_public_key desc (sb_source_id b);
                                       Some (call (OnCandidate (sp_current_round p) source_public_key
                                               (tc_root_hash tl_block) (tc_data tl_block) (tc_collated_data tl_block))
                                         (p\<lparr>sp_pending_approve := insert block_id (sp_pending_approve p)\<rparr>)) }
                              | None \<Rightarrow> request_absent_block env b block_proposal_time p) }) })"

fun try_approve_blocks :: "environment \<Rightarrow> sent_block_ptr list \<Rightarrow> processor \<Rightarrow> processor option" where
  "try_approve_blocks env [] p = Some p"
| "try_approve_blocks env (block # blocks) p =
     do { p \<leftarrow> try_approve_block env block p; try_approve_blocks env blocks p }"

definition check_approve :: "environment \<Rightarrow> processor \<Rightarrow> processor option" where
  "check_approve env p =
     (if \<not> sp_catchain_started p then Some p
      else
        do { to_approve \<leftarrow> session_choose_blocks_to_approve (sp_description p) (sp_virtual_state p) (get_local_idx p);
             try_approve_blocks env to_approve p })"

subsection \<open>Attempts\<close>

definition check_action :: "u32 \<Rightarrow> processor \<Rightarrow> processor option" where
  "check_action attempt p =
     (if \<not> sp_catchain_started p then Some p
      else if sp_requested_new_block p then Some p
      else
        do { action \<leftarrow> session_create_action (sp_description p) (sp_virtual_state p) (get_local_idx p) attempt;
             Some (case action of Empty _ _ \<Rightarrow> p | _ \<Rightarrow> request_new_block False p) })"

definition check_vote_for_slot :: "u32 \<Rightarrow> processor \<Rightarrow> processor option" where
  "check_vote_for_slot attempt p =
     (if \<not> sp_catchain_started p then Some p
      else
        do { need \<leftarrow> session_check_need_generate_vote_for (sp_description p) (sp_virtual_state p) (get_local_idx p) attempt;
             Some (if need then request_new_block False p else p) })"

definition check_all :: "environment \<Rightarrow> processor \<Rightarrow> processor option" where
  "check_all env p =
     (if \<not> sp_catchain_started p then Some p
      else if get_current_round_sequence_number (sp_virtual_state p) \<noteq> sp_current_round p
      then Some (request_new_block False p)
      else
        do { p \<leftarrow> (if is_in_past (sp_description p) (env_now env) (sp_round_debug_at p)
                  then do { t \<leftarrow> time_add (get_time (sp_description p) (env_now env)) ROUND_DEBUG_PERIOD;
                            Some (p\<lparr>sp_round_debug_at := t\<rparr>) }
                  else Some p);
             attempt_seqno \<leftarrow> get_attempt_sequence_number (sp_description p) (env_ts env);
             p \<leftarrow> check_sign_slot env p;
             p \<leftarrow> check_approve env p;
             p \<leftarrow> check_generate_slot env p;
             p \<leftarrow> check_action attempt_seqno p;
             p \<leftarrow> check_vote_for_slot attempt_seqno p;
             let p = set_next_awake_time env (sp_round_debug_at p) p;
             start \<leftarrow> get_attempt_start_at (sp_description p) (attempt_seqno + 1);
             Some (set_next_awake_time env start p) })"

subsection \<open>Finished rounds\<close>

fun signatures_exporter ::
  "session_description \<Rightarrow> block_candidate_signature_ptr list \<Rightarrow> u32 list \<Rightarrow> (public_key_hash \<times> block_signature) list option" where
  "signatures_exporter desc signatures [] = Some []"
| "signatures_exporter desc signatures (i # is) =
     do { signature \<leftarrow> vector_at signatures (unat i);
          entry \<leftarrow> (case signature of
                     None \<Rightarrow> Some []
                   | Some s \<Rightarrow> do { key \<leftarrow> get_source_public_key_hash desc i; Some [(key, s)] });
          rest \<leftarrow> signatures_exporter desc signatures is;
          Some (entry @ rest) }"

text \<open>One pass of the loop of \<^verbatim>\<open>new_round\<close>: report the current round and go to the next.\<close>

definition finish_round :: "processor \<Rightarrow> processor option" where
  "finish_round p =
     do { let desc = sp_description p;
          let round = sp_current_round p;
          signed_block \<leftarrow> get_committed_block (sp_real_state p) round;
          src_signatures \<leftarrow> get_committed_block_signatures (sp_real_state p) round;
          src_approve_signatures \<leftarrow> get_committed_block_approve_signatures (sp_real_state p) round;
          src_signatures \<leftarrow> src_signatures;
          src_approve_signatures \<leftarrow> src_approve_signatures;
          signatures \<leftarrow> signatures_exporter desc src_signatures (range_u32 (get_total_nodes desc));
          approve_signatures \<leftarrow> signatures_exporter desc src_approve_signatures (range_u32 (get_total_nodes desc));
          signed_block \<leftarrow> signed_block;
          p \<leftarrow> (case signed_block of
                 Some block \<Rightarrow>
                   do { validator_public_key \<leftarrow> get_source_public_key desc (sb_source_id block);
                        let data = (case get_signed_block_for_round p round (sb_candidate_id block) of
                                      Some (signed_tl_block, _) \<Rightarrow> tc_data signed_tl_block
                                    | None \<Rightarrow> []);
                        Some (call (OnBlockCommitted round validator_public_key (sb_root_hash block) (sb_file_hash block)
                                data signatures approve_signatures) p) }
               | None \<Rightarrow> Some (call (OnBlockSkipped round) p));
          Some (p\<lparr>sp_blocks := (sp_blocks p)(round := None), sp_current_round := round + 1\<rparr>) }"

lemma finish_round_next: "finish_round p = Some p' \<Longrightarrow> sp_current_round p' = sp_current_round p + 1"
  by (auto simp: finish_round_def Let_def bind_eq_Some_conv)

function (sequential) finish_rounds :: "u32 \<Rightarrow> processor \<Rightarrow> processor option" where
  "finish_rounds round p =
     (if sp_current_round p < round then do { p \<leftarrow> finish_round p; finish_rounds round p } else Some p)"
  by pat_completeness auto

termination
proof (relation "measure (\<lambda>(round, p). unat round - unat (sp_current_round p))", goal_cases)
  case (2 round p p')
  then have "sp_current_round p' = sp_current_round p + 1" by (intro finish_round_next)
  moreover have "unat (sp_current_round p + 1) = unat (sp_current_round p) + 1"
    using 2(1) unat_u32_less [of round] by (subst unat_add_u32) (auto simp: word_less_nat_alt)
  ultimately show ?case using 2(1) by (simp add: word_less_nat_alt)
qed simp

definition new_round :: "environment \<Rightarrow> u32 \<Rightarrow> processor \<Rightarrow> processor option" where
  "new_round env round p =
     do { p \<leftarrow> (if round \<noteq> 0
               then do { rs_assert (sp_current_round p < round);
                         Some (p\<lparr>sp_pending_generate := False, sp_generated := False, sp_sent_generated := False,
                                 sp_pending_approve := {}, sp_rejected := {}, sp_pending_reject := [],
                                 sp_approved := Map.empty, sp_pending_sign := False, sp_signed := False,
                                 sp_signature := [], sp_signed_block := 0, sp_active_requests := {}\<rparr>) }
               else Some p);
          p \<leftarrow> finish_rounds round p;
          let p = p\<lparr>sp_round_started_at := get_time (sp_description p) (env_now env)\<rparr>;
          debug_at \<leftarrow> time_add (sp_round_started_at p) ROUND_DEBUG_PERIOD;
          check_all env (p\<lparr>sp_round_debug_at := debug_at\<rparr>) }"

subsection \<open>Blocks of the catchain\<close>

fun apply_actions :: "session_description \<Rightarrow> u32 \<Rightarrow> u32 \<Rightarrow> message list \<Rightarrow> session_state \<Rightarrow> session_state option" where
  "apply_actions desc src_idx attempt_id [] state = Some state"
| "apply_actions desc src_idx attempt_id (msg # msgs) state =
     do { state \<leftarrow> session_apply_action desc state src_idx attempt_id msg;
          apply_actions desc src_idx attempt_id msgs state }"

text \<open>The state of a block, from the state its dependencies give.\<close>

definition actualize_state ::
  "session_description \<Rightarrow> u32 \<Rightarrow> block_update option \<Rightarrow> session_state \<Rightarrow> session_state option" where
  "actualize_state desc src_id block_update state =
     do { _ \<leftarrow> get_source_public_key_hash desc src_id;
          case block_update of
            Some update \<Rightarrow>
              do { attempt_id \<leftarrow> get_attempt_sequence_number desc (bu_ts update);
                   state \<leftarrow> apply_actions desc src_id attempt_id (bu_actions update) state;
                   make_all desc state src_id attempt_id }
          | None \<Rightarrow>
              do { ts \<leftarrow> session_get_ts state src_id; make_all desc state src_id ts } }"

definition block_state :: "environment \<Rightarrow> processor \<Rightarrow> catchain_block \<Rightarrow> session_state option" where
  "block_state env p block =
     do { let desc = sp_description p;
          state \<leftarrow> (case cb_prev block of
                     Some prev \<Rightarrow> get_state p prev
                   | None \<Rightarrow> Some (session_state_create_empty desc));
          state \<leftarrow> merge_deps p state (cb_deps block);
          if cb_payload block \<noteq> [] \<or> cb_deps block \<noteq> []
          then actualize_state desc (cb_source_id block) (env_parse_update env (cb_payload block)) state
          else Some state }"

definition preprocess_block :: "environment \<Rightarrow> catchain_block \<Rightarrow> processor \<Rightarrow> processor option" where
  "preprocess_block env block p =
     do { state \<leftarrow> block_state env p block;
          let p = set_state p (cb_extra_id block) state;
          let p = (if cb_source_id block = get_local_idx p \<and> \<not> sp_catchain_started p
                   then p\<lparr>sp_real_state := state\<rparr> else p);
          virtual_state \<leftarrow> merge_states p (sp_virtual_state p) state;
          let p = p\<lparr>sp_virtual_state := virtual_state\<rparr>;
          let state_round = get_current_round_sequence_number (sp_real_state p);
          p \<leftarrow> (if state_round \<noteq> sp_current_round p then new_round env state_round p else Some p);
          check_all env p }"

subsection \<open>Publishing a block\<close>

text \<open>The messages for the blocks that this validator approved.\<close>

definition approval_messages :: "environment \<Rightarrow> processor \<Rightarrow> sent_block_ptr list \<Rightarrow> message list" where
  "approval_messages env p to_approve =
     concat (map (\<lambda>block.
       case sp_approved p (sent_block_get_id block) of
         Some (time, signature) \<Rightarrow>
           if time \<le> get_time (sp_description p) (env_now env)
           then [ApprovedBlock (sp_current_round p) (sent_block_get_id block) signature] else []
       | None \<Rightarrow> []) to_approve)"

definition submit_messages :: "processor \<Rightarrow> message list option" where
  "submit_messages p =
     (if sp_generated p \<and> \<not> sp_sent_generated p
      then do { (candidate, _) \<leftarrow> get_signed_block_for_round p (sp_current_round p) (sp_generated_block p);
                Some [SubmittedBlock (sp_current_round p) (tc_root_hash candidate)
                  (ext_sha256 (sd_ext (sp_description p)) (tc_data candidate))
                  (ext_sha256 (sd_ext (sp_description p)) (tc_collated_data candidate))] }
      else Some [])"

definition commit_messages :: "processor \<Rightarrow> message list option" where
  "commit_messages p =
     (if sp_signed p
      then do { block \<leftarrow> session_choose_block_to_sign (sp_real_state p) (get_local_idx p);
                case block of
                  None \<Rightarrow> Some []
                | Some block \<Rightarrow>
                    do { rs_assert (sent_block_get_id block = sp_signed_block p);
                         Some [Commit (sp_current_round p) (sp_signed_block p) (sp_signature p)] } }
      else Some [])"

definition vote_for_messages ::
  "session_description \<Rightarrow> nat \<Rightarrow> u32 \<Rightarrow> u32 \<Rightarrow> session_state \<Rightarrow> (session_state \<times> message list) option" where
  "vote_for_messages desc random local_idx attempt state =
     do { need \<leftarrow> session_check_need_generate_vote_for desc state local_idx attempt;
          if need
          then do { msg \<leftarrow> session_generate_vote_for desc state random local_idx attempt;
                    state \<leftarrow> session_apply_action desc state local_idx attempt msg;
                    Some (state, [msg]) }
          else Some (state, []) }"

text \<open>
  The loop that creates and applies messages until an empty one; a loop that does not end has no value.
\<close>

definition is_empty_message :: "message \<Rightarrow> bool" where
  "is_empty_message msg = (case msg of Empty _ _ \<Rightarrow> True | _ \<Rightarrow> False)"

partial_function (option) action_loop ::
  "session_description \<Rightarrow> u32 \<Rightarrow> u32 \<Rightarrow> session_state \<Rightarrow> message list \<Rightarrow> (session_state \<times> message list) option" where
  "action_loop desc local_idx attempt state messages =
     do { msg \<leftarrow> session_create_action desc state local_idx attempt;
          state \<leftarrow> session_apply_action desc state local_idx attempt msg;
          if is_empty_message msg then Some (state, messages @ [msg])
          else action_loop desc local_idx attempt state (messages @ [msg]) }"

definition process_blocks :: "environment \<Rightarrow> nat list \<Rightarrow> processor \<Rightarrow> processor option" where
  "process_blocks env blocks p =
     do { let desc = sp_description p;
          let local_idx = get_local_idx p;
          let p = p\<lparr>sp_requested_new_block := False, sp_requested_new_block_now := False\<rparr>;
          real_state \<leftarrow> merge_deps p (sp_real_state p) blocks;
          let p = p\<lparr>sp_real_state := real_state\<rparr>;
          let round = get_current_round_sequence_number real_state;
          p \<leftarrow> (if round \<noteq> sp_current_round p then new_round env round p else Some p);
          attempt \<leftarrow> get_attempt_sequence_number desc (env_ts env);
          submitted \<leftarrow> submit_messages p;
          let p = (if submitted \<noteq> [] then p\<lparr>sp_sent_generated := True\<rparr> else p);
          to_approve \<leftarrow> session_choose_blocks_to_approve desc (sp_real_state p) local_idx;
          let approved = approval_messages env p to_approve;
          let rejected = map (\<lambda>(block_id, reason). RejectedBlock (sp_current_round p) block_id reason) (sp_pending_reject p);
          let p = p\<lparr>sp_pending_reject := []\<rparr>;
          committed \<leftarrow> commit_messages p;
          let messages = submitted @ approved @ rejected @ committed;
          state \<leftarrow> apply_actions desc local_idx attempt messages (sp_real_state p);
          (state, vote_for) \<leftarrow> vote_for_messages desc (env_random env) local_idx attempt state;
          (state, messages) \<leftarrow> action_loop desc local_idx attempt state (messages @ vote_for);
          let p = call (ProcessedBlock \<lparr> bu_ts = env_ts env, bu_actions = messages \<rparr>) (p\<lparr>sp_real_state := state\<rparr>);
          let round = get_current_round_sequence_number state;
          p \<leftarrow> (if round > sp_current_round p then new_round env round p else Some p);
          virtual_state \<leftarrow> merge_states p (sp_virtual_state p) (sp_real_state p);
          Some (p\<lparr>sp_virtual_state := virtual_state\<rparr>) }"

definition finished_catchain_processing :: "environment \<Rightarrow> processor \<Rightarrow> processor option" where
  "finished_catchain_processing env p = check_all env (p\<lparr>sp_virtual_state := sp_real_state p\<rparr>)"

subsection \<open>Start of the catchain, broadcasts and queries\<close>

fun notify_approved_candidates :: "sent_block_ptr list \<Rightarrow> processor \<Rightarrow> processor option" where
  "notify_approved_candidates [] p = Some p"
| "notify_approved_candidates (None # blocks) p = notify_approved_candidates blocks p"
| "notify_approved_candidates (Some block # blocks) p =
     do { key \<leftarrow> get_source_public_key (sp_description p) (sb_source_id block);
          _ \<leftarrow> get_source_public_key_hash (sp_description p) (sb_source_id block);
          notify_approved_candidates blocks
            (call (OnGetApprovedCandidate key (sb_root_hash block) (sb_file_hash block) (sb_collated_data_file_hash block)) p) }"

definition catchain_started :: "environment \<Rightarrow> processor \<Rightarrow> processor option" where
  "catchain_started env p =
     do { let p = p\<lparr>sp_catchain_started := True\<rparr>;
          self_approved_blocks \<leftarrow> session_get_blocks_approved_by (sp_virtual_state p) (get_local_idx p);
          p \<leftarrow> notify_approved_candidates self_approved_blocks p;
          check_all env p }"

definition process_broadcast ::
  "environment \<Rightarrow> public_key_hash \<Rightarrow> bytes \<Rightarrow> sys_time \<Rightarrow> processor \<Rightarrow> processor option" where
  "process_broadcast env src_id data creation_time p =
     do { let desc = sp_description p;
          src_idx \<leftarrow> get_source_index desc src_id;
          case env_parse_candidate env data of
            None \<Rightarrow> Some p
          | Some candidate \<Rightarrow>
              if tc_src candidate \<noteq> src_id then Some p
              else if length (tc_data candidate) > unat (max_block_size (sd_options desc)) \<or>
                      length (tc_collated_data candidate) > unat (max_collated_data_size (sd_options desc)) then Some p
              else
                do { block_id \<leftarrow> candidate_id desc src_idx (tc_root_hash candidate)
                       (ext_sha256 (sd_ext desc) (tc_data candidate)) (ext_sha256 (sd_ext desc) (tc_collated_data candidate));
                     if tc_round candidate < sp_current_round p then Some p
                     else if get_signed_block_for_round p (tc_round candidate) block_id \<noteq> None then Some p
                     else
                       do { priority \<leftarrow> get_node_priority desc src_idx (tc_round candidate);
                            if priority < 0 then Some p
                            else
                              do { let p = insert_signed_block_for_round (tc_round candidate) block_id (candidate, creation_time) p;
                                   if tc_round candidate \<noteq> sp_current_round p then Some p
                                   else
                                     do { rs_assert (block_id \<notin> sp_pending_approve p);
                                          rs_assert (sp_approved p block_id = None);
                                          rs_assert (map_of (sp_pending_reject p) block_id = None);
                                          rs_assert (block_id \<notin> sp_rejected p);
                                          blocks \<leftarrow> session_choose_blocks_to_approve desc (sp_virtual_state p) (get_local_idx p);
                                          case find (\<lambda>block. sent_block_get_id block = block_id) blocks of
                                            None \<Rightarrow> Some p
                                          | Some block \<Rightarrow> try_approve_block env block p } } } } }"

definition process_query :: "environment \<Rightarrow> bytes \<Rightarrow> processor \<Rightarrow> processor option" where
  "process_query env data p =
     (let desc = sp_description p; current = get_current_round_sequence_number (sp_real_state p) in
      case env_parse_query env data of
        None \<Rightarrow> Some (call (QueryFailed CannotParse) p)
      | Some query \<Rightarrow>
          if dq_round query > current then Some (call (QueryFailed TooBigRound) p)
          else
            do { src_idx \<leftarrow> get_source_index desc (dq_src query);
                 id \<leftarrow> candidate_id desc src_idx (dq_root_hash query) (dq_file_hash query) (dq_collated_data_file_hash query);
                 found \<leftarrow>
                   (if dq_round query < current then
                      do { block \<leftarrow> get_committed_block (sp_real_state p) (dq_round query);
                           (case block of
                              None \<Rightarrow> Some (Inl WrongBlockOldRound)
                            | Some block \<Rightarrow>
                                if sent_block_get_id block \<noteq> id then Some (Inl WrongBlockOldRound)
                                else do { b \<leftarrow> block; Some (Inr b) }) }
                    else
                      (case session_get_block (sp_real_state p) id of
                         Some (Some b) \<Rightarrow>
                           do { approved \<leftarrow> session_check_block_is_approved_by (sp_real_state p) (get_local_idx p) id;
                                Some (if approved then Inr b else Inl NotApproved) }
                       | _ \<Rightarrow> Some (Inl WrongBlockCurrentRound)));
                 case found of
                   Inl err \<Rightarrow> Some (call (QueryFailed err) p)
                 | Inr block \<Rightarrow>
                     do { key \<leftarrow> get_source_public_key desc (sb_source_id block);
                          Some (call (OnGetApprovedCandidate key (dq_root_hash query) (dq_file_hash query)
                                  (dq_collated_data_file_hash query)) p) } })"

end
