(* ===== verification/VS_Choices.thy ===== *)
theory VS_Choices
  imports VS_Round_Invariant
begin

text \<open>
  What the validators choose in a round (\<^verbatim>\<open>validator-session/src/round.rs\<close>, \<^verbatim>\<open>round_attempt.rs\<close>): the blocks to
  approve, the block to vote for, the next action, and the vote-for message of a slow attempt. The lemmas give
  each choice as a specification over the approvals, votes and precommits of the round, and show that the
  message a validator creates has the effect it announces.
\<close>

subsection \<open>Priorities are distinct\<close>

lemma mod_shift_inject:
  fixes n :: nat
  assumes "i < n" and "j < n" and "m < n" and "(i + n - m) mod n = (j + n - m) mod n"
  shows "i = j"
  using assms by (auto simp: mod_if split: if_splits)

lemma node_priority_inject:
  assumes "wf_desc desc" and "unat i < nodes_count desc" and "unat j < nodes_count desc"
    and "get_node_priority desc i s = Some p" and "get_node_priority desc j s = Some p" and "0 \<le> p"
  shows "i = j"
proof -
  let ?n = "nodes_count desc" and ?m = "unat s mod nodes_count desc"
  define k where "k = unat (round_candidates (sd_options desc))"
  have "(if (unat i + ?n - ?m) mod ?n < k then int ((unat i + ?n - ?m) mod ?n) else - 1) = p"
    "(if (unat j + ?n - ?m) mod ?n < k then int ((unat j + ?n - ?m) mod ?n) else - 1) = p"
    using node_priority_eq [OF assms(1,2), of s] node_priority_eq [OF assms(1,3), of s] assms(4,5)
    by (simp_all add: Let_def k_def)
  with assms(6) have "(unat i + ?n - ?m) mod ?n = (unat j + ?n - ?m) mod ?n"
    by (auto split: if_splits)
  moreover have "?m < ?n" using assms(1) by (simp add: wf_desc_def)
  ultimately have "unat i = unat j" using mod_shift_inject assms(2,3) by blast
  then show ?thesis by (rule unsigned_word_eqI)
qed

subsection \<open>Blocks to approve\<close>

text \<open>A block that is the only one of its author in the round.\<close>

definition sole_block :: "block_candidate list \<Rightarrow> block_candidate \<Rightarrow> bool" where
  "sole_block cs c \<longleftrightarrow> c \<in> set cs \<and> bc_block c \<noteq> None \<and>
     (\<forall>c' \<in> set cs. bc_block c' \<noteq> None \<longrightarrow>
        block_candidate_get_source_index c' = block_candidate_get_source_index c \<longrightarrow> c' = c)"

text \<open>The slots after some of the candidates: a slot holds the sole block of the author of its priority.\<close>

definition approve_slots ::
  "session_description \<Rightarrow> u32 \<Rightarrow> nat \<Rightarrow> block_candidate list \<Rightarrow> block_candidate option list \<Rightarrow> u32 list \<Rightarrow> bool \<Rightarrow> bool" where
  "approve_slots desc s i cs slots authors was_empty \<longleftrightarrow>
     length slots = unat (round_candidates (sd_options desc)) + 1 \<and>
     set authors = block_candidate_get_source_index ` {c \<in> set cs. bc_block c \<noteq> None} \<and>
     (\<forall>p < length slots. \<forall>c. slots ! p = Some c \<longleftrightarrow>
        sole_block cs c \<and> candidate_priority desc s c = int p \<and> \<not> approved_at c i) \<and>
     (was_empty \<longleftrightarrow> (\<exists>c \<in> set cs. bc_block c = None \<and> approved_at c i))"

definition proposed_ok :: "session_description \<Rightarrow> submission set \<Rightarrow> u32 \<Rightarrow> block_candidate \<Rightarrow> bool" where
  "proposed_ok desc B s c \<longleftrightarrow> wf_block_candidate (nodes_count desc) c \<and> known_block desc B (bc_block c) \<and>
     proposer_ok desc s (bc_block c)"

lemma proposed_priority:
  assumes "wf_desc desc" and "proposed_ok desc B s c" and "bc_block c \<noteq> None"
  shows "get_node_priority desc (block_candidate_get_source_index c) s = Some (candidate_priority desc s c)"
    and "0 \<le> candidate_priority desc s c"
    and "nat (candidate_priority desc s c) < unat (round_candidates (sd_options desc))"
    and "proposed_ok desc B s c' \<Longrightarrow> bc_block c' \<noteq> None \<Longrightarrow> candidate_priority desc s c' = candidate_priority desc s c \<Longrightarrow>
      block_candidate_get_source_index c' = block_candidate_get_source_index c"
proof -
  have range: "get_node_priority desc (block_candidate_get_source_index x) s = Some (candidate_priority desc s x)"
    "0 \<le> candidate_priority desc s x" "unat (block_candidate_get_source_index x) < nodes_count desc"
    if "proposed_ok desc B s x" "bc_block x \<noteq> None" for x
    using that candidate_priority_range [OF assms(1), of B x s] known_block_source [of desc B]
    by (auto simp: proposed_ok_def block_candidate_get_source_index_def)
  show "get_node_priority desc (block_candidate_get_source_index c) s = Some (candidate_priority desc s c)"
    "0 \<le> candidate_priority desc s c" by (rule range(1,2) [OF assms(2,3)])+
  show "nat (candidate_priority desc s c) < unat (round_candidates (sd_options desc))"
  proof (rule node_priority_range [OF assms(1) range(3) [OF assms(2,3)], of s])
    fix p
    define k where "k = unat (round_candidates (sd_options desc))"
    assume "get_node_priority desc (block_candidate_get_source_index c) s = Some p" "p < int (unat (round_candidates (sd_options desc)))"
    then have "candidate_priority desc s c < int k" using range(1) [OF assms(2,3)] unfolding k_def by simp
    then show ?thesis using range(2) [OF assms(2,3)] by (simp flip: k_def add: nat_less_iff)
  qed
  show "block_candidate_get_source_index c' = block_candidate_get_source_index c"
    if "proposed_ok desc B s c'" "bc_block c' \<noteq> None" "candidate_priority desc s c' = candidate_priority desc s c"
    using node_priority_inject [OF assms(1) range(3) [OF that(1,2)] range(3) [OF assms(2,3)]]
      range(1,2) [OF that(1,2)] range(1) [OF assms(2,3)] that(3) by simp
qed

lemma sole_block_snoc:
  assumes "c \<notin> set cs" and "bc_block c \<noteq> None"
  shows "sole_block (cs @ [c]) x \<longleftrightarrow>
    (if block_candidate_get_source_index c \<in> block_candidate_get_source_index ` {c \<in> set cs. bc_block c \<noteq> None}
     then sole_block cs x \<and> block_candidate_get_source_index x \<noteq> block_candidate_get_source_index c
     else sole_block cs x \<or> x = c)"
  using assms by (auto simp: sole_block_def image_iff)

lemma sole_block_snoc_None:
  "bc_block c = None \<Longrightarrow> sole_block (cs @ [c]) x \<longleftrightarrow> sole_block cs x"
  by (auto simp: sole_block_def)

lemma approve_slots_step:
  assumes "wf_desc desc" and "approve_slots desc s i cs slots authors was_empty"
    and cs: "\<forall>c' \<in> set cs. proposed_ok desc B s c'" and c: "proposed_ok desc B s c" "c \<notin> set cs" "bc_block c \<noteq> None"
  defines "p \<equiv> nat (candidate_priority desc s c)"
  shows "p < length slots"
    and "block_candidate_get_source_index c \<in> set authors \<Longrightarrow> approve_slots desc s i (cs @ [c]) (slots[p := None]) authors was_empty"
    and "block_candidate_get_source_index c \<notin> set authors \<Longrightarrow>
      approve_slots desc s i (cs @ [c]) (if approved_at c i then slots else slots[p := Some c]) (block_candidate_get_source_index c # authors) was_empty"
proof -
  note prio = proposed_priority [OF assms(1) c(1,3)]
  have slots: "length slots = unat (round_candidates (sd_options desc)) + 1"
    "set authors = block_candidate_get_source_index ` {c \<in> set cs. bc_block c \<noteq> None}"
    "\<And>q x. q < length slots \<Longrightarrow> slots ! q = Some x \<longleftrightarrow> sole_block cs x \<and> candidate_priority desc s x = int q \<and> \<not> approved_at x i"
    "was_empty \<longleftrightarrow> (\<exists>c \<in> set cs. bc_block c = None \<and> approved_at c i)"
    using assms(2) unfolding approve_slots_def by blast+
  show p: "p < length slots" using prio(3) by (simp add: p_def slots(1))
  have same: "candidate_priority desc s x = candidate_priority desc s c \<longleftrightarrow>
      block_candidate_get_source_index x = block_candidate_get_source_index c" if "sole_block cs x" for x
    using that cs prio(1,4) proposed_priority(1) [OF assms(1), of B s x] by (metis option.inject sole_block_def)
  have at_p: "candidate_priority desc s x = int p \<longleftrightarrow> candidate_priority desc s x = candidate_priority desc s c" for x
    using prio(2) by (simp add: p_def)
  note sole = sole_block_snoc [OF c(2,3)]
  show "approve_slots desc s i (cs @ [c]) (slots[p := None]) authors was_empty"
    if "block_candidate_get_source_index c \<in> set authors"
  proof -
    have "slots[p := None] ! q = Some x \<longleftrightarrow>
        sole_block (cs @ [c]) x \<and> candidate_priority desc s x = int q \<and> \<not> approved_at x i" if "q < length slots" for q x
      using that p slots(3) [OF that] same [of x] at_p [of x] \<open>_ \<in> set authors\<close>
      by (auto simp: nth_list_update sole slots(2))
    then show ?thesis
      using slots that c(3) by (auto simp: approve_slots_def)
  qed
  show "approve_slots desc s i (cs @ [c]) (if approved_at c i then slots else slots[p := Some c])
      (block_candidate_get_source_index c # authors) was_empty"
    if "block_candidate_get_source_index c \<notin> set authors"
  proof -
    have other: "candidate_priority desc s x \<noteq> int p" if "sole_block cs x" for x
    proof
      assume "candidate_priority desc s x = int p"
      then have "block_candidate_get_source_index x = block_candidate_get_source_index c"
        using same [OF that] at_p [of x] by simp
      moreover have "block_candidate_get_source_index x \<in> set authors"
        unfolding slots(2) using that by (simp add: sole_block_def)
      ultimately show False using \<open>_ \<notin> set authors\<close> by simp
    qed
    have "(if approved_at c i then slots else slots[p := Some c]) ! q = Some x \<longleftrightarrow>
        sole_block (cs @ [c]) x \<and> candidate_priority desc s x = int q \<and> \<not> approved_at x i" if "q < length slots" for q x
    proof -
      have "sole_block (cs @ [c]) x \<longleftrightarrow> sole_block cs x \<or> x = c" using sole [of x] \<open>_ \<notin> set authors\<close> by (simp add: slots(2))
      moreover have "\<not> sole_block cs c" using c(2) by (simp add: sole_block_def)
      moreover have "candidate_priority desc s c = int q \<longleftrightarrow> q = p" using prio(2) by (auto simp: p_def)
      ultimately show ?thesis
        using that p slots(3) [OF that, of x] other [of x] by (cases "x = c"; cases "q = p") auto
    qed
    moreover have "set (block_candidate_get_source_index c # authors) =
        block_candidate_get_source_index ` {c' \<in> set (cs @ [c]). bc_block c' \<noteq> None}"
      using slots(2) c(3) by auto
    moreover have "length (if approved_at c i then slots else slots[p := Some c]) = length slots" by simp
    moreover have "was_empty \<longleftrightarrow> (\<exists>c \<in> set (cs @ [c]). bc_block c = None \<and> approved_at c i)" using slots(4) c(3) by auto
    ultimately show ?thesis
      using slots(1) unfolding approve_slots_def by presburger
  qed
qed

lemma approve_slots_step_None:
  assumes "approve_slots desc s i cs slots authors was_empty" and "bc_block c = None" and "\<forall>c' \<in> set cs. bc_block c' \<noteq> None"
  shows "approve_slots desc s i (cs @ [c]) slots authors (approved_at c i)"
  using assms by (auto simp: approve_slots_def sole_block_snoc_None)

lemma choose_blocks_loop_total:
  assumes "wf_desc desc" and "unat i < nodes_count desc"
    and "\<forall>c \<in> set (ds @ cs). proposed_ok desc B s c" and "distinct (map block_candidate_get_id (ds @ cs))"
    and "approve_slots desc s (unat i) ds slots authors was_empty"
  shows "\<exists>slots' authors' was_empty'. choose_blocks_to_approve_loop desc s i cs slots authors was_empty = Some (slots', was_empty') \<and>
    approve_slots desc s (unat i) (ds @ cs) slots' authors' was_empty'"
  using assms(3-)
proof (induction cs arbitrary: ds slots authors was_empty)
  case (Cons c cs)
  have c: "proposed_ok desc B s c" "c \<notin> set ds" "\<forall>c' \<in> set ds. proposed_ok desc B s c'"
    "\<forall>c' \<in> set ds. block_candidate_get_id c' \<noteq> block_candidate_get_id c"
    using Cons.prems(1,2) by (auto simp: image_iff)
  have rest: "\<forall>c' \<in> set ((ds @ [c]) @ cs). proposed_ok desc B s c'" "distinct (map block_candidate_get_id ((ds @ [c]) @ cs))"
    using Cons.prems(1,2) by auto
  have at: "block_candidate_check_block_is_approved_by c i = Some (approved_at c (unat i))"
    using c(1) assms(2) is_approved_by_total [of "nodes_count desc" c i] by (simp add: proposed_ok_def)
  show ?case
  proof (cases "bc_block c")
    case None
    then have "\<forall>c' \<in> set ds. bc_block c' \<noteq> None"
      using c(4) by (metis block_candidate_get_id_eq)
    then show ?thesis
      using Cons.IH [OF rest approve_slots_step_None [OF Cons.prems(3) None]] None at by simp
  next
    case (Some b)
    then have own: "bc_block c \<noteq> None" by simp
    note prio = proposed_priority(1,2) [OF assms(1) c(1) own] and step = approve_slots_step [OF assms(1) Cons.prems(3) c(3,1,2) own]
    show ?thesis
    proof (cases "block_candidate_get_source_index c \<in> set authors")
      case True
      then show ?thesis
        using Cons.IH [OF rest step(2) [OF True]] Some prio step(1) by simp
    next
      case False
      then show ?thesis
        using Cons.IH [OF rest step(3) [OF False]] Some prio step(1) at by (cases "approved_at c (unat i)") simp_all
    qed
  qed
qed auto

lemma set_map_filter_id: "c \<in> set (List.map_filter id xs) \<longleftrightarrow> (\<exists>p < length xs. xs ! p = Some c)"
proof -
  have "c \<in> set (List.map_filter id xs) \<longleftrightarrow> Some c \<in> set xs"
    by (induction xs) (auto simp: List.map_filter_def)
  then show ?thesis by (auto simp: in_set_conv_nth)
qed

lemma sorted_map_filter_id:
  assumes "\<And>p c. p < length xs \<Longrightarrow> xs ! p = Some c \<Longrightarrow> f c = int p"
  shows "sorted_wrt (<) (map f (List.map_filter id xs))"
  using assms
proof (induction xs rule: rev_induct)
  case (snoc x xs)
  have "sorted_wrt (<) (map f (List.map_filter id xs))"
    using snoc.prems by (intro snoc.IH) (metis length_append_singleton less_SucI nth_append)
  moreover have "f c < f d" if c: "c \<in> set (List.map_filter id xs)" and d: "x = Some d" for c d
  proof -
    obtain p where "p < length xs" "xs ! p = Some c" using c unfolding set_map_filter_id by blast
    then show ?thesis using snoc.prems [of p c] snoc.prems [of "length xs" d] d by (auto simp: nth_append)
  qed
  ultimately have "sorted_wrt (<) (map f (List.map_filter id xs @ (case x of None \<Rightarrow> [] | Some d \<Rightarrow> [d])))"
    by (cases x) (simp_all add: sorted_wrt_append)
  moreover have "List.map_filter id (xs @ [x]) = List.map_filter id xs @ (case x of None \<Rightarrow> [] | Some d \<Rightarrow> [d])"
    by (cases x) (simp_all add: List.map_filter_def)
  ultimately show ?case by (simp only:)
qed (simp add: List.map_filter_def)

text \<open>The priority of a block: that of its author, and after all authors for the empty block.\<close>

definition block_priority :: "session_description \<Rightarrow> u32 \<Rightarrow> sent_block_ptr \<Rightarrow> int" where
  "block_priority desc s block = candidate_priority desc s \<lparr> bc_block = block, bc_approved_by = [] \<rparr>"

lemma block_priority_of_candidate: "block_priority desc s (bc_block c) = candidate_priority desc s c"
  by (simp add: block_priority_def candidate_priority_def)

text \<open>
  A validator is asked to approve, in the order of the priorities, every block that is the only one of its
  author and that it has not approved, and at the end the empty block unless it approved that.
\<close>

lemma choose_blocks_to_approve_total:
  assumes "wf_desc desc" and "wf_round desc B r" and "unat i < nodes_count desc"
  shows "\<exists>bs. choose_blocks_to_approve desc r i = Some bs \<and>
    (\<forall>b. Some b \<in> set bs \<longleftrightarrow> (\<exists>c. sole_block (round_blocks r) c \<and> bc_block c = Some b \<and> \<not> approved_at c (unat i))) \<and>
    (None \<in> set bs \<longleftrightarrow> \<not> (\<exists>c \<in> set (round_blocks r). bc_block c = None \<and> approved_at c (unat i))) \<and>
    sorted_wrt (<) (map (block_priority desc (rs_sequence_number r)) bs)"
proof (cases "rs_sent_blocks r")
  case None
  then show ?thesis
    by (auto simp: choose_blocks_to_approve_def round_blocks_def sole_block_def)
next
  case (Some cs)
  let ?s = "rs_sequence_number r" and ?k = "unat (round_candidates (sd_options desc))"
  have cs: "round_blocks r = cs" using Some by (simp add: round_blocks_def)
  have sorted: "key_sorted block_candidate_get_id cs" and ok: "\<forall>c \<in> set cs. proposed_ok desc B ?s c"
    using wf_roundD(2) [OF assms(2)] by (auto simp: wf_round_blocks_def proposed_ok_def cs)
  have "distinct (map block_candidate_get_id cs)"
    using sorted by (auto simp: key_sorted_def strict_sorted_iff)
  moreover have "approve_slots desc ?s (unat i) [] (replicate (?k + 1) None) [] False"
    by (simp add: approve_slots_def sole_block_def del: replicate_Suc)
  ultimately obtain slots authors was_empty where
    loop: "choose_blocks_to_approve_loop desc ?s i cs (replicate (?k + 1) None) [] False = Some (slots, was_empty)"
    and slots: "approve_slots desc ?s (unat i) cs slots authors was_empty"
    using choose_blocks_loop_total [OF assms(1,3), of "[]" cs B ?s "replicate (?k + 1) None" "[]" False] ok
    by (auto simp del: replicate_Suc replicate.simps)
  let ?bs = "map bc_block (List.map_filter id slots)"
  have slot: "slots ! p = Some c \<longleftrightarrow> sole_block cs c \<and> candidate_priority desc ?s c = int p \<and> \<not> approved_at c (unat i)"
    if "p < length slots" for p c
    using slots that unfolding approve_slots_def by blast
  have slot_of: "\<exists>p < length slots. slots ! p = Some c" if "sole_block cs c" "\<not> approved_at c (unat i)" for c
  proof (intro exI conjI)
    have "proposed_ok desc B ?s c" "bc_block c \<noteq> None" using that ok by (auto simp: sole_block_def)
    note prio = proposed_priority [OF assms(1) this]
    show len: "nat (candidate_priority desc ?s c) < length slots" using prio(3) slots by (simp add: approve_slots_def)
    show "slots ! nat (candidate_priority desc ?s c) = Some c" using slot [OF len] prio(2) that by simp
  qed
  have chosen: "c \<in> set (List.map_filter id slots) \<longleftrightarrow> sole_block cs c \<and> \<not> approved_at c (unat i)" for c
    using slot slot_of by (auto simp: set_map_filter_id)
  have run: "choose_blocks_to_approve desc r i = Some (if was_empty then ?bs else ?bs @ [None])"
    using loop max_priority_plus(3) [OF assms(1)] Some by (simp add: choose_blocks_to_approve_def)
  have "sorted_wrt (<) (map (candidate_priority desc ?s) (List.map_filter id slots))"
    by (rule sorted_map_filter_id) (simp add: slot)
  then have bs: "sorted_wrt (<) (map (block_priority desc ?s) ?bs)"
    by (simp add: comp_def block_priority_of_candidate)
  have None: "block_priority desc ?s None = int ?k" by (simp add: block_priority_def candidate_priority_def)
  have below: "block_priority desc ?s b < int ?k" if "b \<in> set ?bs" for b
  proof -
    from that obtain c where c: "sole_block cs c" "b = bc_block c" using chosen by auto
    then have "proposed_ok desc B ?s c" "bc_block c \<noteq> None" using ok by (auto simp: sole_block_def)
    from proposed_priority(2,3) [OF assms(1) this] show ?thesis
      unfolding c(2) block_priority_of_candidate by linarith
  qed
  have "sorted_wrt (<) (map (block_priority desc ?s) (?bs @ [None]))"
    using bs below by (simp add: sorted_wrt_append None)
  moreover have "None \<notin> set ?bs" using chosen by (auto simp: sole_block_def)
  moreover have "Some b \<in> set ?bs \<longleftrightarrow> (\<exists>c. sole_block cs c \<and> bc_block c = Some b \<and> \<not> approved_at c (unat i))" for b
    using chosen by (auto simp: image_iff) metis
  moreover have "was_empty \<longleftrightarrow> (\<exists>c \<in> set cs. bc_block c = None \<and> approved_at c (unat i))"
    using slots by (simp add: approve_slots_def)
  ultimately show ?thesis using run bs unfolding cs by (cases was_empty) auto
qed

subsection \<open>The block to vote for\<close>

abbreviation first_attempt_of :: "round_state \<Rightarrow> u32 \<Rightarrow> u32" where
  "first_attempt_of r i \<equiv> vector_wrapper_iter (rs_first_attempt r) ! unat i"

abbreviation last_precommit_of :: "round_state \<Rightarrow> u32 \<Rightarrow> u32" where
  "last_precommit_of r i \<equiv> vector_wrapper_iter (rs_last_precommit r) ! unat i"

definition slow_mode :: "session_description \<Rightarrow> round_state \<Rightarrow> u32 \<Rightarrow> u32 \<Rightarrow> bool" where
  "slow_mode desc r i s \<longleftrightarrow>
     first_attempt_of r i > 0 \<and> first_attempt_of r i + max_round_attempts (sd_options desc) \<le> s \<or>
     max_round_attempts (sd_options desc) = 0"

lemma voted_blocks_sent:
  assumes "wf_desc desc" and "wf_round desc B r" and "round_voted desc r s b"
  shows "rs_sent_blocks r \<noteq> None"
proof -
  note wf = wf_roundD [OF assms(2)]
  obtain a where a: "a \<in> set (round_attempts r)" using round_voted_attempt [OF assms(1,3)] by auto
  obtain i where "round_vote r s b i"
    using vp.quorum_member [OF assms(1), of "round_vote r s b"] assms(3) by (auto simp: round_voted_def)
  then obtain a where "a \<in> set (round_attempts r)" "attempt_vote a b i" by (auto simp: round_vote_def)
  then have "round_approved desc r b"
    using attempt_blocks_vote [OF wf_round_attemptD(1,2) [OF wf(3)]] by (fastforce simp: round_approved_block_def)
  then obtain c where "c \<in> set (round_blocks r)" using round_approved_iff [OF assms(1) wf(2)] by blast
  then show ?thesis by (cases "rs_sent_blocks r") (auto simp: round_blocks_def)
qed

text \<open>A validator that precommitted votes for the block it is locked on.\<close>

lemma choose_block_locked:
  assumes "wf_desc desc" and "wf_round desc B r" and "unat i < nodes_count desc" and "last_precommit_of r i \<noteq> 0"
  shows "\<exists>block. choose_block_to_vote desc r i s vote_for = Some (Some block) \<and>
    round_voted desc r (last_precommit_of r i) (sent_block_get_id block)"
proof -
  note wf = wf_roundD [OF assms(2)] and vectors = wf_round_vectorsD [OF wf_roundD(1) [OF assms(2)] assms(3)]
  obtain b where voted: "round_voted desc r (last_precommit_of r i) b"
    using wf_round_last_precommit [OF assms(2,3) refl assms(4)] by blast
  obtain a block where a: "get_attempt (rs_attempts r) (last_precommit_of r i) = Some (Some a)" "a \<in> set (round_attempts r)"
    "ra_sequence_number a = last_precommit_of r i" "get_voted_block desc a = Some (Some block)" "voted_block desc a = Some block"
    using last_precommit_voted [OF assms(1) wf(3) voted] by metis
  have "last_precommit_of r i > 0" using assms(4) word_neq_0_conv by blast
  then have "choose_block_to_vote desc r i s vote_for = Some (Some block)"
    using voted_blocks_sent [OF assms(1,2) voted] a(1,4) vectors(2) by (simp add: choose_block_to_vote_def)
  moreover have "attempt_voted desc a (sent_block_get_id block)"
    by (rule voted_block_SomeD(1) [OF assms(1) wf_round_attemptD(1) [OF wf(3) a(2)] a(5)])
  ultimately show ?thesis
    using round_vote_of_attempt(3) [OF wf(3) a(2)] a(3) by simp
qed

lemma choose_block_slow:
  assumes "wf_round desc B r" and "unat i < nodes_count desc" and "last_precommit_of r i = 0" and "slow_mode desc r i s"
  shows "choose_block_to_vote desc r i s vote_for = Some (if rs_sent_blocks r = None then None else vote_for)"
  using assms(3,4) wf_round_vectorsD [OF wf_roundD(1) [OF assms(1)] assms(2)]
  by (simp add: choose_block_to_vote_def slow_mode_def)

lemma find_rev_split:
  "List.find P (rev xs) = Some x \<Longrightarrow> \<exists>ys zs. xs = ys @ x # zs \<and> P x \<and> (\<forall>z \<in> set zs. \<not> P z)"
proof (induction xs rule: rev_induct)
  case (snoc z xs)
  show ?case
  proof (cases "P z")
    case True
    with snoc.prems show ?thesis by (intro exI [of _ xs] exI [of _ "[]"]) simp
  next
    case False
    with snoc obtain ys zs where "xs = ys @ x # zs" "P x" "\<forall>z \<in> set zs. \<not> P z" by auto
    with False show ?thesis by (intro exI [of _ ys] exI [of _ "zs @ [z]"]) simp
  qed
qed simp

text \<open>
  Otherwise the block of the latest attempt with a voted block, and without one an approved block of the
  least priority.
\<close>

lemma choose_block_latest:
  assumes "wf_desc desc" and "wf_round desc B r" and "unat i < nodes_count desc"
    and "last_precommit_of r i = 0" and "\<not> slow_mode desc r i s" and "round_voted desc r s' b"
  shows "\<exists>block a. choose_block_to_vote desc r i s vote_for = Some (Some block) \<and> a \<in> set (round_attempts r) \<and>
    attempt_voted desc a (sent_block_get_id block) \<and> s' \<le> ra_sequence_number a"
proof -
  note wf = wf_roundD [OF assms(2)] and vectors = wf_round_vectorsD [OF wf_roundD(1) [OF assms(2)] assms(3)]
  let ?voted = "\<lambda>a. voted_block desc a \<noteq> None"
  obtain a' where a': "a' \<in> set (round_attempts r)" "ra_sequence_number a' = s'"
    using round_voted_attempt [OF assms(1,6)] by auto
  have "?voted a'"
    using assms(6) a' round_vote_of_attempt(3) [OF wf(3) a'(1)] voted_block_None_iff [OF assms(1) wf_round_attemptD(1) [OF wf(3) a'(1)]]
    by metis
  then obtain a where a: "List.find ?voted (rev (round_attempts r)) = Some a"
    using a'(1) find_neq_None [of ?voted "rev (round_attempts r)"] by (metis not_None_eq set_rev)
  obtain ys zs where split: "round_attempts r = ys @ a # zs" "?voted a" "\<forall>z \<in> set zs. \<not> ?voted z"
    using find_rev_split [OF a] by blast
  obtain block where block: "voted_block desc a = Some block" using split(2) by blast
  have "first_voted_block desc (rev (round_attempts r)) = Some (Some block)"
    using first_voted_block_total [of desc "rev (round_attempts r)"] assms(1) wf_round_attemptD(1) [OF wf(3)] a block by simp
  then have "choose_block_to_vote desc r i s vote_for = Some (Some block)"
    using voted_blocks_sent [OF assms(1,2,6)] assms(4,5) vectors by (auto simp: choose_block_to_vote_def slow_mode_def round_attempts_def)
  moreover have "attempt_voted desc a (sent_block_get_id block)"
    using voted_block_SomeD(1) [OF assms(1) wf_round_attemptD(1) [OF wf(3)] block] split(1) by simp
  moreover have "s' \<le> ra_sequence_number a"
    using a' split(1,3) \<open>?voted a'\<close> wf(3) by (auto simp: wf_round_attempts_def key_sorted_append less_imp_le)
  ultimately show ?thesis using split(1) by auto
qed

lemma choose_block_least:
  assumes "wf_desc desc" and "wf_round desc B r" and "unat i < nodes_count desc"
    and "last_precommit_of r i = 0" and "\<not> slow_mode desc r i s" and "\<And>s' b. \<not> round_voted desc r s' b"
  shows "\<exists>block. choose_block_to_vote desc r i s vote_for = Some block \<and>
    (block = None \<longrightarrow> (\<forall>c \<in> set (round_blocks r). \<not> candidate_approved desc c)) \<and>
    (\<forall>b. block = Some b \<longrightarrow> (\<exists>c \<in> set (round_blocks r). candidate_approved desc c \<and> bc_block c = b \<and>
       (\<forall>c' \<in> set (round_blocks r). candidate_approved desc c' \<longrightarrow>
          candidate_priority desc (rs_sequence_number r) c \<le> candidate_priority desc (rs_sequence_number r) c')))"
proof -
  note wf = wf_roundD [OF assms(2)] and vectors = wf_round_vectorsD [OF wf_roundD(1) [OF assms(2)] assms(3)]
  let ?max = "as_i32 (get_max_priority desc + 2)" and ?s = "rs_sequence_number r"
  have none: "first_voted_block desc (rev (vector_wrapper_iter (rs_attempts r))) = Some None"
  proof -
    have "voted_block desc a = None" if "a \<in> set (round_attempts r)" for a
      using assms(6) round_vote_of_attempt(3) [OF wf(3) that] voted_block_None_iff [OF assms(1) wf_round_attemptD(1) [OF wf(3) that]]
      by metis
    then have "List.find (\<lambda>a. voted_block desc a \<noteq> None) (rev (round_attempts r)) = None"
      by (simp add: find_None_iff_set)
    then show ?thesis
      using first_voted_block_total [of desc "rev (round_attempts r)"] assms(1) wf_round_attemptD(1) [OF wf(3)]
      by (simp add: round_attempts_def)
  qed
  have cs: "\<forall>c \<in> set (round_blocks r). wf_block_candidate (nodes_count desc) c \<and> known_block desc B (bc_block c) \<and>
      proposer_ok desc ?s (bc_block c)"
    using wf(2) by (simp add: wf_round_blocks_def)
  obtain m block where loop: "choose_block_to_vote_loop desc ?s (vector_wrapper_iter (rs_sent_blocks r)) ?max None = Some (m, block)"
    "\<forall>c \<in> set (round_blocks r). candidate_approved desc c \<longrightarrow> m \<le> candidate_priority desc ?s c"
    "m = ?max \<and> block = None \<or> (\<exists>c \<in> set (round_blocks r). candidate_approved desc c \<and> block = Some (bc_block c) \<and> m = candidate_priority desc ?s c)"
    using choose_block_to_vote_loop_total [OF assms(1) cs, of ?max None] unfolding round_blocks_def by blast
  have below: "candidate_priority desc ?s c < ?max" if "c \<in> set (round_blocks r)" for c
    using candidate_priority_range(2) [OF assms(1)] cs that by blast
  have run: "choose_block_to_vote desc r i s vote_for = Some block"
  proof (cases "rs_sent_blocks r")
    case None
    then show ?thesis using loop(3) by (simp add: choose_block_to_vote_def round_blocks_def)
  next
    case (Some bs)
    have "block = None \<or> \<not> ?max \<le> m" using loop(3) below by (metis not_le)
    with Some show ?thesis
      using none loop(1) assms(4,5) vectors by (auto simp: choose_block_to_vote_def slow_mode_def)
  qed
  show ?thesis
    using run loop(2,3) below by (intro exI [of _ block]) fastforce
qed

subsection \<open>The next action of a validator\<close>

datatype next_step = NextVote sent_block_ptr | NextPrecommit sent_block_ptr | NextNothing

text \<open>The step the rules ask of validator \<open>i\<close> in an attempt: vote, else precommit, else nothing.\<close>

definition next_step_of :: "session_description \<Rightarrow> round_attempt \<Rightarrow> nat \<Rightarrow> sent_block_ptr option \<Rightarrow> next_step" where
  "next_step_of desc a i chosen =
     (case (vote_received a i, chosen) of
        (False, Some block) \<Rightarrow> NextVote block
      | _ \<Rightarrow> (case (attempt_precommit a i, voted_block desc a) of
                (False, Some block) \<Rightarrow> NextPrecommit block
              | _ \<Rightarrow> NextNothing))"

lemma default_action_next_step:
  assumes "wf_desc desc" and "wf_attempt desc a" and "unat i < nodes_count desc"
    and "rv_choose_block_to_vote view i s (ra_vote_for a) = Some chosen"
  shows "apply_default_action desc a i s m view a = Some
    (case next_step_of desc a (unat i) chosen of
       NextVote block \<Rightarrow> (attempt_add_vote desc a (unat i) block, True)
     | NextPrecommit block \<Rightarrow> (attempt_add_precommit a (unat i), True)
     | NextNothing \<Rightarrow> (a, False))"
proof -
  have vote: "try_vote desc a i s m view a = Some (case (vote_received a (unat i), chosen) of
      (False, Some block) \<Rightarrow> (attempt_add_vote desc a (unat i) block, True) | _ \<Rightarrow> (a, False))"
  proof (cases "vote_received a (unat i) \<or> chosen = None")
    case True
    then show ?thesis
      using assms(4) by (auto simp: try_vote_def check_vote_received_total [OF assms(2,3)])
  next
    case False
    then obtain block where block: "chosen = Some block" "\<not> vote_received a (unat i)" by auto
    have "vote_candidate_push (attempt_candidate desc a block) i = Some (vote_candidate_add (attempt_candidate desc a block) (unat i))"
      using assms(1-3) attempt_candidate_props(2) by (intro vote_candidate_push_total)
    then show ?thesis
      using block assms(4) votes_push_total [OF assms(2)]
      by (simp add: try_vote_def check_vote_received_total [OF assms(2,3)] attempt_add_vote_def flip: attempt_candidate_def)
  qed
  have precommit: "try_precommit desc a i s m view a = Some (case (attempt_precommit a (unat i), voted_block desc a) of
      (False, Some block) \<Rightarrow> (attempt_add_precommit a (unat i), True) | _ \<Rightarrow> (a, False))"
    using wf_attemptD(3) [OF assms(2)] assms(3)
    by (auto simp: try_precommit_def check_precommit_received_total [OF assms(2)] get_voted_block_total [OF assms(1,2)]
        attempt_add_precommit_def split: option.splits)
  show ?thesis
    unfolding apply_default_action_def vote precommit next_step_of_def
    by (auto split: option.splits bool.splits)
qed

lemma create_action_next_step:
  assumes "wf_desc desc" and "wf_attempt desc a" and "unat i < nodes_count desc"
    and "rv_choose_block_to_vote view i s (ra_vote_for a) = Some chosen"
  shows "round_attempt_create_action desc a view i s = Some
    (case next_step_of desc a (unat i) chosen of
       NextVote block \<Rightarrow> Vote (rv_sequence_number view) (ra_sequence_number a) (sent_block_get_id block)
     | NextPrecommit block \<Rightarrow> Precommit (rv_sequence_number view) (ra_sequence_number a) (sent_block_get_id block)
     | NextNothing \<Rightarrow> Empty (rv_sequence_number view) (ra_sequence_number a))"
  using assms(4)
  by (auto simp: round_attempt_create_action_def next_step_of_def check_vote_received_total [OF assms(2,3)]
      check_precommit_received_total [OF assms(2,3)] get_voted_block_total [OF assms(1,2)] split: option.splits bool.splits)

definition round_next_step :: "session_description \<Rightarrow> round_state \<Rightarrow> u32 \<Rightarrow> u32 \<Rightarrow> next_step" where
  "round_next_step desc r i s =
     (if rs_precommitted_block r \<noteq> None then NextNothing
      else next_step_of desc (attempt_or_new desc r s) (unat i)
        (the (choose_block_to_vote desc r i s (ra_vote_for (attempt_or_new desc r s)))))"

lemma round_view_simps [simp]:
  "rv_sequence_number (round_view_of desc r) = rs_sequence_number r"
  "rv_choose_block_to_vote (round_view_of desc r) = choose_block_to_vote desc r"
  by (simp_all add: round_view_of_def)

lemma choose_for_attempt:
  assumes "wf_desc desc" and "wf_round desc B r" and "unat i < nodes_count desc"
  obtains chosen where "choose_block_to_vote desc r i s (ra_vote_for (attempt_or_new desc r s)) = Some chosen"
    "\<And>block. chosen = Some block \<Longrightarrow> round_approved_block desc B r block"
proof -
  have "round_approved_block desc B r block" if "ra_vote_for (attempt_or_new desc r s) = Some block" for block
    using that attempt_or_new_props(2) [OF assms(1) wf_roundD(3) [OF assms(2)], of s] by (auto simp: attempt_ok_def attempt_blocks_def)
  from choose_block_to_vote_total [OF assms this] show thesis using that by blast
qed

lemma round_create_action_next_step:
  assumes "wf_desc desc" and "wf_round desc B r" and "unat i < nodes_count desc"
  shows "round_create_action desc r i s = Some
    (case round_next_step desc r i s of
       NextVote block \<Rightarrow> Vote (rs_sequence_number r) s (sent_block_get_id block)
     | NextPrecommit block \<Rightarrow> Precommit (rs_sequence_number r) s (sent_block_get_id block)
     | NextNothing \<Rightarrow> Empty (rs_sequence_number r) s)"
proof -
  note wf = wf_roundD [OF assms(2)] and new = attempt_or_new_props [OF assms(1) wf_roundD(3) [OF assms(2)], where s = s]
  obtain chosen where chosen: "choose_block_to_vote desc r i s (ra_vote_for (attempt_or_new desc r s)) = Some chosen"
    by (rule choose_for_attempt [OF assms])
  have wfa: "wf_attempt desc (attempt_or_new desc r s)" using new(2) by (simp add: attempt_ok_def)
  note create = create_action_next_step [OF assms(1) wfa assms(3), of "round_view_of desc r" s chosen, unfolded new(1) round_view_simps]
  show ?thesis
  proof (cases "key_map ra_sequence_number (round_attempts r) s")
    case (Some a)
    then have a: "attempt_or_new desc r s = a" by (simp add: attempt_or_new_def)
    with Some create chosen new(1) get_attempt_or_new [OF wf(3), of s] show ?thesis
      by (simp add: round_create_action_def round_next_step_def)
  next
    case None
    then have a: "attempt_or_new desc r s = round_attempt_create_empty desc s" by (simp add: attempt_or_new_def)
    have "voted_block desc (round_attempt_create_empty desc s) = None" by (simp add: voted_block_def)
    with None a chosen get_attempt_or_new [OF wf(3), of s] show ?thesis
      by (auto simp: round_create_action_def round_next_step_def next_step_of_def split: option.splits bool.splits)
  qed
qed

lemma round_next_step_props:
  assumes "wf_desc desc" and "wf_round desc B r" and "unat i < nodes_count desc"
  shows "round_next_step desc r i s = NextVote block \<Longrightarrow>
      rs_precommitted_block r = None \<and> round_approved_block desc B r block \<and> (\<forall>b. \<not> round_vote r s b (unat i))"
    and "round_next_step desc r i s = NextPrecommit block \<Longrightarrow>
      rs_precommitted_block r = None \<and> round_voted desc r s (sent_block_get_id block) \<and> \<not> round_precommit r s (unat i)"
proof -
  note wf = wf_roundD [OF assms(2)] and new = attempt_or_new_props [OF assms(1) wf_roundD(3) [OF assms(2)], where s = s]
  let ?a = "attempt_or_new desc r s"
  obtain chosen where chosen: "choose_block_to_vote desc r i s (ra_vote_for ?a) = Some chosen"
    "\<And>block. chosen = Some block \<Longrightarrow> round_approved_block desc B r block"
    by (rule choose_for_attempt [OF assms]) blast
  have wfa: "wf_attempt desc ?a" using new(2) by (simp add: attempt_ok_def)
  have step: "round_next_step desc r i s = (if rs_precommitted_block r \<noteq> None then NextNothing else next_step_of desc ?a (unat i) chosen)"
    by (simp add: round_next_step_def chosen(1))
  have voted: "round_voted desc r s b" if "attempt_voted desc ?a b" for b
    using that new(3) by (simp add: attempt_voted_def round_voted_def)
  show "rs_precommitted_block r = None \<and> round_approved_block desc B r block \<and> (\<forall>b. \<not> round_vote r s b (unat i))"
    if "round_next_step desc r i s = NextVote block"
    using that chosen(2) new(3)
    by (auto simp: step next_step_of_def vote_received_iff split: if_splits option.splits bool.splits)
  show "rs_precommitted_block r = None \<and> round_voted desc r s (sent_block_get_id block) \<and> \<not> round_precommit r s (unat i)"
    if "round_next_step desc r i s = NextPrecommit block"
    using that new(4) [OF assms(3)] voted voted_block_SomeD(1) [OF assms(1) wfa]
    by (auto simp: step next_step_of_def split: if_splits option.splits bool.splits)
qed

text \<open>
  The message a validator creates does what it says: applied to the same round it records the vote or the
  precommit, and when there is nothing to say the implicit actions do nothing either.
\<close>

definition no_attempt_wrap :: "session_description \<Rightarrow> round_state \<Rightarrow> u32 \<Rightarrow> u32 \<Rightarrow> bool" where
  "no_attempt_wrap desc r i s \<longleftrightarrow>
     unat s + unat (max_round_attempts (sd_options desc)) < 2 ^ 32 \<and>
     unat (first_attempt_of r i) + unat (max_round_attempts (sd_options desc)) < 2 ^ 32"

lemma slow_mode_first_attempt:
  assumes "wf_round desc B r" and "unat i < nodes_count desc" and "update_first_attempt r i s = Some (r', made)"
    and "no_attempt_wrap desc r i s"
  shows "slow_mode desc r' i s \<longleftrightarrow> slow_mode desc r i s"
proof -
  let ?max = "max_round_attempts (sd_options desc)"
  obtain fa where fa: "rs_first_attempt r = Some fa" "length fa = nodes_count desc"
    using wf_roundD(1) [OF assms(1)] by (auto simp: wf_round_vectors_def)
  have sum: "s + ?max \<le> s \<longleftrightarrow> ?max = 0" "fa ! unat i + ?max \<le> s \<longleftrightarrow> unat (fa ! unat i) + unat ?max \<le> unat s"
    using assms(4) fa by (auto simp: no_attempt_wrap_def word_le_nat_alt unat_add_u32 unat_eq_0)
  show ?thesis
  proof (cases "fa ! unat i = 0 \<or> fa ! unat i > s")
    case True
    then have "rs_first_attempt r' = Some (fa[unat i := s])"
      using assms(2,3) fa by (auto simp: update_first_attempt_def)
    then show ?thesis
      using True fa assms(2) sum by (auto simp: slow_mode_def word_less_nat_alt)
  next
    case False
    then show ?thesis using assms(2,3) fa by (auto simp: update_first_attempt_def slow_mode_def)
  qed
qed

lemma choose_first_attempt:
  assumes "wf_round desc B r" and "unat i < nodes_count desc" and "update_first_attempt r i s = Some (r', made)"
    and "no_attempt_wrap desc r i s"
  shows "choose_block_to_vote desc r' i s vote_for = choose_block_to_vote desc r i s vote_for"
    and "round_next_step desc r' i s = round_next_step desc r i s"
proof -
  obtain fa where r': "r' = r\<lparr>rs_first_attempt := fa\<rparr>" "wf_round desc B r'"
    using update_first_attempt_total [OF assms(1,2), where s = s and n = 0 and src = 0] assms(3) by auto
  note vectors = wf_round_vectorsD [OF wf_roundD(1)] and slow = slow_mode_first_attempt [OF assms]
  show choose: "choose_block_to_vote desc r' i s vote_for = choose_block_to_vote desc r i s vote_for" for vote_for
    using vectors(1) [OF r'(2) assms(2)] vectors(1,2) [OF assms(1,2)] slow r'(1)
    by (cases "rs_sent_blocks r"; cases "0 < last_precommit_of r i"; cases "slow_mode desc r i s")
      (auto simp: choose_block_to_vote_def slow_mode_def)
  have "attempt_or_new desc r' s = attempt_or_new desc r s"
    using r'(1) by (simp add: attempt_or_new_def round_attempts_def)
  with choose show "round_next_step desc r' i s = round_next_step desc r i s"
    using r'(1) by (simp add: round_next_step_def)
qed

lemma on_attempt_attempts:
  assumes "wf_desc desc" and "wf_round desc B r" and "unat i < nodes_count desc" and "s \<noteq> 0"
    and "rs_precommitted_block r = None" and "is_attempt_message m"
  shows "\<exists>r' a. apply_action_on_attempt desc r i s m r = Some r' \<and>
    round_attempt_apply_action desc (attempt_or_new desc r s) i s m (round_view_of desc r) = Some a \<and>
    rs_attempts r' = Some (key_insert ra_sequence_number a (round_attempts r))"
proof -
  note wf = wf_roundD [OF assms(2)]
  obtain r' where r': "apply_action_on_attempt desc r i s m r = Some r'"
    using apply_action_on_attempt_total [OF assms(1-4,6)] by blast
  with assms(5) show ?thesis
    by (auto simp: apply_action_on_attempt_def Let_def get_attempt_or_new [OF wf(3)] attempt_or_new_def push_attempt_total [OF wf(3)]
        split: bind_splits option.splits)
qed

lemma round_apply_next_step:
  assumes "wf_desc desc" and "no_collisions desc B" and "wf_round desc B r" and "unat i < nodes_count desc" and "s \<noteq> 0"
    and "no_attempt_wrap desc r i s" and "(\<exists>x y b. m = Vote x y b \<or> m = Precommit x y b \<or> m = Empty x y)"
    and "round_apply_action desc r i s m = Some r'"
  shows "round_next_step desc r i s = NextVote block \<Longrightarrow> round_vote r' s (sent_block_get_id block) (unat i)"
    and "round_next_step desc r i s = NextPrecommit block \<Longrightarrow> round_precommit r' s (unat i)"
    and "round_next_step desc r i s = NextNothing \<Longrightarrow>
      round_vote r' = round_vote r \<and> (\<forall>j < nodes_count desc. round_precommit r' s j = round_precommit r s j)"
proof -
  obtain r1 made where r1: "update_first_attempt r i s = Some (r1, made)" "wf_round desc B r1" "\<exists>fa. r1 = r\<lparr>rs_first_attempt := fa\<rparr>"
    by (rule update_first_attempt_total [OF assms(3,4), where s = s and n = 0 and src = 0])
  note wf = wf_roundD [OF r1(2)] and step = choose_first_attempt(2) [OF assms(3,4) r1(1) assms(6), symmetric]
    and new = attempt_or_new_props [OF assms(1) wf_roundD(3) [OF r1(2)], where s = s]
  have same: "rs_precommitted_block r1 = rs_precommitted_block r" "round_vote r1 = round_vote r" "round_precommit r1 = round_precommit r"
    using r1(3) round_relations_cong(4,5) [of r1 r] by auto
  have run: "apply_action_on_attempt desc r1 i s m r1 = Some r'"
    using assms(7,8) r1(1) by (auto simp: round_apply_action_def round_apply_action_dispatch_def)
  have "(\<forall>block. round_next_step desc r1 i s = NextVote block \<longrightarrow> round_vote r' s (sent_block_get_id block) (unat i)) \<and>
    (\<forall>block. round_next_step desc r1 i s = NextPrecommit block \<longrightarrow> round_precommit r' s (unat i)) \<and>
    (round_next_step desc r1 i s = NextNothing \<longrightarrow>
      round_vote r' = round_vote r1 \<and> (\<forall>j < nodes_count desc. round_precommit r' s j = round_precommit r1 s j))"
  proof (cases "rs_precommitted_block r1")
    case (Some block)
    with run show ?thesis by (auto simp: apply_action_on_attempt_def round_next_step_def)
  next
    case None
    let ?a = "attempt_or_new desc r1 s"
    have wfa: "wf_attempt desc ?a" using new(2) by (simp add: attempt_ok_def)
    obtain chosen where chosen: "choose_block_to_vote desc r1 i s (ra_vote_for ?a) = Some chosen"
      by (rule choose_for_attempt [OF assms(1) r1(2) assms(4)])
    have next_step: "round_next_step desc r1 i s = next_step_of desc ?a (unat i) chosen" by (simp add: round_next_step_def None chosen)
    obtain a where a: "round_attempt_apply_action desc ?a i s m (round_view_of desc r1) = Some a"
      "rs_attempts r' = Some (key_insert ra_sequence_number a (round_attempts r1))"
    proof -
      have "is_attempt_message m" using assms(7) by blast
      from on_attempt_attempts [OF assms(1) r1(2) assms(4,5) None this] show thesis using run that by auto
    qed
    have "a = (case next_step_of desc ?a (unat i) chosen of NextVote block \<Rightarrow> attempt_add_vote desc ?a (unat i) block
      | NextPrecommit block \<Rightarrow> attempt_add_precommit ?a (unat i) | NextNothing \<Rightarrow> ?a)"
      using a(1) assms(7) default_action_next_step [OF assms(1) wfa assms(4), of "round_view_of desc r1" s chosen] chosen
      by (auto simp: round_attempt_apply_action_def round_attempt_apply_action_dispatch_def split: next_step.splits)
    moreover from this have seq: "ra_sequence_number a = s" using new(1) by (simp split: next_step.splits)
    moreover note push = set_push_attempt [OF _ seq a(2)]
    ultimately show ?thesis
      using wf(3) new(3,4) assms(1,4) wfa unfolding next_step
      by (auto simp: wf_round_attempts_def fun_eq_iff attempt_vote_add_vote attempt_precommit_add split: next_step.splits)
  qed
  then show "round_next_step desc r i s = NextVote block \<Longrightarrow> round_vote r' s (sent_block_get_id block) (unat i)"
    and "round_next_step desc r i s = NextPrecommit block \<Longrightarrow> round_precommit r' s (unat i)"
    and "round_next_step desc r i s = NextNothing \<Longrightarrow>
      round_vote r' = round_vote r \<and> (\<forall>j < nodes_count desc. round_precommit r' s j = round_precommit r s j)"
    unfolding step same by blast+
qed

subsection \<open>Vote-for messages\<close>

lemma is_approved_candidate:
  assumes "wf_desc desc" and "wf_round desc B r" and "c \<in> set (round_blocks r)"
  shows "block_candidate_check_block_is_approved desc c = Some (candidate_approved desc c)"
  using assms(1,3) wf_roundD(2) [OF assms(2)] by (intro is_approved_total) (simp_all add: wf_round_blocks_def)

lemma check_need_generate_vote_for_total:
  assumes "wf_desc desc" and "wf_round desc B r" and "unat i < nodes_count desc"
  shows "check_need_generate_vote_for desc r i s = Some
    (i = s mod get_total_nodes desc \<and> rs_precommitted_block r = None \<and>
     (max_round_attempts (sd_options desc) > 0 \<longrightarrow>
        first_attempt_of r i \<noteq> 0 \<and> \<not> first_attempt_of r i + max_round_attempts (sd_options desc) > s) \<and>
     ra_vote_for (attempt_or_new desc r s) = None \<and>
     (\<exists>c \<in> set (round_blocks r). candidate_approved desc c))"
proof -
  note wf = wf_roundD [OF assms(2)]
  have author: "get_vote_for_author desc s = Some (s mod get_total_nodes desc)"
    using assms(1) by (simp add: get_vote_for_author_def)
  have find: "find_first (block_candidate_check_block_is_approved desc) bs =
      Some (List.find (candidate_approved desc) (round_blocks r))" if "rs_sent_blocks r = Some bs" for bs
    using that is_approved_candidate [OF assms(1,2)] find_first_total [of bs _ "candidate_approved desc"] by (simp add: round_blocks_def)
  have attempt: "(case key_map ra_sequence_number (round_attempts r) s of Some a \<Rightarrow> ra_vote_for a \<noteq> None | None \<Rightarrow> False) \<longleftrightarrow>
      ra_vote_for (attempt_or_new desc r s) \<noteq> None"
    by (simp add: attempt_or_new_def split: option.splits)
  have blocks: "rs_sent_blocks r = None \<Longrightarrow> round_blocks r = []" by (simp add: round_blocks_def)
  show ?thesis
    using wf_round_vectorsD(1) [OF wf(1) assms(3)] blocks
    by (auto simp: check_need_generate_vote_for_def author get_first_attempt_def get_attempt_or_new [OF wf(3)] attempt find
        find_neq_None Let_def word_neq_0_conv simp del: not_None_eq)
qed

lemma generate_vote_for_total:
  assumes "wf_desc desc" and "wf_round desc B r" and "i = s mod get_total_nodes desc"
    and "\<exists>c \<in> set (round_blocks r). candidate_approved desc c"
  shows "\<exists>c \<in> set (round_blocks r). candidate_approved desc c \<and>
    generate_vote_for desc r random i s = Some (VoteFor (rs_sequence_number r) s (block_candidate_get_id c))"
proof -
  let ?cs = "filter (candidate_approved desc) (round_blocks r)"
  have "filter_loop (block_candidate_check_block_is_approved desc) (round_blocks r) = Some ?cs"
    using is_approved_candidate [OF assms(1,2)] by (intro filter_loop_total)
  moreover have len: "length ?cs > 0" using assms(4) by (auto simp: filter_empty_conv)
  moreover have "random mod length ?cs < length ?cs" using len by simp
  ultimately have "generate_vote_for desc r random i s =
      Some (VoteFor (rs_sequence_number r) s (block_candidate_get_id (?cs ! (random mod length ?cs))))"
    using assms(1,3) by (simp add: generate_vote_for_def get_vote_for_author_def round_blocks_def)
  moreover have "?cs ! (random mod length ?cs) \<in> set ?cs" using len by (intro nth_mem) simp
  ultimately show ?thesis by auto
qed

text \<open>
  The check of the receiver: outside of an unlimited number of attempts it only asks that the sender took
  part in the round before.
\<close>

lemma apply_vote_for_eq:
  assumes "wf_desc desc" and "wf_round desc B r" and "unat i < nodes_count desc"
    and "i = s mod get_total_nodes desc" and "ra_vote_for a = None"
    and "c \<in> set (round_blocks r)" and "candidate_approved desc c"
  shows "apply_vote_for_action desc a i s (block_candidate_get_id c) (round_view_of desc r) a = Some
    (if first_attempt_of r i = 0 \<and> max_round_attempts (sd_options desc) > 0 \<or>
        first_attempt_of r i > s \<and> max_round_attempts (sd_options desc) = 0
     then a else a\<lparr>ra_vote_for := Some (bc_block c)\<rparr>)"
proof -
  note wf = wf_roundD [OF assms(2)]
  have "get_block r (block_candidate_get_id c) = Some c"
    using wf(2) assms(6) by (simp add: get_block_eq wf_round_blocks_def key_map_member)
  moreover have "get_vote_for_author desc s = Some i"
    using assms(1,4) by (simp add: get_vote_for_author_def)
  ultimately show ?thesis
    using assms(5,7) is_approved_candidate [OF assms(1,2,6)] wf_round_vectorsD(1) [OF wf(1) assms(3)]
    by (auto simp: apply_vote_for_action_def round_view_of_def get_first_attempt_def Let_def)
qed

lemma attempt_or_new_push:
  assumes "wf_round_attempts desc B r" and "ra_sequence_number a = s"
    and "rs_attempts r' = Some (key_insert ra_sequence_number a (round_attempts r))"
  shows "attempt_or_new desc r' s = a"
  using assms key_map_insert [of ra_sequence_number "round_attempts r" a]
  by (simp add: attempt_or_new_def wf_round_attempts_def round_attempts_def)

lemma update_first_attempt_range:
  assumes "wf_round desc B r" and "unat i < nodes_count desc" and "update_first_attempt r i s = Some (r', made)" and "s \<noteq> 0"
  shows "first_attempt_of r' i \<noteq> 0 \<and> \<not> first_attempt_of r' i > s"
proof -
  obtain fa where "rs_first_attempt r = Some fa" "length fa = nodes_count desc"
    using wf_roundD(1) [OF assms(1)] by (auto simp: wf_round_vectors_def)
  with assms(2-4) show ?thesis by (auto simp: update_first_attempt_def split: if_splits)
qed

text \<open>The round records the sender's first attempt before the check, so the check never fails.\<close>

lemma vote_for_recorded:
  assumes "wf_desc desc" and "no_collisions desc B" and "wf_round desc B r" and "unat i < nodes_count desc" and "s \<noteq> 0"
    and "i = s mod get_total_nodes desc" and "rs_precommitted_block r = None" and "ra_vote_for (attempt_or_new desc r s) = None"
    and "c \<in> set (round_blocks r)" and "candidate_approved desc c"
  shows "\<exists>r'. round_apply_action desc r i s (VoteFor x y (block_candidate_get_id c)) = Some r' \<and>
    ra_vote_for (attempt_or_new desc r' s) = Some (bc_block c)"
proof -
  obtain r1 made fa where r1: "update_first_attempt r i s = Some (r1, made)" "wf_round desc B r1" "r1 = r\<lparr>rs_first_attempt := fa\<rparr>"
    using update_first_attempt_total [OF assms(3,4), where s = s and n = 0 and src = 0] by metis
  note new = attempt_or_new_props [OF assms(1) wf_roundD(3) [OF r1(2)], where s = s]
  let ?m = "VoteFor x y (block_candidate_get_id c)" and ?a = "attempt_or_new desc r1 s"
  have same: "round_blocks r1 = round_blocks r" "?a = attempt_or_new desc r s" "rs_precommitted_block r1 = None"
    using r1(3) assms(7) by (simp_all add: round_blocks_def attempt_or_new_def round_attempts_def)
  have first: "first_attempt_of r1 i \<noteq> 0" "\<not> first_attempt_of r1 i > s"
    using update_first_attempt_range [OF assms(3,4) r1(1) assms(5)] by blast+
  then have vote_for: "apply_vote_for_action desc ?a i s (block_candidate_get_id c) (round_view_of desc r1) ?a =
      Some (?a\<lparr>ra_vote_for := Some (bc_block c)\<rparr>)"
    using apply_vote_for_eq [OF assms(1) r1(2) assms(4,6), of ?a c] assms(8-10) same by auto
  have "is_attempt_message ?m" by blast
  from on_attempt_attempts [OF assms(1) r1(2) assms(4,5) same(3) this]
  obtain r' a where r': "apply_action_on_attempt desc r1 i s ?m r1 = Some r'"
    "round_attempt_apply_action desc ?a i s ?m (round_view_of desc r1) = Some a"
    "rs_attempts r' = Some (key_insert ra_sequence_number a (round_attempts r1))" by blast
  have "a = ?a\<lparr>ra_vote_for := Some (bc_block c)\<rparr>"
    using r'(2) vote_for by (simp add: round_attempt_apply_action_def round_attempt_apply_action_dispatch_def)
  then have "attempt_or_new desc r' s = ?a\<lparr>ra_vote_for := Some (bc_block c)\<rparr>"
    using attempt_or_new_push [OF wf_roundD(3) [OF r1(2)] _ r'(3)] new(1) by simp
  moreover have "round_apply_action desc r i s ?m = Some r'"
    using r1(1) r'(1) by (simp add: round_apply_action_def round_apply_action_dispatch_def)
  ultimately show ?thesis by simp
qed

subsection \<open>Created messages take effect\<close>

lemma created_action_effect:
  assumes "wf_desc desc" and "no_collisions desc B" and "wf_round desc B r" and "unat i < nodes_count desc" and "s \<noteq> 0"
    and "no_attempt_wrap desc r i s"
  shows "\<exists>m r'. round_create_action desc r i s = Some m \<and> round_apply_action desc r i s m = Some r' \<and>
    (case m of
       Vote _ _ b \<Rightarrow> (\<forall>b'. \<not> round_vote r s b' (unat i)) \<and> round_vote r' s b (unat i)
     | Precommit _ _ b \<Rightarrow> round_voted desc r s b \<and> \<not> round_precommit r s (unat i) \<and> round_precommit r' s (unat i)
     | Empty _ _ \<Rightarrow> round_vote r' = round_vote r \<and> (\<forall>j < nodes_count desc. round_precommit r' s j = round_precommit r s j)
     | _ \<Rightarrow> False)"
proof -
  note created = round_create_action_next_step [OF assms(1,3,4), of s]
    and applied = round_apply_next_step [OF assms(1-6)]
    and step = round_next_step_props [OF assms(1,3,4), of s]
  obtain m where m: "round_create_action desc r i s = Some m" "\<exists>x y b. m = Vote x y b \<or> m = Precommit x y b \<or> m = Empty x y"
    using created by (auto split: next_step.splits)
  then have "message_ok B i m" by (auto simp: message_ok_def)
  then obtain r' where r': "round_apply_action desc r i s m = Some r'"
    using round_apply_action_total [OF assms(1-5)] by blast
  show ?thesis
  proof (cases "round_next_step desc r i s")
    case (NextVote block)
    with m r' created applied(1) [OF m(2) r'] step(1) show ?thesis by auto
  next
    case (NextPrecommit block)
    with m r' created applied(2) [OF m(2) r'] step(2) show ?thesis by auto
  next
    case NextNothing
    with m r' created applied(3) [OF m(2) r'] show ?thesis by auto
  qed
qed

lemma needed_vote_for:
  assumes "wf_desc desc" and "no_collisions desc B" and "wf_round desc B r" and "unat i < nodes_count desc" and "s \<noteq> 0"
    and "check_need_generate_vote_for desc r i s = Some True"
  shows "\<exists>c r'. c \<in> set (round_blocks r) \<and> candidate_approved desc c \<and>
    generate_vote_for desc r random i s = Some (VoteFor (rs_sequence_number r) s (block_candidate_get_id c)) \<and>
    round_apply_action desc r i s (VoteFor (rs_sequence_number r) s (block_candidate_get_id c)) = Some r' \<and>
    ra_vote_for (attempt_or_new desc r' s) = Some (bc_block c)"
proof -
  have need: "i = s mod get_total_nodes desc" "rs_precommitted_block r = None" "ra_vote_for (attempt_or_new desc r s) = None"
    "\<exists>c \<in> set (round_blocks r). candidate_approved desc c"
    using assms(6) check_need_generate_vote_for_total [OF assms(1,3,4), of s] by auto
  obtain c where "c \<in> set (round_blocks r)" "candidate_approved desc c"
    "generate_vote_for desc r random i s = Some (VoteFor (rs_sequence_number r) s (block_candidate_get_id c))"
    using generate_vote_for_total [OF assms(1,3) need(1,4)] by blast
  with vote_for_recorded [OF assms(1-5) need(1-3)] show ?thesis by blast
qed

end
