(* ===== verification/VS_Session_Merge.thy ===== *)
theory VS_Session_Merge
  imports VS_Session
begin

text \<open>
  Merging the session states of two validators (\<^verbatim>\<open>SessionState::merge\<close> in
  \<^verbatim>\<open>validator-session/src/session_state.rs\<close>): for sessions that do not contradict each other the merge does
  not panic, keeps the invariant, loses nothing either session decided and does not depend on the order of
  its arguments. The last section collects every way a state comes about in an inductive relation and
  carries the invariant over it by rule induction.
\<close>

subsection \<open>Merging the decided rounds\<close>

lemma vector_merge_items_pairs:
  assumes "\<And>i. i < length ls \<Longrightarrow> i < length rs \<Longrightarrow> f (ls ! i) (rs ! i) = Some (g (ls ! i) (rs ! i))"
  shows "vector_merge_items False f ls rs = Some (list_join g ls rs)"
  using assms
proof (induction g ls rs rule: list_join.induct)
  case (1 g rs)
  show ?case by (induction rs) simp_all
next
  case (2 g l ls)
  have "vector_merge_items False f xs [] = Some xs" for xs by (induction xs) simp_all
  then show ?case by simp
next
  case (3 g l ls r rs)
  have "f l r = Some (g l r)" using "3.prems" [of 0] by simp
  moreover have "vector_merge_items False f ls rs = Some (list_join g ls rs)"
    using "3.prems" [of "Suc i" for i] by (intro "3.IH") simp
  ultimately show ?case by simp
qed

lemma vector_wrapper_merge_pairs:
  assumes "\<And>i. i < length (vector_wrapper_iter l) \<Longrightarrow> i < length (vector_wrapper_iter r) \<Longrightarrow>
      f (vector_wrapper_iter l ! i) (vector_wrapper_iter r ! i) = Some (g (vector_wrapper_iter l ! i) (vector_wrapper_iter r ! i))"
    and "\<And>x. g x x = x"
  shows "vector_wrapper_merge_impl l r False f = Some (combine_options (list_join g) l r)"
proof (cases l; cases r)
  fix ls rs assume eq: "l = Some ls" "r = Some rs"
  have "vector_merge_items False f ls rs = Some (list_join g ls rs)"
    using assms(1) eq by (intro vector_merge_items_pairs) auto
  moreover have "list_join g ls ls = ls" by (rule list_join_idem) (rule assms(2))
  ultimately show ?thesis
    using eq vector_ret_flags_left [of ls rs g] vector_ret_flags_right [of ls rs g] assms(2)
    by (auto simp: vector_wrapper_merge_impl_def vector_merge_impl_def Let_def)
qed (simp_all add: vector_wrapper_merge_impl_def)

lemma nth_list_join_cases:
  "i < max (length xs) (length ys) \<Longrightarrow>
     list_join g xs ys ! i = (if i < length xs then if i < length ys then g (xs ! i) (ys ! i) else xs ! i else ys ! i)"
  by (induction g xs ys arbitrary: i rule: list_join.induct) (auto simp: nth_Cons split: nat.splits)

text \<open>Two sessions that committed the same blocks, and whose current rounds do not contradict each other.\<close>

definition session_compatible :: "session_state \<Rightarrow> session_state \<Rightarrow> bool" where
  "session_compatible l r \<longleftrightarrow>
     (\<forall>k. k < length (session_old_rounds l) \<longrightarrow> k < length (session_old_rounds r) \<longrightarrow>
        or_block (session_old_rounds l ! k) = or_block (session_old_rounds r ! k)) \<and>
     (rs_sequence_number (ss_current_round l) = rs_sequence_number (ss_current_round r) \<longrightarrow>
        round_compatible (ss_current_round l) (ss_current_round r))"

abbreviation merged_old_rounds :: "session_state \<Rightarrow> session_state \<Rightarrow> old_round list" where
  "merged_old_rounds l r \<equiv> list_join old_round_join (session_old_rounds l) (session_old_rounds r)"

lemma old_rounds_merge_eq:
  assumes "wf_old_rounds desc B (session_old_rounds l)" and "wf_old_rounds desc B (session_old_rounds r)"
  shows "vector_wrapper_merge_impl (ss_old_rounds l) (ss_old_rounds r) False old_round_merge =
    Some (combine_options (list_join old_round_join) (ss_old_rounds l) (ss_old_rounds r))"
proof -
  have "old_round_join d d = d" for d by (simp add: old_round_join_def signatures_join.join_idem)
  moreover have "old_round_merge (session_old_rounds l ! i) (session_old_rounds r ! i) =
      Some (old_round_join (session_old_rounds l ! i) (session_old_rounds r ! i))"
    if "i < length (session_old_rounds l)" "i < length (session_old_rounds r)" for i
    using wf_old_rounds_nth [OF assms(1) that(1)] wf_old_rounds_nth [OF assms(2) that(2)]
    by (intro old_round_merge_total) (simp add: wf_old_round_def)
  ultimately show ?thesis
    by (intro vector_wrapper_merge_pairs) (auto simp: session_old_rounds_def)
qed

lemma iter_merged_old_rounds:
  "vector_wrapper_iter (combine_options (list_join old_round_join) (ss_old_rounds l) (ss_old_rounds r)) = merged_old_rounds l r"
  by (cases "ss_old_rounds l"; cases "ss_old_rounds r") (simp_all add: session_old_rounds_def)

lemma merged_old_rounds_props:
  assumes "wf_old_rounds desc B (session_old_rounds l)" and "wf_old_rounds desc B (session_old_rounds r)"
  shows "wf_old_rounds desc B (merged_old_rounds l r)"
    and "k < length (session_old_rounds l) \<Longrightarrow> old_round_extends (nodes_count desc) (session_old_rounds l ! k) (merged_old_rounds l r ! k)"
    and "session_compatible l r \<Longrightarrow> k < length (session_old_rounds r) \<Longrightarrow>
      old_round_extends (nodes_count desc) (session_old_rounds r ! k) (merged_old_rounds l r ! k)"
proof -
  note join = old_round_join_props [OF wf_old_rounds_nth [OF assms(1)] wf_old_rounds_nth [OF assms(2)]]
  show "wf_old_rounds desc B (merged_old_rounds l r)"
    unfolding wf_old_rounds_def
  proof (intro allI impI)
    fix k assume "k < length (merged_old_rounds l r)"
    then show "wf_old_round desc B (word_of_nat k) (merged_old_rounds l r ! k)"
      using join(1) wf_old_rounds_nth [OF assms(1), of k] wf_old_rounds_nth [OF assms(2), of k]
      by (auto simp: nth_list_join_cases)
  qed
  show "old_round_extends (nodes_count desc) (session_old_rounds l ! k) (merged_old_rounds l r ! k)"
    if "k < length (session_old_rounds l)"
    using that join(2) [of k] by (simp add: nth_list_join_cases)
  show "old_round_extends (nodes_count desc) (session_old_rounds r ! k) (merged_old_rounds l r ! k)"
    if "session_compatible l r" "k < length (session_old_rounds r)"
    using that join(3) [of k] by (simp add: nth_list_join_cases session_compatible_def)
qed

subsection \<open>Merging the current rounds\<close>

lemma merge_lagging_round:
  assumes "wf_old_rounds desc B (vector_wrapper_iter ds)" and "wf_round desc B q"
    and "unat (rs_sequence_number q) < length (vector_wrapper_iter ds)"
  obtains ds' where
    "do { old_round \<leftarrow> vector_wrapper_at ds (unat (rs_sequence_number q));
          old_round \<leftarrow> old_round_merge_round old_round q;
          old_rounds \<leftarrow> vector_wrapper_change ds (unat (rs_sequence_number q)) old_round;
          Some (r, old_rounds) } = Some (r, ds')"
    "wf_old_rounds desc B (vector_wrapper_iter ds')" "length (vector_wrapper_iter ds') = length (vector_wrapper_iter ds)"
    "\<And>k. k < length (vector_wrapper_iter ds) \<Longrightarrow>
       old_round_extends (nodes_count desc) (vector_wrapper_iter ds ! k) (vector_wrapper_iter ds' ! k)"
proof -
  let ?k = "unat (rs_sequence_number q)"
  obtain xs where xs: "ds = Some xs" using assms(3) by (cases ds) auto
  have "wf_old_round desc B (rs_sequence_number q) (xs ! ?k)"
    using wf_old_rounds_nth [OF assms(1,3)] xs by simp
  then obtain d where d: "old_round_merge_round (xs ! ?k) q = Some d" "wf_old_round desc B (rs_sequence_number q) d"
    "old_round_extends (nodes_count desc) (xs ! ?k) d"
    using old_round_merge_round_total [OF _ assms(2)] by blast
  have "wf_old_rounds desc B (xs[?k := d])"
    using assms(1) xs d(2) by (intro wf_old_rounds_update) auto
  then show thesis
    using assms(3) xs d by (intro that [of "Some (xs[?k := d])"]) (auto simp: nth_list_update)
qed

interpretation attempt_id_join: mergeable "\<lambda>l r :: u32. Some (max l r)" max
  by unfold_locales (simp_all add: max.commute max.left_commute max.assoc)

text \<open>The current round of the merged session, before it may be decided.\<close>

lemma merge_current_rounds_total:
  assumes "wf_desc desc" and "no_collisions desc B" and "wf_session desc B l" and "wf_session desc B r"
    and "session_compatible l r" and "vector_wrapper_iter ds = merged_old_rounds l r"
  obtains q ds' where "merge_current_rounds desc (ss_current_round l) (ss_current_round r) ds = Some (q, ds')"
    "wf_round desc B q" "wf_old_rounds desc B (vector_wrapper_iter ds')"
    "length (vector_wrapper_iter ds') = unat (rs_sequence_number q)"
    "rs_sequence_number q = max (rs_sequence_number (ss_current_round l)) (rs_sequence_number (ss_current_round r))"
    "\<And>k. k < length (vector_wrapper_iter ds) \<Longrightarrow>
       old_round_extends (nodes_count desc) (vector_wrapper_iter ds ! k) (vector_wrapper_iter ds' ! k)"
proof -
  note l = wf_sessionD [OF assms(3)] and r = wf_sessionD [OF assms(4)]
  let ?l = "rs_sequence_number (ss_current_round l)" and ?r = "rs_sequence_number (ss_current_round r)"
  have ds: "wf_old_rounds desc B (vector_wrapper_iter ds)"
    using merged_old_rounds_props(1) [OF l(5) r(5)] assms(6) by simp
  have len: "length (vector_wrapper_iter ds) = max (unat ?l) (unat ?r)"
    using l(4) r(4) assms(6) by simp
  note merge_def = merge_current_rounds_def [of desc "ss_current_round l" "ss_current_round r", unfolded Let_def]
  consider "?l < ?r" | "?r < ?l" | "?l = ?r" by (rule linorder_cases)
  then show thesis
  proof cases
    case 1
    then have seq: "unat ?l < length (vector_wrapper_iter ds)" "unat ?r = length (vector_wrapper_iter ds)" "max ?l ?r = ?r"
      using len by (simp_all add: word_less_nat_alt max_def word_le_nat_alt)
    show thesis
    proof (rule merge_lagging_round [OF ds l(2) seq(1), of "ss_current_round r"], goal_cases)
      case (1 ds')
      then show thesis
        using \<open>?l < ?r\<close> seq r(2) by (intro that [of "ss_current_round r" ds']) (simp_all only: merge_def if_True if_False)
    qed
  next
    case 2
    then have seq: "unat ?r < length (vector_wrapper_iter ds)" "unat ?l = length (vector_wrapper_iter ds)" "max ?l ?r = ?l"
      and not_less: "(?l < ?r) = False"
      using len by (simp_all add: word_less_nat_alt max_def word_le_nat_alt)
    show thesis
    proof (rule merge_lagging_round [OF ds r(2) seq(1), of "ss_current_round l"], goal_cases)
      case (1 ds')
      then show thesis
        using \<open>?r < ?l\<close> seq l(2) by (intro that [of "ss_current_round l" ds']) (simp_all only: merge_def not_less if_True if_False)
    qed
  next
    case 3
    then obtain m where m: "round_merge desc (ss_current_round l) (ss_current_round r) = Some m" "wf_round desc B m"
      "rs_sequence_number m = ?l"
      using round_merge_total [OF assms(1,2) l(2) r(2)] assms(5) by (auto simp: session_compatible_def round_merged_def)
    then show thesis using 3 ds len by (intro that [of m ds]) (auto simp: merge_def)
  qed
qed

lemma merged_attempt_ids:
  assumes "wf_session desc B l" and "wf_session desc B r"
  shows "length (list_join max (ss_attempt_ids l) (ss_attempt_ids r)) = nodes_count desc"
    and "a \<in> set (list_join max (ss_attempt_ids l) (ss_attempt_ids r)) \<Longrightarrow> a = 0 \<or> MIN_ATTEMPT_ID \<le> a"
    and "i < nodes_count desc \<Longrightarrow>
      list_join max (ss_attempt_ids l) (ss_attempt_ids r) ! i = max (ss_attempt_ids l ! i) (ss_attempt_ids r ! i)"
proof -
  note l = wf_sessionD [OF assms(1)] and r = wf_sessionD [OF assms(2)]
  show len: "length (list_join max (ss_attempt_ids l) (ss_attempt_ids r)) = nodes_count desc" using l(1) r(1) by simp
  show at: "list_join max (ss_attempt_ids l) (ss_attempt_ids r) ! i = max (ss_attempt_ids l ! i) (ss_attempt_ids r ! i)"
    if "i < nodes_count desc" for i
    using that l(1) r(1) by (simp add: nth_list_join)
  assume "a \<in> set (list_join max (ss_attempt_ids l) (ss_attempt_ids r))"
  then obtain i where i: "i < nodes_count desc" "a = max (ss_attempt_ids l ! i) (ss_attempt_ids r ! i)"
    using len at by (metis in_set_conv_nth)
  moreover have "ss_attempt_ids l ! i \<in> set (ss_attempt_ids l)" "ss_attempt_ids r ! i \<in> set (ss_attempt_ids r)"
    using i(1) l(1) r(1) by simp_all
  ultimately show "a = 0 \<or> MIN_ATTEMPT_ID \<le> a"
    using l(6) r(6) by (metis max_def)
qed

lemma session_merge_total:
  assumes "wf_desc desc" and "no_collisions desc B" and "wf_session desc B l" and "wf_session desc B r"
    and "session_compatible l r" and "round_number_left l" and "round_number_left r"
  shows "\<exists>m. session_merge desc l r = Some m \<and> wf_session desc B m \<and>
    session_extends (nodes_count desc) l m \<and> session_extends (nodes_count desc) r m"
proof -
  note l = wf_sessionD [OF assms(3)] and r = wf_sessionD [OF assms(4)] and ids = merged_attempt_ids [OF assms(3,4)]
  obtain ds where ds: "vector_wrapper_merge_impl (ss_old_rounds l) (ss_old_rounds r) False old_round_merge = Some ds"
    "vector_wrapper_iter ds = merged_old_rounds l r"
    using old_rounds_merge_eq [OF l(5) r(5)] iter_merged_old_rounds [of l r] by blast
  obtain q ds' where q: "merge_current_rounds desc (ss_current_round l) (ss_current_round r) ds = Some (q, ds')"
    "wf_round desc B q" "wf_old_rounds desc B (vector_wrapper_iter ds')"
    "length (vector_wrapper_iter ds') = unat (rs_sequence_number q)"
    "rs_sequence_number q = max (rs_sequence_number (ss_current_round l)) (rs_sequence_number (ss_current_round r))"
    "\<And>k. k < length (vector_wrapper_iter ds) \<Longrightarrow>
       old_round_extends (nodes_count desc) (vector_wrapper_iter ds ! k) (vector_wrapper_iter ds' ! k)"
    using merge_current_rounds_total [OF assms(1-5) ds(2)] by metis
  have len: "vector_wrapper_len ds' = unat (rs_sequence_number q)" using q(4) by (cases ds') auto
  have left: "unat (rs_sequence_number q) + 1 < 2 ^ 32" using assms(6,7) q(5) by (simp add: max_def)
  obtain q' ds'' where d: "(if cutoff_of desc \<le> weight_of desc (round_signed q) then switch_round desc q ds' else Some (q, ds')) = Some (q', ds'')"
    "wf_session desc B \<lparr> ss_attempt_ids = list_join max (ss_attempt_ids l) (ss_attempt_ids r), ss_current_round = q', ss_old_rounds = ds'' \<rparr>"
    "\<exists>zs. vector_wrapper_iter ds'' = vector_wrapper_iter ds' @ zs"
    using wf_session_decide [OF assms(1) ids(1,2) q(2,3) len left] by metis
  let ?m = "\<lparr> ss_attempt_ids = list_join max (ss_attempt_ids l) (ss_attempt_ids r), ss_current_round = q', ss_old_rounds = ds'' \<rparr>"
  have run: "session_merge desc l r = Some ?m"
    using assms(1) l(1) r(1) d(1) len ds(1) q(1) check_block_is_signed_total [OF assms(1) wf_roundD(1) [OF q(2)]]
    by (auto simp: session_merge_def attempt_id_join.vector_merge_total split: if_splits)
  have lens: "length (vector_wrapper_iter ds') = max (length (session_old_rounds l)) (length (session_old_rounds r))"
    using q(4,5) l(4) r(4) by (simp add: max_def word_le_nat_alt)
  have keeps: "old_round_extends (nodes_count desc) (merged_old_rounds l r ! k) (session_old_rounds ?m ! k)"
    if "k < max (length (session_old_rounds l)) (length (session_old_rounds r))" for k
    using q(6) [of k] d(3) ds(2) that lens by (auto simp: session_old_rounds_def nth_append)
  have "length (session_old_rounds ?m) \<ge> length (vector_wrapper_iter ds')" using d(3) by (auto simp: session_old_rounds_def)
  moreover have "old_round_extends (nodes_count desc) (session_old_rounds l ! k) (session_old_rounds ?m ! k)"
    if "k < length (session_old_rounds l)" for k
    using merged_old_rounds_props(2) [OF l(5) r(5) that] keeps [of k] that by (auto intro: old_round_extends_trans)
  moreover have "old_round_extends (nodes_count desc) (session_old_rounds r ! k) (session_old_rounds ?m ! k)"
    if "k < length (session_old_rounds r)" for k
    using merged_old_rounds_props(3) [OF l(5) r(5) assms(5) that] keeps [of k] that by (auto intro: old_round_extends_trans)
  ultimately have "session_extends (nodes_count desc) l ?m" "session_extends (nodes_count desc) r ?m"
    using lens ids(3) by (simp_all add: session_extends_def)
  with run d(2) show ?thesis by blast
qed

subsection \<open>The merge is symmetric\<close>

lemma list_join_commute_pairs:
  assumes "\<And>i. i < length xs \<Longrightarrow> i < length ys \<Longrightarrow> g (xs ! i) (ys ! i) = g (ys ! i) (xs ! i)"
  shows "list_join g xs ys = list_join g ys xs"
  using assms by (intro nth_equalityI) (auto simp: nth_list_join_cases max.commute)

lemma session_merge_commute:
  assumes "no_collisions desc B" and "wf_session desc B l" and "wf_session desc B r" and "session_compatible l r"
  shows "session_merge desc l r = session_merge desc r l"
proof -
  note l = wf_sessionD [OF assms(2)] and r = wf_sessionD [OF assms(3)]
  have "old_round_join (session_old_rounds l ! k) (session_old_rounds r ! k) = old_round_join (session_old_rounds r ! k) (session_old_rounds l ! k)"
    if "k < length (session_old_rounds l)" "k < length (session_old_rounds r)" for k
    using old_round_join_props(5) [OF wf_old_rounds_nth [OF l(5) that(1)] wf_old_rounds_nth [OF r(5) that(2)]] assms(4) that
    by (simp add: session_compatible_def)
  then have joined: "merged_old_rounds l r = merged_old_rounds r l" by (rule list_join_commute_pairs)
  have "vector_wrapper_merge_impl (ss_old_rounds l) (ss_old_rounds r) False old_round_merge =
      vector_wrapper_merge_impl (ss_old_rounds r) (ss_old_rounds l) False old_round_merge"
    unfolding old_rounds_merge_eq [OF l(5) r(5)] old_rounds_merge_eq [OF r(5) l(5)]
    using joined by (cases "ss_old_rounds l"; cases "ss_old_rounds r") (auto simp: session_old_rounds_def)
  moreover have "merge_current_rounds desc (ss_current_round l) (ss_current_round r) ds =
      merge_current_rounds desc (ss_current_round r) (ss_current_round l) ds" for ds
    using round_merge_commute [OF assms(1) l(2) r(2)] assms(4)
    by (auto simp: merge_current_rounds_def Let_def session_compatible_def)
  moreover have "list_join max (ss_attempt_ids l) (ss_attempt_ids r) = list_join max (ss_attempt_ids r) (ss_attempt_ids l)"
    by (rule list_join_commute) (rule max.commute)
  ultimately show ?thesis
    by (simp add: session_merge_def attempt_id_join.vector_merge_total l(1) r(1))
qed

subsection \<open>Reachable sessions\<close>

text \<open>
  The states a session goes through: it starts empty, takes messages of the validators, completes their
  implicit actions and is merged with the sessions of other validators. \<open>B\<close> holds the submissions that
  the messages carry.
\<close>

definition session_behind :: "session_state \<Rightarrow> session_state \<Rightarrow> bool" where
  "session_behind l r \<longleftrightarrow> rs_sequence_number (ss_current_round l) < rs_sequence_number (ss_current_round r)"

text \<open>
  Sessions that agree on the decided blocks, also where one of them has not decided the round yet but knows
  its precommitted block.
\<close>

definition session_agree :: "session_state \<Rightarrow> session_state \<Rightarrow> bool" where
  "session_agree l r \<longleftrightarrow> session_compatible l r \<and>
     (\<forall>block. session_behind l r \<longrightarrow> rs_precommitted_block (ss_current_round l) = Some block \<longrightarrow>
        or_block (session_old_rounds r ! unat (rs_sequence_number (ss_current_round l))) = block) \<and>
     (\<forall>block. session_behind r l \<longrightarrow> rs_precommitted_block (ss_current_round r) = Some block \<longrightarrow>
        or_block (session_old_rounds l ! unat (rs_sequence_number (ss_current_round r))) = block)"

inductive reachable :: "session_description \<Rightarrow> submission set \<Rightarrow> session_state \<Rightarrow> bool"
  for desc :: session_description and B :: "submission set" where
  start: "reachable desc B (session_state_create_empty desc)"
| message: "reachable desc B st'"
    if "reachable desc B st" "unat i < nodes_count desc" "message_ok B i m" "round_number_left st"
      "session_apply_action desc st i a m = Some st'"
| implicit: "reachable desc B st'"
    if "reachable desc B st" "unat i < nodes_count desc" "make_all desc st i a = Some st'"
| merge: "reachable desc B m"
    if "reachable desc B l" "reachable desc B r" "session_agree l r" "round_number_left l" "round_number_left r"
      "session_merge desc l r = Some m"

lemma reachable_wf:
  assumes "reachable desc B st" and "wf_desc desc" and "no_collisions desc B"
  shows "wf_session desc B st"
  using assms(1)
proof induction
  case start
  show ?case by (rule wf_session_create_empty [OF assms(2)])
next
  case (message st i m a st')
  with session_apply_action_total [OF assms(2,3) message.IH message.hyps(2-4), of a] show ?case by auto
next
  case (implicit st i a st')
  with make_all_total [OF assms(2) implicit.IH implicit.hyps(2), of a] show ?case by auto
next
  case (merge l r m)
  then have "session_compatible l r" by (simp add: session_agree_def)
  with merge session_merge_total [OF assms(2,3) merge.IH] show ?case by auto
qed

end
