(* ===== verification/VS_Decision.thy ===== *)
theory VS_Decision
  imports VS_Session_Merge
begin

text \<open>
  What the session promises to the validator that runs it: when a round is decided, and what stands behind a
  block that the session reports as committed.
\<close>

subsection \<open>The decision of a round\<close>

lemma decided_round:
  assumes "wf_desc desc" and "wf_round desc B r" and "cutoff_of desc \<le> weight_of desc (round_signed r)"
    and "wf_old_rounds desc B (vector_wrapper_iter ds)" and "vector_wrapper_len ds = unat (rs_sequence_number r)"
  obtains d s where "switch_round desc r ds = Some (create_current_round desc (rs_sequence_number r + 1), Some (vector_wrapper_iter ds @ [d]))"
    "rs_precommitted_block r = Some (or_block d)" "or_signatures d = rs_signatures r"
    "round_precommitted desc r s" "round_voted desc r s (sent_block_get_id (or_block d))"
proof -
  obtain d where d: "switch_round desc r ds = Some (create_current_round desc (rs_sequence_number r + 1), Some (vector_wrapper_iter ds @ [d]))"
    "rs_precommitted_block r = Some (or_block d)" "or_signatures d = rs_signatures r"
    by (rule switch_round_total [OF assms])
  obtain s where "round_precommitted desc r s" "round_voted desc r s (sent_block_get_id (or_block d))"
    using wf_round_decisionsD(3) [OF wf_roundD(4) [OF assms(2)] d(2)] by blast
  with d show thesis by (rule that)
qed

lemma session_decision_rule:
  assumes "wf_desc desc" and "no_collisions desc B" and "wf_session desc B st" and "unat i < nodes_count desc"
    and "message_ok B i m" and "round_number_left st" and "get_round_id m = rs_sequence_number (ss_current_round st)"
  shows "\<exists>r st'. round_apply_action desc (ss_current_round st) i (clamp_attempt_id (ss_attempt_ids st ! unat i) a) m = Some r \<and>
    session_apply_action desc st i a m = Some st' \<and>
    (if cutoff_of desc \<le> weight_of desc (round_signed r)
     then (\<exists>d s. session_old_rounds st' = session_old_rounds st @ [d] \<and> rs_precommitted_block r = Some (or_block d) \<and>
             or_signatures d = rs_signatures r \<and> round_precommitted desc r s \<and> round_voted desc r s (sent_block_get_id (or_block d)) \<and>
             ss_current_round st' = create_current_round desc (rs_sequence_number r + 1))
     else ss_current_round st' = r \<and> session_old_rounds st' = session_old_rounds st)"
proof -
  note wf = wf_sessionD [OF assms(3)] and ids = wf_attempt_ids_update [OF assms(3,4)]
  let ?cur = "ss_current_round st" and ?s = "clamp_attempt_id (ss_attempt_ids st ! unat i) a"
  let ?ids = "(ss_attempt_ids st)[unat i := ?s]"
  obtain r where r: "round_apply_action desc ?cur i ?s m = Some r" "wf_round desc B r"
    "round_evolves (nodes_count desc) (unat i) ?cur r"
    using round_apply_action_total [OF assms(1,2) wf(2) assms(4) clamp_attempt_id_props(4) assms(5)] by blast
  have seq: "vector_wrapper_len (ss_old_rounds st) = unat (rs_sequence_number r)"
    using r(3) wf(4) by (cases "ss_old_rounds st") (auto simp: round_evolves_def session_old_rounds_def)
  have step: "session_apply_action desc st i a m = map_option
      (\<lambda>(r', ds'). \<lparr> ss_attempt_ids = ?ids, ss_current_round = r', ss_old_rounds = ds' \<rparr>)
      (if cutoff_of desc \<le> weight_of desc (round_signed r) then switch_round desc r (ss_old_rounds st) else Some (r, ss_old_rounds st))"
    using assms(7) r(1)
    by (auto simp: session_apply_action_def ids(1,2) check_block_is_signed_total [OF assms(1) wf_roundD(1) [OF r(2)]]
        map_conv_bind_option comp_def split_def)
  show ?thesis
  proof (cases "cutoff_of desc \<le> weight_of desc (round_signed r)")
    case True
    show ?thesis
      by (rule decided_round [OF assms(1) r(2) True wf(5) [unfolded session_old_rounds_def] seq])
        (use r(1) step True in \<open>auto simp: session_old_rounds_def\<close>)
  next
    case False
    with r(1) step show ?thesis by (auto simp: session_old_rounds_def)
  qed
qed

subsection \<open>Committed blocks\<close>

lemma committed_old_round:
  assumes "get_committed_block st s = Some (Some block)"
  obtains d where "unat s < length (session_old_rounds st)" "session_old_rounds st ! unat s = d" "or_block d = block"
    "get_committed_block_signatures st s = Some (Some (or_signatures d))"
    "get_committed_block_approve_signatures st s = Some (Some (or_approve_signatures d))"
  using assms by (cases "ss_old_rounds st")
    (auto simp: get_committed_block_def get_committed_block_signatures_def get_committed_block_approve_signatures_def
      session_old_rounds_def split: if_splits)

lemma committed_quorums:
  assumes "wf_desc desc" and "no_collisions desc B" and "reachable desc B st" and "get_committed_block st s = Some (Some block)"
  shows "\<exists>signatures approvals. get_committed_block_signatures st s = Some (Some signatures) \<and>
    get_committed_block_approve_signatures st s = Some (Some approvals) \<and> known_block desc B block \<and>
    2 * total_of desc < 3 * weight_of desc (\<lambda>i. signatures ! i \<noteq> None) \<and>
    2 * total_of desc < 3 * weight_of desc (\<lambda>i. approvals ! i \<noteq> None)"
proof -
  have wf: "wf_old_rounds desc B (session_old_rounds st)"
    using reachable_wf [OF assms(3,1,2)] by (rule wf_sessionD)
  obtain d where d: "unat s < length (session_old_rounds st)" "session_old_rounds st ! unat s = d" "or_block d = block"
    "get_committed_block_signatures st s = Some (Some (or_signatures d))"
    "get_committed_block_approve_signatures st s = Some (Some (or_approve_signatures d))"
    by (rule committed_old_round [OF assms(4)])
  have old: "known_block desc B block" "cutoff_of desc \<le> weight_of desc (or_signed d)" "cutoff_of desc \<le> weight_of desc (or_approved d)"
    using wf_old_rounds_nth [OF wf d(1)] d(2,3) by (auto simp: wf_old_round_def)
  have two: "2 * total_of desc < 3 * cutoff_of desc" by (rule vp.cutoff_two_thirds [OF assms(1)])
  have "or_signed d = (\<lambda>i. or_signatures d ! i \<noteq> None)" "or_approved d = (\<lambda>i. or_approve_signatures d ! i \<noteq> None)"
    by (auto simp: or_signed_def or_approved_def)
  with d(4,5) old two show ?thesis by fastforce
qed

end
