(* ===== verification/VS_Publish.thy ===== *)
theory VS_Publish
  imports VS_Processor VS_Choices VS_Decision
begin

text \<open>
  What the processor publishes: the loop that creates and applies the messages of the validator ends when the
  clock is not behind the attempt the validator has reached, and runs forever in a state that a message leaves
  as it is; the published messages, applied by another validator, give the state of the author.
\<close>

subsection \<open>Messages of an attempt\<close>

lemma attempt_message_keeps:
  assumes "round_apply_action desc r i s m = Some r'" and "is_attempt_message m"
  shows "rs_signatures r' = rs_signatures r" "rs_sent_blocks r' = rs_sent_blocks r"
    "rs_sequence_number r' = rs_sequence_number r"
  using assms
  by (auto simp: round_apply_action_def round_apply_action_dispatch_def update_first_attempt_def apply_action_on_attempt_def
      Let_def bind_eq_Some_conv split: if_splits)

lemma attempt_message_first:
  assumes "wf_round desc B r" and "unat i < nodes_count desc" and "s \<noteq> 0"
    and "round_apply_action desc r i s m = Some r'" and "is_attempt_message m"
  shows "first_attempt_of r' i \<noteq> 0 \<and> first_attempt_of r' i \<le> s"
proof -
  obtain r1 made where r1: "update_first_attempt r i s = Some (r1, made)"
    using update_first_attempt_total [OF assms(1,2), where s = s and n = 0 and src = 0] by metis
  then have "apply_action_on_attempt desc r1 i s m r1 = Some r'"
    using assms(4,5) by (auto simp: round_apply_action_def round_apply_action_dispatch_def)
  then have "rs_first_attempt r' = rs_first_attempt r1"
    by (auto simp: apply_action_on_attempt_def Let_def bind_eq_Some_conv split: if_splits)
  with update_first_attempt_range [OF assms(1,2) r1 assms(3)] show ?thesis by auto
qed

lemma no_attempt_wrap_step:
  assumes "wf_round desc B r" and "unat i < nodes_count desc" and "s \<noteq> 0" and "no_attempt_wrap desc r i s"
    and "round_apply_action desc r i s m = Some r'" and "is_attempt_message m"
  shows "no_attempt_wrap desc r' i s"
  using attempt_message_first [OF assms(1-3,5,6)] assms(4) by (auto simp: no_attempt_wrap_def word_le_nat_alt)

text \<open>The attempt of the clock is the one in which the messages of the validator are applied.\<close>

definition clock_ok :: "session_state \<Rightarrow> u32 \<Rightarrow> u32 \<Rightarrow> bool" where
  "clock_ok st i a \<longleftrightarrow> MIN_ATTEMPT_ID \<le> a \<and> ss_attempt_ids st ! unat i \<le> a"

lemma clock_ok_clamp: "clock_ok st i a \<Longrightarrow> clamp_attempt_id (ss_attempt_ids st ! unat i) a = a"
  by (auto simp: clock_ok_def clamp_attempt_id_def)

lemma clock_ok_nonzero: "clock_ok st i a \<Longrightarrow> a \<noteq> 0"
  by (metis clamp_attempt_id_props(4) clock_ok_clamp)

lemma session_apply_ids:
  assumes "wf_session desc B st" and "unat i < nodes_count desc" and "session_apply_action desc st i a m = Some st'"
  shows "ss_attempt_ids st' = (ss_attempt_ids st)[unat i := clamp_attempt_id (ss_attempt_ids st ! unat i) a]"
  using assms(3) by (auto simp: session_apply_action_def wf_attempt_ids_update(1,2) [OF assms(1,2)] Let_def bind_eq_Some_conv split: if_splits)

lemma session_attempt_message:
  assumes "wf_desc desc" and "no_collisions desc B" and "wf_session desc B st" and "unat i < nodes_count desc"
    and "clock_ok st i a" and "is_attempt_message m" and "get_round_id m = rs_sequence_number (ss_current_round st)"
  obtains r' st' where "round_apply_action desc (ss_current_round st) i a m = Some r'"
    "session_apply_action desc st i a m = Some st'" "ss_current_round st' = r'" "wf_session desc B st'"
    "session_extends (nodes_count desc) st st'" "ss_attempt_ids st' ! unat i = a"
proof -
  note wf = wf_sessionD [OF assms(3)] and ids = wf_attempt_ids_update [OF assms(3,4)]
    and clamp = clock_ok_clamp [OF assms(5)] and a0 = clock_ok_nonzero [OF assms(5)]
  have ok: "message_ok B i m" using assms(6) by (auto simp: message_ok_def)
  obtain r' where r': "round_apply_action desc (ss_current_round st) i a m = Some r'" "wf_round desc B r'"
    using round_apply_action_total [OF assms(1,2) wf(2) assms(4) a0 ok] by blast
  note keep = attempt_message_keeps [OF r'(1) assms(6)]
  have unsigned: "\<not> cutoff_of desc \<le> weight_of desc (round_signed r')"
    using wf(3) keep(1) round_relations_cong(8) [of r' "ss_current_round st"] by simp
  let ?st = "st\<lparr>ss_attempt_ids := (ss_attempt_ids st)[unat i := a], ss_current_round := r'\<rparr>"
  have run: "session_apply_action desc st i a m = Some ?st"
    using r'(1) assms(7) unsigned clamp
    by (simp add: session_apply_action_def ids(1,2) check_block_is_signed_total [OF assms(1) wf_roundD(1) [OF r'(2)]])
  have "wf_session desc B ?st"
    using wf r'(2) unsigned keep(3) ids(3) [of a] clamp_attempt_id_props(2) [of "ss_attempt_ids st ! unat i" a] clamp
    by (auto simp: wf_session_def session_old_rounds_def)
  moreover have "session_extends (nodes_count desc) st ?st"
    using ids(4) [of a] assms(5) by (auto simp: session_extends_def session_old_rounds_def clock_ok_def)
  ultimately show thesis using r'(1) run wf(1) assms(4) by (intro that [of r' ?st]) auto
qed

subsection \<open>The loop of created messages\<close>

text \<open>What the validator still has to say in the attempt.\<close>

definition unsaid :: "round_state \<Rightarrow> nat \<Rightarrow> u32 \<Rightarrow> nat" where
  "unsaid r i a = (if \<exists>b. round_vote r a b i then 0 else 1) + (if round_precommit r a i then 0 else 1)"

lemma created_message:
  assumes "wf_desc desc" and "no_collisions desc B" and "wf_session desc B st" and "unat i < nodes_count desc"
    and "clock_ok st i a" and "no_attempt_wrap desc (ss_current_round st) i a"
  obtains m st' where "session_create_action desc st i a = Some m" "is_attempt_message m"
    "session_apply_action desc st i a m = Some st'" "wf_session desc B st'" "session_extends (nodes_count desc) st st'"
    "clock_ok st' i a" "no_attempt_wrap desc (ss_current_round st') i a"
    "round_apply_action desc (ss_current_round st) i a m = Some (ss_current_round st')"
    "\<not> is_empty_message m \<longrightarrow> unsaid (ss_current_round st') (unat i) a < unsaid (ss_current_round st) (unat i) a"
    "is_empty_message m \<longrightarrow> round_next_step desc (ss_current_round st) i a = NextNothing"
proof -
  let ?r = "ss_current_round st"
  note wf = wf_sessionD [OF assms(3)] and a0 = clock_ok_nonzero [OF assms(5)]
  obtain m r1 where m: "round_create_action desc ?r i a = Some m" "round_apply_action desc ?r i a m = Some r1"
    and effect: "case m of
       Vote _ _ b \<Rightarrow> (\<forall>b'. \<not> round_vote ?r a b' (unat i)) \<and> round_vote r1 a b (unat i)
     | Precommit _ _ b \<Rightarrow> round_voted desc ?r a b \<and> \<not> round_precommit ?r a (unat i) \<and> round_precommit r1 a (unat i)
     | Empty _ _ \<Rightarrow> round_vote r1 = round_vote ?r \<and> (\<forall>j < nodes_count desc. round_precommit r1 a j = round_precommit ?r a j)
     | _ \<Rightarrow> False"
    using created_action_effect [OF assms(1,2) wf(2) assms(4) a0 assms(6)] by blast
  have created: "is_attempt_message m" "get_round_id m = rs_sequence_number ?r"
    "is_empty_message m \<Longrightarrow> round_next_step desc ?r i a = NextNothing"
    using m(1) round_create_action_next_step [OF assms(1) wf(2) assms(4), of a]
    by (auto simp: get_round_id_def is_empty_message_def split: next_step.splits)
  obtain r' st' where st': "round_apply_action desc ?r i a m = Some r'" "session_apply_action desc st i a m = Some st'"
    "ss_current_round st' = r'" "wf_session desc B st'" "session_extends (nodes_count desc) st st'" "ss_attempt_ids st' ! unat i = a"
    by (rule session_attempt_message [OF assms(1-5) created(1,2)])
  have "message_ok B i m" using created(1) by (auto simp: message_ok_def)
  with round_apply_action_total [OF assms(1,2) wf(2) assms(4) a0] m(2)
  have evolves: "round_evolves (nodes_count desc) (unat i) ?r r1" by fastforce
  have less: "unsaid r1 (unat i) a < unsaid ?r (unat i) a" if "\<not> is_empty_message m"
    using effect evolves that assms(4) unfolding round_evolves_def unsaid_def is_empty_message_def
    by (cases m) (simp_all split: if_splits, blast+)
  have "r' = r1" using st'(1) m(2) by simp
  moreover have "clock_ok st' i a" using assms(5) st'(6) by (simp add: clock_ok_def)
  moreover have "no_attempt_wrap desc r1 i a" by (rule no_attempt_wrap_step [OF wf(2) assms(4) a0 assms(6) m(2) created(1)])
  ultimately show thesis
    using m(1) created st' less by (intro that [of m st']) (simp_all add: session_create_action_def)
qed

lemma action_loop_ends:
  assumes "wf_desc desc" and "no_collisions desc B" and "unat i < nodes_count desc"
    and "wf_session desc B st" and "clock_ok st i a" and "no_attempt_wrap desc (ss_current_round st) i a"
  shows "\<exists>st' st1 msgs m. action_loop desc i a st messages = Some (st', messages @ msgs @ [m]) \<and>
    apply_actions desc i a (msgs @ [m]) st = Some st' \<and> length msgs \<le> unsaid (ss_current_round st) (unat i) a \<and>
    wf_session desc B st' \<and> session_extends (nodes_count desc) st st' \<and> clock_ok st' i a \<and>
    is_empty_message m \<and> wf_session desc B st1 \<and> clock_ok st1 i a \<and> no_attempt_wrap desc (ss_current_round st1) i a \<and>
    round_next_step desc (ss_current_round st1) i a = NextNothing \<and> session_apply_action desc st1 i a m = Some st' \<and>
    round_apply_action desc (ss_current_round st1) i a m = Some (ss_current_round st')"
  using assms(4-6)
proof (induction "unsaid (ss_current_round st) (unat i) a" arbitrary: st messages rule: less_induct)
  case less
  obtain m st' where m: "session_create_action desc st i a = Some m" "is_attempt_message m"
    "session_apply_action desc st i a m = Some st'" "wf_session desc B st'" "session_extends (nodes_count desc) st st'"
    "clock_ok st' i a" "no_attempt_wrap desc (ss_current_round st') i a"
    "round_apply_action desc (ss_current_round st) i a m = Some (ss_current_round st')"
    "\<not> is_empty_message m \<longrightarrow> unsaid (ss_current_round st') (unat i) a < unsaid (ss_current_round st) (unat i) a"
    "is_empty_message m \<longrightarrow> round_next_step desc (ss_current_round st) i a = NextNothing"
    by (rule created_message [OF assms(1,2) less.prems(1) assms(3) less.prems(2,3)])
  show ?case
  proof (cases "is_empty_message m")
    case True
    with m less.prems show ?thesis
      by (intro exI [of _ st'] exI [of _ st] exI [of _ "[]"] exI [of _ m]) (subst action_loop.simps, simp)
  next
    case False
    from less.hyps [OF m(9) [rule_format, OF False] m(4,6,7), of "messages @ [m]"] obtain st2 st1 msgs m2 where
      "action_loop desc i a st' (messages @ [m]) = Some (st2, (messages @ [m]) @ msgs @ [m2])"
      "apply_actions desc i a (msgs @ [m2]) st' = Some st2" "length msgs \<le> unsaid (ss_current_round st') (unat i) a"
      "wf_session desc B st2" "session_extends (nodes_count desc) st' st2" "clock_ok st2 i a" "is_empty_message m2"
      "wf_session desc B st1" "clock_ok st1 i a" "no_attempt_wrap desc (ss_current_round st1) i a"
      "round_next_step desc (ss_current_round st1) i a = NextNothing" "session_apply_action desc st1 i a m2 = Some st2"
      "round_apply_action desc (ss_current_round st1) i a m2 = Some (ss_current_round st2)" by blast
    with m False show ?thesis
      by (intro exI [of _ st2] exI [of _ st1] exI [of _ "m # msgs"] exI [of _ m2])
        (subst action_loop.simps, auto intro: session_extends_trans)
  qed
qed

text \<open>A state that its created message leaves as it is keeps the loop running forever.\<close>

lemma action_loop_diverges:
  assumes "session_create_action desc st i a = Some m" and "\<not> is_empty_message m"
    and "session_apply_action desc st i a m = Some st"
  shows "action_loop desc i a st messages = None"
proof -
  have "d = desc \<longrightarrow> j = i \<longrightarrow> t = a \<longrightarrow> x \<noteq> st" if "action_loop d j t x ms = Some y" for d j t x ms y
    using that by (rule action_loop.raw_induct [rotated]) (use assms in \<open>fastforce simp: bind_eq_Some_conv split: if_splits\<close>)
  then show ?thesis by (cases "action_loop desc i a st messages") blast+
qed

subsection \<open>Nothing is left to say after an empty message\<close>

lemma filter_key_insert:
  "\<not> P v \<Longrightarrow> \<forall>x \<in> set xs. key x = key v \<longrightarrow> \<not> P x \<Longrightarrow> filter P (key_insert key v xs) = filter P xs"
  by (induction xs) auto

lemma find_filter: "List.find P xs = (case filter P xs of [] \<Rightarrow> None | x # _ \<Rightarrow> Some x)"
  by (induction xs) auto

lemma empty_attempt_step:
  assumes "wf_desc desc" and "wf_round desc B r" and "unat i < nodes_count desc" and "s \<noteq> 0"
    and "rs_precommitted_block r = None" and "round_next_step desc r i s = NextNothing"
    and "apply_action_on_attempt desc r i s (Empty x y) r = Some r'"
  shows "rs_attempts r' = Some (key_insert ra_sequence_number (attempt_or_new desc r s) (round_attempts r))"
    and "attempt_or_new desc r' s = attempt_or_new desc r s"
    and "voted_block desc (attempt_or_new desc r s) = None \<Longrightarrow>
      r' = r\<lparr>rs_attempts := Some (key_insert ra_sequence_number (attempt_or_new desc r s) (round_attempts r))\<rparr>"
proof -
  let ?a = "attempt_or_new desc r s"
  note wf = wf_roundD [OF assms(2)] and new = attempt_or_new_props [OF assms(1) wf_roundD(3) [OF assms(2)], where s = s]
  have wfa: "wf_attempt desc ?a" using new(2) by (simp add: attempt_ok_def)
  obtain chosen where chosen: "choose_block_to_vote desc r i s (ra_vote_for ?a) = Some chosen"
    by (rule choose_for_attempt [OF assms(1-3)])
  have step: "next_step_of desc ?a (unat i) chosen = NextNothing" using assms(5,6) by (simp add: round_next_step_def chosen)
  have run: "round_attempt_apply_action desc ?a i s (Empty x y) (round_view_of desc r) = Some ?a"
    using default_action_next_step [OF assms(1) wfa assms(3), of "round_view_of desc r" s chosen] chosen step
    by (simp add: round_attempt_apply_action_def round_attempt_apply_action_dispatch_def)
  obtain a where "round_attempt_apply_action desc ?a i s (Empty x y) (round_view_of desc r) = Some a"
    "rs_attempts r' = Some (key_insert ra_sequence_number a (round_attempts r))"
    using on_attempt_attempts [OF assms(1-5), of "Empty x y"] assms(7) by auto
  with run show attempts: "rs_attempts r' = Some (key_insert ra_sequence_number ?a (round_attempts r))" by simp
  show "attempt_or_new desc r' s = ?a" by (rule attempt_or_new_push [OF wf(3) new(1) attempts])
  assume none: "voted_block desc ?a = None"
  have unprecommitted: "\<not> attempt_precommit ?a (unat i)" "\<not> attempt_precommitted desc ?a"
    using none wf_attemptD(4) [OF wfa] assms(3) voted_block_None_iff [OF assms(1) wfa] precommitted_by_attempt_total(2) [OF assms(1) wfa]
    by auto
  have "precommitted_by_attempt desc ?a None None = Some None"
    using precommitted_by_attempt_total(1) [OF assms(1) wfa] none unprecommitted(2) by simp
  then have "apply_action_on_attempt desc r i s (Empty x y) r = Some (r\<lparr>rs_precommitted_block := None,
      rs_last_precommit := rs_last_precommit r, rs_attempts := Some (key_insert ra_sequence_number ?a (round_attempts r))\<rparr>)"
    using run none unprecommitted(1)
    by (simp add: apply_action_on_attempt_def assms(5) get_attempt_or_new [OF wf(3)] attempt_or_new_def [symmetric]
        get_voted_block_total [OF assms(1) wfa] push_attempt_total [OF wf(3)] update_last_precommit_def Let_def
        record_last_precommit_def check_precommit_received_total [OF wfa assms(3)])
  with assms(5,7) show "r' = r\<lparr>rs_attempts := Some (key_insert ra_sequence_number ?a (round_attempts r))\<rparr>"
    by (cases r) simp
qed

lemma next_step_after_empty:
  assumes "wf_desc desc" and "wf_round desc B r" and "unat i < nodes_count desc" and "s \<noteq> 0"
    and "rs_precommitted_block r = None" and "round_next_step desc r i s = NextNothing"
    and "apply_action_on_attempt desc r i s (Empty x y) r = Some r'" and "wf_round desc B r'"
    and "round_precommit r s (unat i) \<longrightarrow> (\<exists>b. round_vote r s b (unat i))"
  shows "round_next_step desc r' i s = NextNothing"
proof -
  let ?a = "attempt_or_new desc r s"
  note wf = wf_roundD [OF assms(2)] and new = attempt_or_new_props [OF assms(1) wf_roundD(3) [OF assms(2)], where s = s]
    and empty = empty_attempt_step [OF assms(1-7)]
  obtain chosen where chosen: "choose_block_to_vote desc r i s (ra_vote_for ?a) = Some chosen"
    by (rule choose_for_attempt [OF assms(1-3)])
  have step: "next_step_of desc ?a (unat i) chosen = NextNothing" using assms(5,6) by (simp add: round_next_step_def chosen)
  show ?thesis
  proof (cases "vote_received ?a (unat i)")
    case True
    with step show ?thesis by (auto simp: round_next_step_def empty(2) next_step_of_def split: option.splits bool.splits)
  next
    case False
    then have "\<not> attempt_precommit ?a (unat i)"
      using assms(9) new(3) new(4) [OF assms(3)] by (auto simp: vote_received_iff)
    with False step have none: "chosen = None" "voted_block desc ?a = None"
      by (auto simp: next_step_of_def split: option.splits bool.splits)
    define as where "as = key_insert ra_sequence_number ?a (round_attempts r)"
    have r': "r' = r\<lparr>rs_attempts := Some as\<rparr>" using empty(3) [OF none(2)] by (simp add: as_def)
    have attempts: "\<forall>a \<in> set (round_attempts r). wf_attempt desc a" "\<forall>a \<in> set as. wf_attempt desc a"
      using wf(3) wf_roundD(3) [OF assms(8)] r' by (auto simp: wf_round_attempts_def attempt_ok_def round_attempts_def)
    have same: "choose_block_to_vote desc r' i s vf = choose_block_to_vote desc r i s vf"
      if "rs_sent_blocks r = None \<or> last_precommit_of r i = 0 \<and>
        first_voted_block desc (rev as) = first_voted_block desc (rev (round_attempts r))" for vf
      using that wf_round_vectorsD [OF wf(1) assms(3)] by (auto simp: choose_block_to_vote_def r' round_attempts_def)
    have "\<forall>a \<in> set (round_attempts r). ra_sequence_number a = ra_sequence_number ?a \<longrightarrow> \<not> voted_block desc a \<noteq> None"
      using wf(3) none(2) new(1) by (auto simp: attempt_or_new_def wf_round_attempts_def dest: key_map_member)
    with none(2) have "first_voted_block desc (rev as) = first_voted_block desc (rev (round_attempts r))"
      using attempts by (simp add: first_voted_block_total [OF assms(1)] as_def find_filter rev_filter [symmetric] filter_key_insert)
    moreover have "rs_sent_blocks r = None \<or> last_precommit_of r i = 0"
      using choose_block_locked [OF assms(1-3), of s "ra_vote_for ?a"] chosen none(1) by auto
    ultimately have "choose_block_to_vote desc r' i s (ra_vote_for ?a) = Some chosen" using same chosen by auto
    with step show ?thesis by (simp add: round_next_step_def empty(2))
  qed
qed

lemma round_nothing_left:
  assumes "wf_desc desc" and "no_collisions desc B" and "wf_round desc B r" and "unat i < nodes_count desc" and "s \<noteq> 0"
    and "no_attempt_wrap desc r i s" and "round_next_step desc r i s = NextNothing"
    and "round_apply_action desc r i s (Empty x y) = Some r'"
    and "round_precommit r s (unat i) \<longrightarrow> (\<exists>b. round_vote r s b (unat i))"
  shows "round_next_step desc r' i s = NextNothing"
proof -
  obtain r1 made where r1: "update_first_attempt r i s = Some (r1, made)" "wf_round desc B r1" "\<exists>fa. r1 = r\<lparr>rs_first_attempt := fa\<rparr>"
    by (rule update_first_attempt_total [OF assms(3,4), where s = s and n = 0 and src = 0])
  have step: "round_next_step desc r1 i s = NextNothing"
    using choose_first_attempt(2) [OF assms(3,4) r1(1) assms(6)] assms(7) by simp
  have run: "apply_action_on_attempt desc r1 i s (Empty x y) r1 = Some r'"
    using assms(8) r1(1) by (auto simp: round_apply_action_def round_apply_action_dispatch_def)
  have same: "round_vote r1 = round_vote r" "round_precommit r1 = round_precommit r"
    using r1(3) round_relations_cong(4,5) [of r1 r] by auto
  show ?thesis
  proof (cases "rs_precommitted_block r1")
    case None
    have "wf_round desc B r'"
      using apply_action_on_attempt_total [OF assms(1) r1(2) assms(4,5), of "Empty x y"] run by auto
    then show ?thesis
      using next_step_after_empty [OF assms(1) r1(2) assms(4,5) None step run] assms(9) same by simp
  next
    case (Some block)
    with run show ?thesis by (auto simp: apply_action_on_attempt_def round_next_step_def)
  qed
qed

lemma round_make_one_nothing:
  assumes "wf_desc desc" and "wf_round desc B r" and "unat i < nodes_count desc"
    and "first_attempt_of r i \<noteq> 0 \<and> first_attempt_of r i \<le> s" and "round_next_step desc r i s = NextNothing"
  shows "round_make_one desc r i s = Some (r, False)"
proof -
  let ?a = "attempt_or_new desc r s"
  note wf = wf_roundD [OF assms(2)] and new = attempt_or_new_props [OF assms(1) wf_roundD(3) [OF assms(2)], where s = s]
  have wfa: "wf_attempt desc ?a" using new(2) by (simp add: attempt_ok_def)
  obtain chosen where chosen: "choose_block_to_vote desc r i s (ra_vote_for ?a) = Some chosen"
    by (rule choose_for_attempt [OF assms(1-3)])
  have first: "update_first_attempt r i s = Some (r, False)"
    using assms(4) wf_round_vectorsD(1) [OF wf(1) assms(3)] by (auto simp: update_first_attempt_def)
  have "round_attempt_make_one desc ?a i s (round_view_of desc r) = Some (?a, False)" if "rs_precommitted_block r = None"
    using default_action_next_step [OF assms(1) wfa assms(3), of "round_view_of desc r" s chosen] chosen assms(5) that
    by (simp add: round_attempt_make_one_def round_next_step_def)
  then show ?thesis
    by (simp add: round_make_one_def first get_attempt_or_new [OF wf(3)] Let_def attempt_or_new_def [symmetric])
qed

subsection \<open>A published block gives the state of its author\<close>

lemma apply_actions_append:
  "apply_actions desc i a (ms @ ms') st = do { st \<leftarrow> apply_actions desc i a ms st; apply_actions desc i a ms' st }"
  by (induction ms arbitrary: st) (auto intro: Option.bind_cong)

lemma make_all_nothing:
  assumes "wf_desc desc" and "wf_session desc B st" and "unat i < nodes_count desc" and "ss_attempt_ids st ! unat i = a"
    and "clock_ok st i a" and "first_attempt_of (ss_current_round st) i \<noteq> 0 \<and> first_attempt_of (ss_current_round st) i \<le> a"
    and "round_next_step desc (ss_current_round st) i a = NextNothing"
  shows "make_all desc st i a = Some st"
proof -
  have "session_make_one desc st i a = Some (st, False)"
    using round_make_one_nothing [OF assms(1) wf_sessionD(2) [OF assms(2)] assms(3,6,7)] wf_attempt_ids_update(1) [OF assms(2,3)]
      clock_ok_clamp [OF assms(5)] assms(4) by (simp add: session_make_one_def)
  then show ?thesis by (subst make_all.simps) simp
qed

lemma published_replay:
  assumes "wf_desc desc" and "no_collisions desc B" and "unat i < nodes_count desc"
    and "apply_actions desc i a messages base = Some st" and "wf_session desc B st" and "clock_ok st i a"
    and "no_attempt_wrap desc (ss_current_round st) i a" and "get_attempt_sequence_number desc ts = Some a"
    and "action_loop desc i a st messages = Some (st', published)"
    and "round_precommit (ss_current_round st') a (unat i) \<longrightarrow> (\<exists>b. round_vote (ss_current_round st') a b (unat i))"
  shows "actualize_state desc i (Some \<lparr> bu_ts = ts, bu_actions = published \<rparr>) base = Some st'"
proof -
  obtain st1 msgs m where loop: "published = messages @ msgs @ [m]" "apply_actions desc i a (msgs @ [m]) st = Some st'"
    "wf_session desc B st'" "clock_ok st' i a" "is_empty_message m" "wf_session desc B st1" "clock_ok st1 i a"
    "no_attempt_wrap desc (ss_current_round st1) i a" "round_next_step desc (ss_current_round st1) i a = NextNothing"
    "session_apply_action desc st1 i a m = Some st'" "round_apply_action desc (ss_current_round st1) i a m = Some (ss_current_round st')"
    using action_loop_ends [OF assms(1-3,5-7), of messages] assms(9) by auto
  note wf1 = wf_sessionD [OF loop(6)] and a0 = clock_ok_nonzero [OF loop(7)]
  from loop(5) obtain x y where m: "m = Empty x y" by (auto simp: is_empty_message_def split: message.splits)
  have same: "round_vote (ss_current_round st') = round_vote (ss_current_round st1)"
    "round_precommit (ss_current_round st') a (unat i) = round_precommit (ss_current_round st1) a (unat i)"
    using round_apply_next_step(3) [OF assms(1,2) wf1(2) assms(3) a0 loop(8) _ loop(11) loop(9)] m assms(3) by auto
  have "round_next_step desc (ss_current_round st') i a = NextNothing"
    using round_nothing_left [OF assms(1,2) wf1(2) assms(3) a0 loop(8,9)] loop(11) m assms(10) same by auto
  moreover have "first_attempt_of (ss_current_round st') i \<noteq> 0 \<and> first_attempt_of (ss_current_round st') i \<le> a"
    using attempt_message_first [OF wf1(2) assms(3) a0 loop(11)] m by blast
  moreover have "ss_attempt_ids st' ! unat i = a"
    using session_apply_ids [OF loop(6) assms(3) loop(10)] clock_ok_clamp [OF loop(7)] wf1(1) assms(3) by simp
  ultimately have "make_all desc st' i a = Some st'" using loop(3,4) assms(1,3) by (intro make_all_nothing)
  moreover have "get_source_public_key_hash desc i \<noteq> None"
    using assms(3) by (simp add: get_source_public_key_hash_def get_source_def)
  moreover have "apply_actions desc i a published base = Some st'"
    unfolding loop(1) apply_actions_append [of desc i a messages] using assms(4) loop(2) by simp
  ultimately show ?thesis
    using assms(8) by (auto simp: actualize_state_def)
qed

subsection \<open>Reports of finished rounds\<close>

definition exported :: "session_description \<Rightarrow> block_candidate_signature_ptr list \<Rightarrow> (public_key_hash \<times> block_signature) list" where
  "exported desc signatures =
     concat (map (\<lambda>k. case signatures ! k of None \<Rightarrow> [] | Some s \<Rightarrow> [(source_id (sd_sources desc ! k), s)]) [0..<nodes_count desc])"

lemma signatures_exporter_total:
  assumes "length signatures = nodes_count desc" and "\<forall>i \<in> set is. unat i < nodes_count desc"
  shows "signatures_exporter desc signatures is =
    Some (concat (map (\<lambda>k. case signatures ! k of None \<Rightarrow> [] | Some s \<Rightarrow> [(source_id (sd_sources desc ! k), s)]) (map unat is)))"
  using assms
  by (induction "is") (auto simp: get_source_public_key_hash_def get_source_def split: option.splits)

lemma signatures_exporter_all:
  assumes "wf_desc desc" and "length signatures = nodes_count desc"
  shows "signatures_exporter desc signatures (range_u32 (get_total_nodes desc)) = Some (exported desc signatures)"
proof -
  have "\<forall>i \<in> set (range_u32 (get_total_nodes desc)). unat i < nodes_count desc"
    using assms(1) by (auto simp: word_less_nat_alt)
  then show ?thesis
    using signatures_exporter_total [OF assms(2)] assms(1) by (simp add: exported_def comp_def del: map_map)
qed

text \<open>The report of a decided round, with the payload of its block where this validator has it.\<close>

definition round_report ::
  "session_description \<Rightarrow> (u32 \<rightharpoonup> (block_id \<rightharpoonup> tl_candidate \<times> sys_time)) \<Rightarrow> u32 \<Rightarrow> old_round \<Rightarrow> outgoing" where
  "round_report desc blocks round d =
     (case or_block d of
        None \<Rightarrow> OnBlockSkipped round
      | Some b \<Rightarrow> OnBlockCommitted round (source_public_key (sd_sources desc ! unat (sb_source_id b))) (sb_root_hash b) (sb_file_hash b)
          (case blocks round of None \<Rightarrow> [] | Some m \<Rightarrow> (case m (sb_candidate_id b) of None \<Rightarrow> [] | Some (c, _) \<Rightarrow> tc_data c))
          (exported desc (or_signatures d)) (exported desc (or_approve_signatures d)))"

lemma finish_round_total:
  assumes "wf_desc (sp_description p)" and "wf_old_rounds (sp_description p) B (session_old_rounds (sp_real_state p))"
    and "unat (sp_current_round p) < length (session_old_rounds (sp_real_state p))"
  shows "finish_round p = Some (p\<lparr>sp_calls := sp_calls p @ [round_report (sp_description p) (sp_blocks p) (sp_current_round p)
      (session_old_rounds (sp_real_state p) ! unat (sp_current_round p))],
    sp_blocks := (sp_blocks p)(sp_current_round p := None), sp_current_round := sp_current_round p + 1\<rparr>)"
proof -
  let ?desc = "sp_description p" and ?k = "unat (sp_current_round p)"
  obtain ds where ds: "ss_old_rounds (sp_real_state p) = Some ds" "session_old_rounds (sp_real_state p) = ds"
    using assms(3) by (cases "ss_old_rounds (sp_real_state p)") (auto simp: session_old_rounds_def)
  define d where "d = ds ! ?k"
  have d: "wf_old_round ?desc B (word_of_nat ?k) d" using wf_old_rounds_nth [OF assms(2,3)] ds by (simp add: d_def)
  have k: "?k < length ds" using assms(3) ds by simp
  have key: "get_source_public_key ?desc (sb_source_id b) = Some (source_public_key (sd_sources ?desc ! unat (sb_source_id b)))"
    if "or_block d = Some b" for b
    using d that known_block_source [of ?desc B b] by (simp add: wf_old_round_def get_source_public_key_def get_source_def)
  have export: "signatures_exporter ?desc (or_signatures d) (range_u32 (get_total_nodes ?desc)) = Some (exported ?desc (or_signatures d))"
    "signatures_exporter ?desc (or_approve_signatures d) (range_u32 (get_total_nodes ?desc)) = Some (exported ?desc (or_approve_signatures d))"
    using d by (auto simp: wf_old_round_def intro: signatures_exporter_all [OF assms(1)])
  have "get_committed_block (sp_real_state p) (sp_current_round p) = Some (Some (or_block d))"
    "get_committed_block_signatures (sp_real_state p) (sp_current_round p) = Some (Some (or_signatures d))"
    "get_committed_block_approve_signatures (sp_real_state p) (sp_current_round p) = Some (Some (or_approve_signatures d))"
    using ds k by (simp_all add: get_committed_block_def get_committed_block_signatures_def get_committed_block_approve_signatures_def d_def)
  then show ?thesis
    using export key ds
    by (cases "or_block d")
      (auto simp: finish_round_def Let_def call_def round_report_def get_signed_block_for_round_def d_def [symmetric] split: option.splits)
qed

lemma round_report_cong: "blocks round = blocks' round \<Longrightarrow> round_report desc blocks round d = round_report desc blocks' round d"
  by (cases "or_block d") (simp_all add: round_report_def)

lemma finish_rounds_total:
  assumes "wf_desc (sp_description p)" and "wf_old_rounds (sp_description p) B (session_old_rounds (sp_real_state p))"
    and "sp_current_round p \<le> round" and "unat round \<le> length (session_old_rounds (sp_real_state p))"
  shows "\<exists>blocks. finish_rounds round p = Some (p\<lparr>sp_calls := sp_calls p @
      map (\<lambda>k. round_report (sp_description p) (sp_blocks p) (word_of_nat k) (session_old_rounds (sp_real_state p) ! k))
        [unat (sp_current_round p)..<unat round],
    sp_blocks := blocks, sp_current_round := round\<rparr>) \<and> (\<forall>s \<ge> round. blocks s = sp_blocks p s)"
  using assms
proof (induction "unat round - unat (sp_current_round p)" arbitrary: p)
  case 0
  then have "sp_current_round p = round" by (simp add: word_le_nat_alt unsigned_word_eqI)
  then show ?case by (intro exI [of _ "sp_blocks p"]) (subst finish_rounds.simps, simp)
next
  case (Suc n)
  let ?ds = "session_old_rounds (sp_real_state p)" and ?c = "sp_current_round p"
  define p1 where "p1 = p\<lparr>sp_calls := sp_calls p @ [round_report (sp_description p) (sp_blocks p) ?c (?ds ! unat ?c)],
    sp_blocks := (sp_blocks p)(?c := None), sp_current_round := ?c + 1\<rparr>"
  have less: "?c < round" using Suc.hyps(2) by (simp add: word_less_nat_alt)
  have next_round: "unat (?c + 1) = unat ?c + 1"
    using less unat_u32_less [of round] by (subst unat_add_u32) (auto simp: word_less_nat_alt)
  have "finish_round p = Some p1"
    using finish_round_total [OF Suc.prems(1,2)] less Suc.prems(4) by (simp add: p1_def word_less_nat_alt)
  then have run: "finish_rounds round p = finish_rounds round p1" using less by (subst finish_rounds.simps) simp
  have "n = unat round - unat (sp_current_round p1)" using Suc.hyps(2) next_round by (simp add: p1_def)
  moreover have "sp_current_round p1 \<le> round" using less next_round by (simp add: p1_def word_le_nat_alt word_less_nat_alt)
  ultimately obtain blocks where rest: "finish_rounds round p1 = Some (p1\<lparr>sp_calls := sp_calls p1 @
      map (\<lambda>k. round_report (sp_description p) (sp_blocks p1) (word_of_nat k) (?ds ! k)) [unat ?c + 1..<unat round],
    sp_blocks := blocks, sp_current_round := round\<rparr>)" "\<forall>s \<ge> round. blocks s = sp_blocks p1 s"
    using Suc.hyps(1) [of p1] Suc.prems next_round by (auto simp: p1_def)
  have "map (\<lambda>k. round_report (sp_description p) (sp_blocks p1) (word_of_nat k) (?ds ! k)) [unat ?c + 1..<unat round] =
      map (\<lambda>k. round_report (sp_description p) (sp_blocks p) (word_of_nat k) (?ds ! k)) [unat ?c + 1..<unat round]"
  proof (intro map_cong refl round_report_cong)
    fix k assume k: "k \<in> set [unat ?c + 1..<unat round]"
    then have "unat (word_of_nat k :: u32) = k" using unat_u32_less [of round] by (intro unat_word_of_nat_u32) simp
    with k have "word_of_nat k \<noteq> ?c" by auto
    then show "sp_blocks p1 (word_of_nat k) = sp_blocks p (word_of_nat k)" by (simp add: p1_def)
  qed
  moreover have "[unat ?c..<unat round] = unat ?c # [unat ?c + 1..<unat round]"
    using less by (simp add: upt_conv_Cons word_less_nat_alt)
  ultimately show ?case
    unfolding run rest(1) using rest(2) less by (intro exI [of _ blocks]) (auto simp: p1_def)
qed

end
