(* ===== verification/VS_Lock.thy ===== *)
theory VS_Lock
  imports VS_Choices VS_Round_Merge
begin

text \<open>
  The lock of a validator that precommitted. As long as no later attempt has the votes for another block, the
  round remembers in \<open>rs_last_precommit\<close> an attempt at least as late as the precommit, through all messages and
  merges; and a validator with a remembered precommit only votes for the block with the votes of that attempt.
\<close>

definition clean_since :: "session_description \<Rightarrow> round_state \<Rightarrow> u32 \<Rightarrow> block_id \<Rightarrow> bool" where
  "clean_since desc r s b \<longleftrightarrow> (\<forall>t b'. s \<le> t \<longrightarrow> round_voted desc r t b' \<longrightarrow> b' = b)"

text \<open>The validators in \<open>H\<close> are locked by their precommits.\<close>

definition lock_ok :: "session_description \<Rightarrow> (nat \<Rightarrow> bool) \<Rightarrow> round_state \<Rightarrow> bool" where
  "lock_ok desc H r \<longleftrightarrow> (\<forall>i s b. i < nodes_count desc \<longrightarrow> H i \<longrightarrow> round_precommit r s i \<longrightarrow> round_voted desc r s b \<longrightarrow>
     clean_since desc r s b \<longrightarrow> s \<le> vector_wrapper_iter (rs_last_precommit r) ! i)"

lemma lock_okD:
  "lock_ok desc H r \<Longrightarrow> i < nodes_count desc \<Longrightarrow> H i \<Longrightarrow> round_precommit r s i \<Longrightarrow> round_voted desc r s b \<Longrightarrow>
     clean_since desc r s b \<Longrightarrow> s \<le> vector_wrapper_iter (rs_last_precommit r) ! i"
  by (simp add: lock_ok_def)

lemma lock_ok_cong:
  "rs_attempts r' = rs_attempts r \<Longrightarrow> rs_last_precommit r' = rs_last_precommit r \<Longrightarrow> lock_ok desc H r' = lock_ok desc H r"
  using round_relations_cong(5) [of r' r] round_relations_cong(6) [of r' r desc] by (simp add: lock_ok_def clean_since_def)

lemma clean_since_mono:
  assumes "clean_since desc r' s b" and "\<And>t c. round_voted desc r t c \<Longrightarrow> round_voted desc r' t c"
  shows "clean_since desc r s b"
  using assms unfolding clean_since_def by blast

lemma evolves_voted:
  assumes "round_evolves (nodes_count desc) i r r'" and "round_voted desc r t c"
  shows "round_voted desc r' t c"
  using assms by (intro round_voted_mono [of desc r t c r']) (auto simp: round_evolves_def)

text \<open>A precommit comes with a block that has the votes.\<close>

lemma precommit_voted:
  assumes "wf_round desc B r" and "i < nodes_count desc" and "round_precommit r s i"
  obtains b where "round_voted desc r s b"
proof -
  obtain a where a: "a \<in> set (round_attempts r)" "ra_sequence_number a = s" "attempt_precommit a i"
    using assms(3) by (auto simp: round_precommit_def)
  note wf = wf_roundD(3) [OF assms(1)]
  obtain b where "attempt_voted desc a b"
    using wf_attemptD(4) [OF wf_round_attemptD(1) [OF wf a(1)] assms(2) a(3)] by blast
  then show thesis using round_vote_of_attempt(3) [OF wf a(1)] a(2) by (intro that [of b]) auto
qed

subsection \<open>Messages of an attempt keep the lock\<close>

text \<open>The last precommits after a message: a reset needs another block with the votes at the latest precommit.\<close>

lemma update_last_precommit_cases:
  assumes "wf_desc desc" and "wf_round desc B r" and "rs_last_precommit r = Some lp"
    and "update_last_precommit desc r s voted = Some (flag, lp1)"
  obtains "\<not> flag" "lp1 = Some lp"
  | v b where "flag" "lp1 = Some (map (\<lambda>i. if i > s then i else 0) lp)" "voted = Some v" "b \<noteq> sent_block_get_id v"
      "round_voted desc r (max_last_precommit (Some lp)) b" "\<And>t. t \<in> set lp \<Longrightarrow> t \<le> max_last_precommit (Some lp)"
proof (cases "voted = None \<or> max_last_precommit (Some lp) = 0")
  case True
  then have "update_last_precommit desc r s voted = Some (False, Some lp)"
    using assms(3) by (auto simp: update_last_precommit_def split: option.splits)
  then show thesis using assms(4) that(1) by simp
next
  case False
  let ?m = "max_last_precommit (Some lp)"
  have "?m \<in> set lp" using False foldl_max_mem [of 0 lp] by (simp add: max_last_precommit_def)
  then obtain c where "round_voted desc r ?m c"
    using wf_roundD(4) [OF assms(2)] assms(3) False by (auto simp: wf_round_decisions_def)
  then obtain a block where a: "get_attempt (rs_attempts r) ?m = Some (Some a)" "get_voted_block desc a = Some (Some block)"
    "a \<in> set (round_attempts r)" "ra_sequence_number a = ?m" "voted_block desc a = Some block"
    using last_precommit_voted [OF assms(1) wf_roundD(3) [OF assms(2)]] by metis
  have "round_voted desc r ?m (sent_block_get_id block)"
    using voted_block_SomeD(1) [OF assms(1) wf_round_attemptD(1) [OF wf_roundD(3) [OF assms(2)] a(3)] a(5)]
      round_vote_of_attempt(3) [OF wf_roundD(3) [OF assms(2)] a(3)] a(4) by simp
  moreover have "t \<le> ?m" if "t \<in> set lp" for t
    using foldl_max_ge [of t 0 lp] that by (simp add: max_last_precommit_def)
  moreover obtain v where v: "voted = Some v" using False by auto
  have run: "update_last_precommit desc r s voted =
    (if sent_block_get_id block = sent_block_get_id v then Some (False, Some lp)
     else Some (True, Some (map (\<lambda>i. if i > s then i else 0) lp)))"
    using False a v assms(3) by (simp add: update_last_precommit_def)
  ultimately show thesis using assms(4) v that by (auto split: if_splits)
qed

text \<open>The parts of a round after a message of an attempt.\<close>

lemma on_attempt_cases:
  assumes "wf_desc desc" and "wf_round desc B r" and "unat i < nodes_count desc" and "s \<noteq> 0" and "is_attempt_message m"
    and "rs_precommitted_block r = None" and "apply_action_on_attempt desc r i s m r = Some r'"
  obtains a lp flag lp1 where "wf_attempt desc a" "ra_sequence_number a = s"
    "round_attempt_apply_action desc (attempt_or_new desc r s) i s m (round_view_of desc r) = Some a"
    "rs_attempts r' = Some (key_insert ra_sequence_number a (round_attempts r))"
    "rs_last_precommit r = Some lp" "length lp = nodes_count desc"
    "update_last_precommit desc r s (voted_block desc a) = Some (flag, Some lp1)" "length lp1 = nodes_count desc"
    "rs_last_precommit r' = Some (if attempt_precommit a (unat i) \<and> lp1 ! unat i < s \<and> (s > max_last_precommit (Some lp) \<or> \<not> flag)
       then lp1[unat i := s] else lp1)"
proof -
  note wf = wf_roundD [OF assms(2)] and new = attempt_or_new_props [OF assms(1) wf_roundD(3) [OF assms(2)], where s = s]
  obtain a where a: "round_attempt_apply_action desc (attempt_or_new desc r s) i s m (round_view_of desc r) = Some a"
    "attempt_ok desc (round_approved_block desc B r) a"
    "attempt_evolves (nodes_count desc) (unat i) (attempt_or_new desc r s) a"
    using round_calls.attempt_apply_action_total [of "(desc, B, r)" "attempt_or_new desc r s" i m s] assms new(2) by auto
  have wfa: "wf_attempt desc a" "wf_attempt desc (attempt_or_new desc r s)" using a(2) new(2) by (auto simp: attempt_ok_def)
  have seq: "ra_sequence_number a = s" using a(3) new(1) by (simp add: attempt_evolves_def)
  obtain lp where lp: "rs_last_precommit r = Some lp" "length lp = nodes_count desc"
    using wf(1) by (auto simp: wf_round_vectors_def)
  obtain flag lp1 where lp1: "update_last_precommit desc r s (voted_block desc a) = Some (flag, Some lp1)" "length lp1 = length lp"
    using update_last_precommit_total [OF assms(1,2) lp(1)] by blast
  have voted: "attempt_precommit a (unat i) \<Longrightarrow> voted_block desc a \<noteq> None"
    using wf_attemptD(4) [OF wfa(1) assms(3)] voted_block_None_iff [OF assms(1) wfa(1)] by metis
  have recorded: "record_last_precommit a i s (max_last_precommit (Some lp)) (voted_block desc a) flag (Some lp1) =
    Some (Some (if attempt_precommit a (unat i) \<and> lp1 ! unat i < s \<and> (s > max_last_precommit (Some lp) \<or> \<not> flag)
       then lp1[unat i := s] else lp1))"
    using voted lp(2) lp1(2) assms(3)
    by (auto simp: record_last_precommit_def check_precommit_received_total [OF wfa(1) assms(3)])
  have "rs_attempts r' = Some (key_insert ra_sequence_number a (round_attempts r)) \<and>
    rs_last_precommit r' = Some (if attempt_precommit a (unat i) \<and> lp1 ! unat i < s \<and> (s > max_last_precommit (Some lp) \<or> \<not> flag)
       then lp1[unat i := s] else lp1)"
    using assms(6,7) a(1) lp(1) lp1(1) recorded precommitted_by_attempt_total(1) [OF assms(1) wfa(1)]
    by (simp add: apply_action_on_attempt_def get_attempt_or_new [OF wf(3)] get_voted_block_total [OF assms(1)] wfa
        push_attempt_total [OF wf(3)] attempt_or_new_def [symmetric] Let_def) auto
  with wfa(1) seq a(1) lp lp1 show thesis by (intro that [of a lp flag lp1]) auto
qed

lemma lock_on_attempt:
  assumes "wf_desc desc" and "wf_round desc B r" and "unat i < nodes_count desc" and "s \<noteq> 0" and "is_attempt_message m"
    and "apply_action_on_attempt desc r i s m r = Some r'" and "lock_ok desc H r"
  shows "lock_ok desc H r'"
proof (cases "rs_precommitted_block r = None")
  case False
  then show ?thesis using assms(6,7) by (simp add: apply_action_on_attempt_def)
next
  case True
  obtain a lp flag lp1 where a: "wf_attempt desc a" "ra_sequence_number a = s"
    "round_attempt_apply_action desc (attempt_or_new desc r s) i s m (round_view_of desc r) = Some a"
    "rs_attempts r' = Some (key_insert ra_sequence_number a (round_attempts r))"
    "rs_last_precommit r = Some lp" "length lp = nodes_count desc"
    "update_last_precommit desc r s (voted_block desc a) = Some (flag, Some lp1)" "length lp1 = nodes_count desc"
    "rs_last_precommit r' = Some (if attempt_precommit a (unat i) \<and> lp1 ! unat i < s \<and> (s > max_last_precommit (Some lp) \<or> \<not> flag)
       then lp1[unat i := s] else lp1)"
    by (rule on_attempt_cases [OF assms(1-5) True assms(6)])
  have evolves: "round_evolves (nodes_count desc) (unat i) r r'" "wf_round desc B r'"
    using apply_action_on_attempt_total [OF assms(1-5)] assms(6) by auto
  have sorted: "key_sorted ra_sequence_number (round_attempts r)" using wf_roundD(3) [OF assms(2)] by (simp add: wf_round_attempts_def)
  note push = set_push_attempt [OF sorted a(2,4)]
  have voted_a: "round_voted desc r' s (sent_block_get_id v)" if "voted_block desc a = Some v" for v
    using voted_block_SomeD(1) [OF assms(1) a(1) that] push(1) by (simp add: round_voted_def attempt_voted_def)
  \<comment> \<open>a reset would show two blocks with the votes since attempt \<open>t\<close>\<close>
  have no_reset: False if reset: flag and t: "t \<le> s" "t \<le> max_last_precommit (Some lp)" and clean: "clean_since desc r' t b" for t b
    using update_last_precommit_cases [OF assms(1,2) a(5,7)]
  proof cases
    case (2 v c)
    then have "round_voted desc r' (max_last_precommit (Some lp)) c" using evolves_voted [OF evolves(1)] by blast
    with clean t 2 voted_a show False unfolding clean_since_def by blast
  qed (use reset in simp)
  show ?thesis
    unfolding lock_ok_def
  proof (intro allI impI)
    fix j t b
    assume j: "j < nodes_count desc" "H j" "round_precommit r' t j" and voted: "round_voted desc r' t b"
      and clean: "clean_since desc r' t b"
    show "t \<le> vector_wrapper_iter (rs_last_precommit r') ! j"
    proof (cases "round_precommit r t j")
      case old: True
      obtain c where c: "round_voted desc r t c" by (rule precommit_voted [OF assms(2) j(1) old])
      then have "c = b" using clean evolves_voted [OF evolves(1)] unfolding clean_since_def by blast
      then have lp: "t \<le> lp ! j"
        using lock_okD [OF assms(7) j(1,2) old] c clean_since_mono [OF clean evolves_voted [OF evolves(1)]] a(5) by simp
      have "t \<le> lp1 ! j" using update_last_precommit_cases [OF assms(1,2) a(5,7)]
      proof cases
        case (2 v d)
        have "lp ! j > s" using no_reset [OF 2(1) _ _ clean] lp 2(6) [of "lp ! j"] a(6) j(1) by fastforce
        then show ?thesis using 2(2) lp a(6) j(1) by simp
      qed (use lp in simp)
      then show ?thesis using a(8,9) j(1) assms(3) by (auto simp: nth_list_update)
    next
      case False
      with j(1,3) evolves(1) have "j = unat i" by (auto simp: round_evolves_def)
      moreover have "t = s" "attempt_precommit a j" using False j(3) push(2) by (auto split: if_splits)
      moreover have "s > max_last_precommit (Some lp) \<or> \<not> flag" using no_reset [OF _ _ _ clean] \<open>t = s\<close> by fastforce
      ultimately show ?thesis using a(8,9) j(1) by auto
    qed
  qed
qed

text \<open>All messages.\<close>

lemma other_message_keeps:
  assumes "wf_round desc B r" and "unat i < nodes_count desc" and "round_apply_action desc r i s m = Some r'" and "\<not> is_attempt_message m"
  shows "rs_attempts r' = rs_attempts r \<and> rs_last_precommit r' = rs_last_precommit r"
proof -
  obtain r1 made where r1: "update_first_attempt r i s = Some (r1, made)" "wf_round desc B r1" "\<exists>fa. r1 = r\<lparr>rs_first_attempt := fa\<rparr>"
    by (rule update_first_attempt_total [OF assms(1,2), where s = s and n = 0 and src = 0])
  let ?keeps = "\<lambda>q. rs_attempts q = rs_attempts r1 \<and> rs_last_precommit q = rs_last_precommit r1"
  have submitted: "?keeps q" if "apply_submitted_block_action desc r1 i x y z r1 = Some q" for x y z q
    using that by (auto simp: apply_submitted_block_action_def bind_eq_Some_conv split: if_splits)
  have approved: "?keeps q" if "apply_approved_block_action desc r1 i b sig r1 = Some q" for b sig q
    using apply_approved_cases [OF wf_roundD(2) [OF r1(2)] assms(2), of b sig]
  proof cases
    case 1
    with that show ?thesis by simp
  next
    case (2 c)
    with that have "do { c' \<leftarrow> block_candidate_push c i (Some sig); bs \<leftarrow> sorted_vector_push block_candidate_less (rs_sent_blocks r1) c';
        Some (r1\<lparr>rs_sent_blocks := bs\<rparr>) } = Some q" by simp
    then show ?thesis by (auto simp: bind_eq_Some_conv)
  qed
  have committed: "?keeps q" if "apply_committed_block_action desc r1 i b sig r1 = Some q" for b sig q
    using that by (auto simp: apply_committed_block_action_def bind_eq_Some_conv split: option.splits if_splits)
  have "?keeps r'"
    using assms(3,4) submitted approved committed
    by (cases m) (auto simp: round_apply_action_def round_apply_action_dispatch_def r1(1) apply_rejected_block_action_def)
  with r1(3) show ?thesis by auto
qed

lemma lock_message:
  assumes "wf_desc desc" and "wf_round desc B r" and "unat i < nodes_count desc" and "s \<noteq> 0"
    and "round_apply_action desc r i s m = Some r'" and "lock_ok desc H r"
  shows "lock_ok desc H r'"
proof (cases "is_attempt_message m")
  case True
  obtain r1 made where r1: "update_first_attempt r i s = Some (r1, made)" "wf_round desc B r1" "\<exists>fa. r1 = r\<lparr>rs_first_attempt := fa\<rparr>"
    by (rule update_first_attempt_total [OF assms(2,3), where s = s and n = 0 and src = 0])
  have "apply_action_on_attempt desc r1 i s m r1 = Some r'"
    using assms(5) True r1(1) by (auto simp: round_apply_action_def round_apply_action_dispatch_def)
  moreover have "lock_ok desc H r1" using lock_ok_cong [of r1 r desc H] r1(3) assms(6) by auto
  ultimately show ?thesis using lock_on_attempt [OF assms(1) r1(2) assms(3,4) True] by blast
next
  case False
  show ?thesis using lock_ok_cong [of r' r desc H] other_message_keeps [OF assms(2,3,5) False] assms(6) by simp
qed

text \<open>
  Implicit actions do not set the last precommit. They keep the lock when they add no precommit of a validator in
  \<open>H\<close>.
\<close>

lemma make_one_keeps:
  assumes "round_make_one desc r i s = Some (r', made)"
  shows "rs_last_precommit r' = rs_last_precommit r"
proof -
  obtain r1 made1 where r1: "update_first_attempt r i s = Some (r1, made1)"
    using assms by (cases "update_first_attempt r i s") (auto simp: round_make_one_def)
  then have "rs_last_precommit r1 = rs_last_precommit r"
    by (auto simp: update_first_attempt_def bind_eq_Some_conv split: if_splits)
  moreover have "rs_last_precommit r' = rs_last_precommit r1"
    using assms r1 by (auto simp: round_make_one_def bind_eq_Some_conv split: if_splits)
  ultimately show ?thesis by simp
qed

lemma lock_make_one:
  assumes "wf_desc desc" and "wf_round desc B r" and "unat i < nodes_count desc" and "s \<noteq> 0"
    and "round_make_one desc r i s = Some (r', made)" and "lock_ok desc H r"
    and "\<And>t. H (unat i) \<Longrightarrow> round_precommit r' t (unat i) \<Longrightarrow> round_precommit r t (unat i)"
  shows "lock_ok desc H r'"
proof -
  have evolves: "round_evolves (nodes_count desc) (unat i) r r'"
    by (rule round_make_one_total [OF assms(1-4)]) (use assms(5) in auto)
  show ?thesis
    unfolding lock_ok_def
  proof (intro allI impI)
    fix j t b
    assume j: "j < nodes_count desc" "H j" "round_precommit r' t j" and clean: "clean_since desc r' t b"
    then have old: "round_precommit r t j"
      using evolves assms(7) [of t] by (cases "j = unat i") (auto simp: round_evolves_def)
    obtain c where c: "round_voted desc r t c" by (rule precommit_voted [OF assms(2) j(1) old])
    then have "c = b" using clean evolves_voted [OF evolves] unfolding clean_since_def by blast
    then show "t \<le> vector_wrapper_iter (rs_last_precommit r') ! j"
      using lock_okD [OF assms(6) j(1,2) old] c clean_since_mono [OF clean evolves_voted [OF evolves]] make_one_keeps [OF assms(5)] by simp
  qed
qed

subsection \<open>Merges keep the lock\<close>

text \<open>The two attempts that the merge compares have voted blocks that differ.\<close>

definition diversed_from :: "session_description \<Rightarrow> round_attempt set \<Rightarrow> diversed \<Rightarrow> bool" where
  "diversed_from desc as dv \<longleftrightarrow>
     (1 \<le> dv_count dv \<longrightarrow> (\<exists>a \<in> as. ra_sequence_number a = dv_attempts dv ! 0 \<and> voted_block desc a = Some (dv_blocks dv ! 0))) \<and>
     (dv_count dv = 2 \<longrightarrow> (\<exists>a \<in> as. \<exists>x. ra_sequence_number a = dv_attempts dv ! 1 \<and> voted_block desc a = Some x \<and>
        sent_block_get_id x \<noteq> sent_block_get_id (dv_blocks dv ! 0)))"

lemma diversed_step_from:
  assumes "wf_desc desc" and "wf_attempt desc a" and "a \<in> as" and "diversed_ok dv" and "diversed_from desc as dv"
    and "diversed_step desc a dv = Some dv'"
  shows "diversed_from desc as dv'"
proof -
  consider "dv_count dv = 0" | "dv_count dv = 1" | "dv_count dv = 2" using assms(4) by (force simp: diversed_ok_def)
  then show ?thesis
  proof cases
    case 1
    with assms show ?thesis
      by (auto simp: diversed_step_def get_voted_block_total [OF assms(1,2)] diversed_from_def diversed_ok_def split: option.splits)
  next
    case 2
    with assms show ?thesis
      by (auto simp: diversed_step_def get_voted_block_total [OF assms(1,2)] diversed_from_def diversed_ok_def split: option.splits if_splits)
  next
    case 3
    with assms show ?thesis by (simp add: diversed_step_def)
  qed
qed

lemma merge_loop_from:
  assumes "wf_desc desc" and "\<And>a. a \<in> set as \<Longrightarrow> wf_attempt desc a \<and> ra_sequence_number a \<noteq> 0"
    and "sorted_wrt (\<lambda>x y. ra_sequence_number y < ra_sequence_number x) as" and "diversed_ok dv"
    and "\<And>a. a \<in> set as \<Longrightarrow> 1 \<le> dv_count dv \<Longrightarrow> ra_sequence_number a < dv_attempts dv ! 0"
    and "set as \<subseteq> A" and "diversed_from desc A dv" and "merge_attempts_loop desc as p dv = Some (p', dv')"
  shows "diversed_from desc A dv'"
  using assms(2-)
proof (induction as arbitrary: p dv)
  case (Cons a as)
  have a: "wf_attempt desc a" "ra_sequence_number a \<noteq> 0" using Cons.prems(1) by auto
  obtain dv1 where dv1: "diversed_step desc a dv = Some dv1" "diversed_ok dv1" "dv_count dv \<le> dv_count dv1"
    "\<And>s. s < ra_sequence_number a \<Longrightarrow> 1 \<le> dv_count dv1 \<Longrightarrow> (1 \<le> dv_count dv \<Longrightarrow> s < dv_attempts dv ! 0) \<Longrightarrow> s < dv_attempts dv1 ! 0"
    using diversed_step_total [OF assms(1) a Cons.prems(3)] Cons.prems(4) [of a] by (metis list.set_intros(1))
  have from1: "diversed_from desc A dv1"
    using diversed_step_from [OF assms(1) a(1) _ Cons.prems(3,6) dv1(1)] Cons.prems(5) by simp
  have bound: "ra_sequence_number x < dv_attempts dv1 ! 0" if "x \<in> set as" "1 \<le> dv_count dv1" for x
    using that Cons.prems(2) Cons.prems(4) [of x] by (intro dv1(4)) auto
  from Cons.prems(7) dv1(1) have "dv' = dv1 \<or> (\<exists>q. merge_attempts_loop desc as q dv1 = Some (p', dv'))"
    by (auto simp: bind_eq_Some_conv split: if_splits)
  with from1 show ?case
    using Cons.IH [of dv1] Cons.prems(1,2,5) dv1(2) bound by auto
qed simp

lemma diversed_ordered:
  assumes "diversed_ok dv" and "1 \<le> dv_count dv"
  shows "dv_attempts dv ! 1 < dv_attempts dv ! 0"
proof (cases "dv_count dv = 1")
  case True
  then have "dv_attempts dv ! 1 = 0" "0 < dv_attempts dv ! 0"
    using assms(1) word_neq_0_conv by (auto simp: diversed_ok_def)
  then show ?thesis by simp
qed (use assms in \<open>auto simp: diversed_ok_def\<close>)

lemma merge_last_precommit:
  assumes "wf_desc desc" and "no_collisions desc B" and "wf_round desc B l" and "wf_round desc B r" and "round_compatible l r"
    and "round_merge desc l r = Some m"
  obtains ls rs dv where "rs_last_precommit l = Some ls" "rs_last_precommit r = Some rs" "length ls = nodes_count desc"
    "length rs = nodes_count desc" "rs_last_precommit m = Some (map2 (last_precommit_join dv) ls rs)" "diversed_ok dv"
    "diversed_from desc (set (round_attempts m)) dv"
proof -
  note wf = wf_roundD [OF assms(3)] wf_roundD [OF assms(4)] and rel = merged_attempts_wf' [OF assms(3,4)]
  let ?as = "vector_wrapper_iter (merged_attempts l r)"
  obtain ls rs where lp: "rs_last_precommit l = Some ls" "rs_last_precommit r = Some rs"
    "length ls = nodes_count desc" "length rs = nodes_count desc"
    using wf(1,5) by (auto simp: wf_round_vectors_def)
  obtain pb dv where dv: "merge_attempts_loop desc (rev ?as) (merged_precommitted l r) diversed_init = Some (pb, dv)"
    "diversed_ok dv" "\<And>a. dv_count dv = 0 \<Longrightarrow> a \<in> set ?as \<Longrightarrow> voted_block desc a = None"
    using merge_loop_result [OF assms(1,3,4)] by metis
  note lp_merge = last_precommit_merge_total [OF assms(1,3,4) lp(1,2) dv(3)]
  have ordered: "dv_count dv \<ge> 1 \<longrightarrow> dv_attempts dv ! 0 > dv_attempts dv ! 1"
    using diversed_ordered [OF dv(2)] by blast
  have "Some m = Some \<lparr> rs_precommitted_block = pb, rs_sequence_number = rs_sequence_number l,
    rs_first_attempt = merged_first_attempt l r, rs_last_precommit = Some (map2 (last_precommit_join dv) ls rs),
    rs_sent_blocks = merged_blocks l r,
    rs_signatures = list_join (combine_options min) (rs_signatures l) (rs_signatures r), rs_attempts = merged_attempts l r \<rparr>"
    unfolding assms(6) [symmetric] using ordered by (simp add: round_merge_eq [OF assms(2-5)] dv(1) lp_merge)
  then have m: "rs_last_precommit m = Some (map2 (last_precommit_join dv) ls rs)" "round_attempts m = ?as"
    by (simp_all add: round_attempts_def)
  have as: "sorted_wrt (\<lambda>x y. ra_sequence_number y < ra_sequence_number x) (rev ?as)"
    "\<And>a. a \<in> set (rev ?as) \<Longrightarrow> wf_attempt desc a \<and> ra_sequence_number a \<noteq> 0"
    using rel(1,5) wf_round_attemptD [OF rel(1)]
    by (auto simp: wf_round_attempts_def key_sorted_def sorted_wrt_rev sorted_wrt_map)
  have "diversed_from desc (set (round_attempts m)) dv"
    by (rule merge_loop_from [OF assms(1) as(2,1) _ _ _ _ dv(1)]) (auto simp: m(2) diversed_from_def diversed_ok_def diversed_init_def)
  with lp m(1) dv(2) show thesis by (intro that)
qed

lemma diversed_two:
  assumes "wf_desc desc" and "wf_round desc B m" and "diversed_from desc (set (round_attempts m)) dv" and "dv_count dv = 2"
  obtains x y where "round_voted desc m (dv_attempts dv ! 0) x" "round_voted desc m (dv_attempts dv ! 1) y" "x \<noteq> y"
proof -
  note wfa = wf_roundD(3) [OF assms(2)]
  have voted: "round_voted desc m (ra_sequence_number a) (sent_block_get_id x)"
    if "a \<in> set (round_attempts m)" "voted_block desc a = Some x" for a x
    using voted_block_SomeD(1) [OF assms(1) wf_round_attemptD(1) [OF wfa that(1)] that(2)]
    by (simp add: round_vote_of_attempt(3) [OF wfa that(1)])
  obtain a c x where "a \<in> set (round_attempts m)" "ra_sequence_number a = dv_attempts dv ! 0" "voted_block desc a = Some (dv_blocks dv ! 0)"
    "c \<in> set (round_attempts m)" "ra_sequence_number c = dv_attempts dv ! 1" "voted_block desc c = Some x"
    "sent_block_get_id x \<noteq> sent_block_get_id (dv_blocks dv ! 0)"
    using assms(3,4) by (auto simp: diversed_from_def)
  then show thesis using voted by (metis that)
qed

lemma lock_merge:
  assumes "wf_desc desc" and "no_collisions desc B" and "wf_round desc B l" and "wf_round desc B r" and "round_compatible l r"
    and "round_merge desc l r = Some m" and "lock_ok desc H l" and "lock_ok desc H r"
  shows "lock_ok desc H m"
  unfolding lock_ok_def
proof (intro allI impI)
  fix i s b
  assume i: "i < nodes_count desc" "H i" "round_precommit m s i" and voted: "round_voted desc m s b" and clean: "clean_since desc m s b"
  obtain ls rs dv where lp: "rs_last_precommit l = Some ls" "rs_last_precommit r = Some rs" "length ls = nodes_count desc"
    "length rs = nodes_count desc" "rs_last_precommit m = Some (map2 (last_precommit_join dv) ls rs)" "diversed_ok dv"
    "diversed_from desc (set (round_attempts m)) dv"
    by (rule merge_last_precommit [OF assms(1-6)])
  have merged: "round_merged (nodes_count desc) l r m" "wf_round desc B m"
    using round_merge_total [OF assms(1-5)] assms(6) by auto
  note up = round_merged_voted(2) [OF merged(1)]
  have lock: "s \<le> vector_wrapper_iter (rs_last_precommit q) ! i"
    if q: "wf_round desc B q" "lock_ok desc H q" "\<And>t c. round_voted desc q t c \<Longrightarrow> round_voted desc m t c" "round_precommit q s i" for q
  proof -
    obtain c where c: "round_voted desc q s c" by (rule precommit_voted [OF q(1) i(1) q(4)])
    then have "c = b" using clean q(3) unfolding clean_since_def by blast
    with c show ?thesis using lock_okD [OF q(2) i(1,2) q(4)] clean_since_mono [OF clean q(3)] by blast
  qed
  have "round_precommit l s i \<or> round_precommit r s i" using merged(1) i by (auto simp: round_merged_def)
  then have max: "s \<le> max (ls ! i) (rs ! i)"
    using lock [OF assms(3,7)] lock [OF assms(4,8)] up lp(1,2) by (auto simp: le_max_iff_disj)
  have "s \<noteq> 0"
  proof -
    obtain a where "a \<in> set (round_attempts m)" "ra_sequence_number a = s" using i(3) by (auto simp: round_precommit_def)
    then show ?thesis using wf_round_attemptD(3) [OF wf_roundD(3) [OF merged(2)]] by blast
  qed
  have "dv_attempts dv ! 1 < s" if "dv_count dv \<noteq> 0"
  proof (cases "dv_count dv = 2")
    case True
    then obtain x y where xy: "round_voted desc m (dv_attempts dv ! 0) x" "round_voted desc m (dv_attempts dv ! 1) y" "x \<noteq> y"
      by (rule diversed_two [OF assms(1) merged(2) lp(7)])
    have less: "dv_attempts dv ! 1 < dv_attempts dv ! 0" using True lp(6) by (simp add: diversed_ok_def)
    show ?thesis
    proof (rule ccontr)
      assume "\<not> dv_attempts dv ! 1 < s"
      then have "s \<le> dv_attempts dv ! 1" "s \<le> dv_attempts dv ! 0" using less by auto
      with clean xy show False unfolding clean_since_def by blast
    qed
  next
    case False
    then have "dv_attempts dv ! 1 = 0" using that lp(6) by (auto simp: diversed_ok_def)
    then show ?thesis using \<open>s \<noteq> 0\<close> by (simp add: word_neq_0_conv [symmetric])
  qed
  then have "last_precommit_join dv (ls ! i) (rs ! i) = max (ls ! i) (rs ! i)"
    using max by (auto simp: last_precommit_join_def simp del: max_less_iff_conj max.bounded_iff)
  then show "s \<le> vector_wrapper_iter (rs_last_precommit m) ! i"
    using max lp(3-5) i(1) by simp
qed

subsection \<open>Votes respect the lock\<close>

text \<open>A new vote is for the block that the round chooses, and a message of an attempt touches no other attempt.\<close>

lemma new_vote_chosen:
  assumes "wf_desc desc" and "wf_attempt desc a" and "unat i < nodes_count desc" and "j < nodes_count desc"
    and "round_attempt_apply_action desc a i s m view = Some a'" and "attempt_vote a' b j" and "\<not> attempt_vote a b j"
  obtains block where "rv_choose_block_to_vote view i s (ra_vote_for a) = Some (Some block)" "sent_block_get_id block = b"
proof -
  let ?chosen = "\<exists>block. rv_choose_block_to_vote view i s (ra_vote_for a) = Some (Some block) \<and> sent_block_get_id block = b"
  have changed: "ra_votes a' \<noteq> ra_votes a"
    using assms(6,7) by (auto simp: attempt_vote_def attempt_votes_def)
  have push: "vote_candidate_push (attempt_candidate desc a block) i = Some (vote_candidate_add (attempt_candidate desc a block) (unat i))" for block
    by (rule vote_candidate_push_total [OF attempt_candidate_props(2) [OF assms(1,2)] assms(3)])
  have added: ?chosen if run: "try_vote desc a i s x view a = Some (a', True)" for x
  proof -
    obtain block where block: "rv_choose_block_to_vote view i s (ra_vote_for a) = Some (Some block)"
      using run by (auto simp: try_vote_def bind_eq_Some_conv split: if_splits option.splits)
    then have "a' = attempt_add_vote desc a (unat i) block"
      using run push [of block]
      by (auto simp: try_vote_def attempt_candidate_def [symmetric] votes_push_total [OF assms(2)]
          attempt_add_vote_def check_vote_received_total [OF assms(2,3)] split: if_splits)
    then show ?thesis using block assms(6,7) attempt_vote_add_vote [OF assms(1-4)] by auto
  qed
  have precommit: "ra_votes x = ra_votes a" if "try_precommit desc a i s y view a = Some (x, made)" for x y made
    using that by (auto simp: try_precommit_def bind_eq_Some_conv split: if_splits option.splits)
  have default: ?chosen if run: "map_option fst (apply_default_action desc a i s x view a) = Some a'" for x
  proof (cases "\<exists>q. try_vote desc a i s x view a = Some (q, True)")
    case True
    then show ?thesis using added run by (auto simp: apply_default_action_def)
  next
    case False
    then obtain q where "try_vote desc a i s x view a = Some (q, False)"
      using run by (cases "try_vote desc a i s x view a") (auto simp: apply_default_action_def)
    then have "\<exists>made. try_precommit desc a i s x view a = Some (a', made)"
      using run changed by (cases "try_precommit desc a i s x view a") (auto simp: apply_default_action_def split: if_splits)
    then show ?thesis using precommit changed by blast
  qed
  have vote_for: "ra_votes a' = ra_votes a" if "apply_vote_for_action desc a i s c view a = Some a'" for c
    using that unfolding apply_vote_for_action_def Let_def by (auto simp: bind_eq_Some_conv split: if_splits option.splits)
  consider c where "apply_vote_for_action desc a i s c view a = Some a'"
    | x where "map_option fst (apply_default_action desc a i s x view a) = Some a'"
    using assms(5) unfolding round_attempt_apply_action_def round_attempt_apply_action_dispatch_def
    by (cases m) auto
  then have ?chosen
  proof cases
    case (1 c)
    then show ?thesis using vote_for changed by blast
  next
    case (2 x)
    then show ?thesis by (rule default)
  qed
  then show thesis using that by blast
qed

lemma attempt_step_adds:
  assumes "wf_desc desc" and "wf_round desc B r" and "unat i < nodes_count desc" and "j < nodes_count desc"
    and "round_attempt_apply_action desc (attempt_or_new desc r s) i s m (round_view_of desc r) = Some a" and "ra_sequence_number a = s"
    and "rs_attempts r' = Some (key_insert ra_sequence_number a (round_attempts r))"
  shows "round_vote r' t b j \<Longrightarrow> \<not> round_vote r t b j \<Longrightarrow> t = s \<and>
      (last_precommit_of r i \<noteq> 0 \<longrightarrow> round_voted desc r (last_precommit_of r i) b)"
    and "round_precommit r' t j \<Longrightarrow> \<not> round_precommit r t j \<Longrightarrow> t = s"
proof -
  note wf = wf_roundD(3) [OF assms(2)] and new = attempt_or_new_props [OF assms(1) wf_roundD(3) [OF assms(2)], where s = s]
  have sorted: "key_sorted ra_sequence_number (round_attempts r)" using wf by (simp add: wf_round_attempts_def)
  note push = set_push_attempt [OF sorted assms(6,7)]
  have "round_voted desc r (last_precommit_of r i) b"
    if lock: "last_precommit_of r i \<noteq> 0" and vote: "attempt_vote a b j" "\<not> round_vote r s b j"
  proof -
    have "wf_attempt desc (attempt_or_new desc r s)" "\<not> attempt_vote (attempt_or_new desc r s) b j"
      using new vote(2) by (auto simp: attempt_ok_def)
    then obtain block where "choose_block_to_vote desc r i s (ra_vote_for (attempt_or_new desc r s)) = Some (Some block)"
      "sent_block_get_id block = b"
      using new_vote_chosen [OF assms(1) _ assms(3-5) vote(1)] by (auto simp: round_view_of_def)
    moreover obtain c where "choose_block_to_vote desc r i s (ra_vote_for (attempt_or_new desc r s)) = Some (Some c)"
      "round_voted desc r (last_precommit_of r i) (sent_block_get_id c)"
      using choose_block_locked [OF assms(1-3) lock] by blast
    ultimately show ?thesis by simp
  qed
  then show "round_vote r' t b j \<Longrightarrow> \<not> round_vote r t b j \<Longrightarrow> t = s \<and>
      (last_precommit_of r i \<noteq> 0 \<longrightarrow> round_voted desc r (last_precommit_of r i) b)"
    by (auto simp: push split: if_splits)
  show "round_precommit r' t j \<Longrightarrow> \<not> round_precommit r t j \<Longrightarrow> t = s" by (auto simp: push split: if_splits)
qed

text \<open>
  A step of validator \<open>i\<close> in attempt \<open>s\<close> that respects its lock: it adds votes and precommits only there, and while a
  precommit is remembered the vote is for the block with the votes of that precommit.
\<close>

definition lawful_step :: "session_description \<Rightarrow> u32 \<Rightarrow> u32 \<Rightarrow> round_state \<Rightarrow> round_state \<Rightarrow> bool" where
  "lawful_step desc i s r r' \<longleftrightarrow>
     (\<forall>t b. round_vote r' t b (unat i) \<longrightarrow> \<not> round_vote r t b (unat i) \<longrightarrow> t = s \<and>
        (last_precommit_of r i \<noteq> 0 \<longrightarrow> round_voted desc r (last_precommit_of r i) b)) \<and>
     (\<forall>t. round_precommit r' t (unat i) \<longrightarrow> \<not> round_precommit r t (unat i) \<longrightarrow> t = s)"

lemma lawful_stepD:
  assumes "lawful_step desc i s r r'"
  shows "round_vote r' t b (unat i) \<Longrightarrow> \<not> round_vote r t b (unat i) \<Longrightarrow> t = s"
    and "round_vote r' t b (unat i) \<Longrightarrow> \<not> round_vote r t b (unat i) \<Longrightarrow> last_precommit_of r i \<noteq> 0 \<Longrightarrow>
      round_voted desc r (last_precommit_of r i) b"
    and "round_precommit r' t (unat i) \<Longrightarrow> \<not> round_precommit r t (unat i) \<Longrightarrow> t = s"
  using assms unfolding lawful_step_def by blast+

lemma lawful_step_same:
  assumes "rs_attempts r' = rs_attempts r"
  shows "lawful_step desc i s r r'"
  using round_relations_cong(4,5) [OF assms] by (simp add: lawful_step_def)

lemma lawful_first_attempt:
  assumes "lawful_step desc i s (r\<lparr>rs_first_attempt := fa\<rparr>) r'"
  shows "lawful_step desc i s r r'"
  using assms round_relations_cong(4-6) [of "r\<lparr>rs_first_attempt := fa\<rparr>" r] by (simp add: lawful_step_def)

lemma lawful_message:
  assumes "wf_desc desc" and "wf_round desc B r" and "unat i < nodes_count desc" and "s \<noteq> 0"
    and "round_apply_action desc r i s m = Some r'"
  shows "lawful_step desc i s r r'"
proof (cases "is_attempt_message m")
  case False
  then show ?thesis using other_message_keeps [OF assms(2,3,5)] by (intro lawful_step_same) blast
next
  case True
  obtain r1 made fa where r1: "update_first_attempt r i s = Some (r1, made)" "wf_round desc B r1" "r1 = r\<lparr>rs_first_attempt := fa\<rparr>"
    by (rule update_first_attempt_total [OF assms(2,3), where s = s and n = 0 and src = 0]) blast
  have run: "apply_action_on_attempt desc r1 i s m r1 = Some r'"
    using assms(5) True r1(1) by (auto simp: round_apply_action_def round_apply_action_dispatch_def)
  have "lawful_step desc i s r1 r'"
  proof (cases "rs_precommitted_block r1 = None")
    case False
    then show ?thesis using run by (intro lawful_step_same) (simp add: apply_action_on_attempt_def)
  next
    case open_round: True
    obtain a where "ra_sequence_number a = s" "rs_attempts r' = Some (key_insert ra_sequence_number a (round_attempts r1))"
      "round_attempt_apply_action desc (attempt_or_new desc r1 s) i s m (round_view_of desc r1) = Some a"
      by (rule on_attempt_cases [OF assms(1) r1(2) assms(3,4) True open_round run])
    then show ?thesis
      using attempt_step_adds [OF assms(1) r1(2) assms(3,3)] unfolding lawful_step_def by blast
  qed
  then show ?thesis unfolding r1(3) by (rule lawful_first_attempt)
qed

lemma lawful_implicit:
  assumes "wf_desc desc" and "wf_round desc B r" and "unat i < nodes_count desc" and "s \<noteq> 0"
    and "round_make_one desc r i s = Some (r', made)"
  shows "lawful_step desc i s r r'"
proof -
  obtain r1 made1 fa where r1: "update_first_attempt r i s = Some (r1, made1)" "wf_round desc B r1" "r1 = r\<lparr>rs_first_attempt := fa\<rparr>"
    by (rule update_first_attempt_total [OF assms(2,3), where s = s and n = 0 and src = 0]) blast
  note wf = wf_roundD(3) [OF r1(2)] and new = attempt_or_new_props [OF assms(1) wf_roundD(3) [OF r1(2)], where s = s]
  let ?a = "attempt_or_new desc r1 s"
  have run: "round_make_one desc r i s = (if rs_precommitted_block r1 \<noteq> None then Some (r1, made1)
    else do { (a, ch) \<leftarrow> apply_default_action desc ?a i s None (round_view_of desc r1) ?a;
              if \<not> ch then Some (r1, made1)
              else Some (r1\<lparr>rs_attempts := Some (key_insert ra_sequence_number a (round_attempts r1))\<rparr>, True) })"
    unfolding round_make_one_def
    by (simp add: r1(1) get_attempt_or_new [OF wf] round_attempt_make_one_def attempt_or_new_def [symmetric]
        push_attempt_total [OF wf] Let_def cong: if_cong)
  have message: "round_attempt_apply_action desc ?a i s (Empty 0 0) (round_view_of desc r1) = Some a"
    if "apply_default_action desc ?a i s None (round_view_of desc r1) ?a = Some (a, ch)" for a ch
  proof -
    have "apply_default_action desc ?a i s (Some (Empty 0 0)) (round_view_of desc r1) ?a =
        apply_default_action desc ?a i s None (round_view_of desc r1) ?a"
      by (simp only: apply_default_action_def try_vote_def try_precommit_def)
    with that show ?thesis by (simp add: round_attempt_apply_action_def round_attempt_apply_action_dispatch_def)
  qed
  consider "r' = r1" | a ch where "apply_default_action desc ?a i s None (round_view_of desc r1) ?a = Some (a, ch)"
    "rs_attempts r' = Some (key_insert ra_sequence_number a (round_attempts r1))"
    using assms(5) unfolding run by (auto simp: bind_eq_Some_conv split: if_splits)
  then have "lawful_step desc i s r1 r'"
  proof cases
    case 1
    then show ?thesis by (simp add: lawful_step_same)
  next
    case (2 a ch)
    obtain chosen where chosen: "choose_block_to_vote desc r1 i s (ra_vote_for ?a) = Some chosen"
      by (rule choose_for_attempt [OF assms(1) r1(2) assms(3)])
    have "wf_attempt desc ?a" using new(2) by (simp add: attempt_ok_def)
    then have "ra_sequence_number a = s"
      using default_action_next_step [OF assms(1) _ assms(3), of ?a "round_view_of desc r1" s chosen None] chosen 2(1) new(1)
      by (auto simp: attempt_add_vote_def attempt_add_precommit_def split: next_step.splits)
    then show ?thesis
      using attempt_step_adds [OF assms(1) r1(2) assms(3,3) message [OF 2(1)] _ 2(2)] unfolding lawful_step_def by blast
  qed
  then show ?thesis unfolding r1(3) by (rule lawful_first_attempt)
qed

end
