(* ===== verification/VS_Ledger.thy ===== *)
theory VS_Ledger
  imports VS_Lock
begin

text \<open>
  Agreement on one round. The votes and the precommits that the correct validators ever gave in a round are
  collected in a ledger, in which every other validator counts as having given all of them. The ledger keeps the
  following: a correct validator votes once in an attempt, its attempts do not go back, and its votes respect the
  lock. From that, no two blocks can be precommitted.
\<close>

definition may_voted :: "session_description \<Rightarrow> (nat \<Rightarrow> bool) \<Rightarrow> (nat \<Rightarrow> u32 \<Rightarrow> block_id \<Rightarrow> bool) \<Rightarrow> u32 \<Rightarrow> block_id \<Rightarrow> bool" where
  "may_voted desc H V s b \<longleftrightarrow> cutoff_of desc \<le> weight_of desc (\<lambda>i. \<not> H i \<or> V i s b)"

definition may_precommitted :: "session_description \<Rightarrow> (nat \<Rightarrow> bool) \<Rightarrow> (nat \<Rightarrow> u32 \<Rightarrow> bool) \<Rightarrow> u32 \<Rightarrow> bool" where
  "may_precommitted desc H P s \<longleftrightarrow> cutoff_of desc \<le> weight_of desc (\<lambda>i. \<not> H i \<or> P i s)"

text \<open>Less than or a third of the weight is not with the correct validators.\<close>

definition mostly_correct :: "session_description \<Rightarrow> (nat \<Rightarrow> bool) \<Rightarrow> bool" where
  "mostly_correct desc H \<longleftrightarrow> 3 * weight_of desc (\<lambda>i. \<not> H i) \<le> total_of desc"

text \<open>
  The validators in \<open>Q\<close> can still end up as precommitters of attempt \<open>s\<close>: they precommitted there, or they are
  not past it.
\<close>

definition may_lock :: "session_description \<Rightarrow> (nat \<Rightarrow> bool) \<Rightarrow> (nat \<Rightarrow> u32 \<Rightarrow> bool) \<Rightarrow> (nat \<Rightarrow> u32) \<Rightarrow> u32 \<Rightarrow> (nat \<Rightarrow> bool) \<Rightarrow> bool" where
  "may_lock desc H P A s Q \<longleftrightarrow> (\<forall>j < nodes_count desc. Q j \<longrightarrow> H j \<and> (P j s \<or> A j \<le> s)) \<and>
     cutoff_of desc \<le> weight_of desc (\<lambda>j. \<not> H j \<or> Q j)"

definition ledger_ok ::
  "session_description \<Rightarrow> (nat \<Rightarrow> bool) \<Rightarrow> (nat \<Rightarrow> u32 \<Rightarrow> block_id \<Rightarrow> bool) \<Rightarrow> (nat \<Rightarrow> u32 \<Rightarrow> bool) \<Rightarrow> (nat \<Rightarrow> u32) \<Rightarrow> bool" where
  "ledger_ok desc H V P A \<longleftrightarrow>
     (\<forall>i < nodes_count desc. \<forall>s b. H i \<longrightarrow> V i s b \<longrightarrow> s \<le> A i \<and> (\<forall>b'. V i s b' \<longrightarrow> b' = b)) \<and>
     (\<forall>i < nodes_count desc. \<forall>s. H i \<longrightarrow> P i s \<longrightarrow> (\<exists>b. may_voted desc H V s b)) \<and>
     (\<forall>s b Q u c. \<forall>j < nodes_count desc. may_lock desc H P A s Q \<longrightarrow> may_voted desc H V s b \<longrightarrow> Q j \<longrightarrow> s < u \<longrightarrow>
        V j u c \<longrightarrow> c = b)"

lemma ledger_okD:
  assumes "ledger_ok desc H V P A"
  shows "i < nodes_count desc \<Longrightarrow> H i \<Longrightarrow> V i s b \<Longrightarrow> s \<le> A i"
    and "i < nodes_count desc \<Longrightarrow> H i \<Longrightarrow> V i s b \<Longrightarrow> V i s b' \<Longrightarrow> b' = b"
    and "i < nodes_count desc \<Longrightarrow> H i \<Longrightarrow> P i s \<Longrightarrow> \<exists>b. may_voted desc H V s b"
    and "may_lock desc H P A s Q \<Longrightarrow> may_voted desc H V s b \<Longrightarrow> j < nodes_count desc \<Longrightarrow> Q j \<Longrightarrow> s < u \<Longrightarrow> V j u c \<Longrightarrow> c = b"
  using assms unfolding ledger_ok_def by blast+

text \<open>Two quorums of the ledger share a correct validator.\<close>

lemma share_correct:
  assumes "wf_desc desc" and "mostly_correct desc H"
    and "cutoff_of desc \<le> weight_of desc (\<lambda>i. \<not> H i \<or> X i)" and "cutoff_of desc \<le> weight_of desc (\<lambda>i. \<not> H i \<or> Y i)"
  obtains i where "i < nodes_count desc" "H i" "X i" "Y i"
  using vp.quorums_share_honest [OF assms(1,3,4)] assms(2) unfolding mostly_correct_def by blast

lemma may_voted_unique:
  assumes "wf_desc desc" and "mostly_correct desc H" and "may_voted desc H V s b" and "may_voted desc H V s c"
    and "\<And>i. i < nodes_count desc \<Longrightarrow> H i \<Longrightarrow> V i s b \<Longrightarrow> V i s c \<Longrightarrow> c = b"
  shows "c = b"
proof -
  obtain i where "i < nodes_count desc" "H i" "V i s b" "V i s c"
    using assms(3,4) unfolding may_voted_def by (rule share_correct [OF assms(1,2)])
  then show ?thesis by (rule assms(5))
qed

lemma may_voted_mono:
  assumes "may_voted desc H V s b" and "\<And>i. V i s b \<Longrightarrow> V' i s b"
  shows "may_voted desc H V' s b"
  using assms(1) weight_of_mono [of desc "\<lambda>i. \<not> H i \<or> V i s b" "\<lambda>i. \<not> H i \<or> V' i s b"] assms(2)
  unfolding may_voted_def by fastforce

text \<open>If enough validators can be locked, the ledger is clean from that attempt on.\<close>

lemma may_lock_clean:
  assumes "wf_desc desc" and "mostly_correct desc H" and "ledger_ok desc H V P A"
    and "may_lock desc H P A s Q" and "may_voted desc H V s b" and "s \<le> u" and "may_voted desc H V u c"
  shows "c = b"
proof (cases "u = s")
  case True
  then show ?thesis
    using may_voted_unique [OF assms(1,2,5), of c] assms(7) ledger_okD(2) [OF assms(3)] by blast
next
  case False
  then have "s < u" using assms(6) by simp
  obtain j where "j < nodes_count desc" "H j" "Q j" "V j u c"
    by (rule share_correct [OF assms(1,2), of Q "\<lambda>j. V j u c"]) (use assms(4,7) in \<open>auto simp: may_lock_def may_voted_def\<close>)
  then show ?thesis using ledger_okD(4) [OF assms(3,4,5)] \<open>s < u\<close> by blast
qed

lemma ledger_agree:
  assumes "wf_desc desc" and "mostly_correct desc H" and "ledger_ok desc H V P A"
    and "may_precommitted desc H P s" and "may_voted desc H V s b"
    and "may_precommitted desc H P u" and "may_voted desc H V u c"
  shows "c = b"
proof -
  have lock: "may_lock desc H P A t (\<lambda>j. H j \<and> P j t)" if "may_precommitted desc H P t" for t
    using that weight_of_mono [of desc "\<lambda>j. \<not> H j \<or> P j t" "\<lambda>j. \<not> H j \<or> H j \<and> P j t"]
    by (auto simp: may_lock_def may_precommitted_def)
  show ?thesis
  proof (cases "s \<le> u")
    case True
    then show ?thesis by (rule may_lock_clean [OF assms(1-3) lock [OF assms(4)] assms(5) _ assms(7)])
  next
    case False
    then have "u \<le> s" by simp
    then show ?thesis using may_lock_clean [OF assms(1-3) lock [OF assms(6)] assms(7) _ assms(5)] by blast
  qed
qed

text \<open>A step of the correct validator \<open>i\<close> in attempt \<open>t\<close>, which respects its lock, keeps the ledger.\<close>

lemma ledger_step:
  assumes "wf_desc desc" and "mostly_correct desc H" and "ledger_ok desc H V P A" and "A i \<le> t"
    and "\<And>j u c. V j u c \<Longrightarrow> V' j u c"
    and "\<And>j u c. V' j u c \<Longrightarrow> \<not> V j u c \<Longrightarrow> j = i \<and> u = t"
    and "\<And>c c'. V' i t c \<Longrightarrow> V' i t c' \<Longrightarrow> c' = c"
    and "\<And>j u. P' j u \<Longrightarrow> \<not> P j u \<Longrightarrow> j = i \<and> u = t"
    and "\<And>u. P' i u \<Longrightarrow> \<exists>b. may_voted desc H V' u b"
    and "\<And>s b c. P i s \<Longrightarrow> may_voted desc H V s b \<Longrightarrow> (\<And>u c. s \<le> u \<Longrightarrow> may_voted desc H V u c \<Longrightarrow> c = b) \<Longrightarrow>
      V' i t c \<Longrightarrow> \<not> V i t c \<Longrightarrow> c = b"
  shows "ledger_ok desc H V' P' (A(i := t))"
proof -
  note ok = ledger_okD [OF assms(3)]
  have mono: "may_voted desc H V' s b" if "may_voted desc H V s b" for s b by (rule may_voted_mono [OF that assms(5)])
  have single: "b' = b" if "j < nodes_count desc" "H j" "V' j s b" "V' j s b'" for j s b b'
  proof (cases "V j s b \<and> V j s b'")
    case True
    then show ?thesis using ok(2) [OF that(1,2)] by blast
  next
    case False
    then have "j = i" "s = t" using that(3,4) assms(6) by blast+
    then show ?thesis using assms(7) that(3,4) by blast
  qed
  have attempt: "s \<le> (A(i := t)) j" if "j < nodes_count desc" "H j" "V' j s b" for j s b
  proof (cases "V j s b")
    case True
    then have "s \<le> A j" by (rule ok(1) [OF that(1,2)])
    then show ?thesis using assms(4) by auto
  next
    case False
    then show ?thesis using assms(6) [OF that(3)] by simp
  qed
  have precommit: "\<exists>b. may_voted desc H V' s b" if "j < nodes_count desc" "H j" "P' j s" for j s
  proof (cases "P j s")
    case True
    then show ?thesis using ok(3) [OF that(1,2)] mono by blast
  next
    case False
    then show ?thesis using assms(8) [OF that(3)] assms(9) that(3) by blast
  qed
  have "c = b" if lock: "may_lock desc H P' (A(i := t)) s Q" and voted: "may_voted desc H V' s b"
    and j: "j < nodes_count desc" "Q j" "s < u" "V' j u c" for s b Q u c j
  proof -
    have "P k s \<or> A k \<le> s" if "P' k s \<or> (A(i := t)) k \<le> s" for k
      using that assms(4) assms(8) [of k s] by (cases "k = i") auto
    then have old: "may_lock desc H P A s Q" using lock unfolding may_lock_def by blast
    have H: "H j" using old j by (simp add: may_lock_def)
    have "u \<le> (A(i := t)) j" by (rule attempt [OF j(1) H j(4)])
    then have "P' j s" using lock j by (auto simp: may_lock_def)
    moreover have "s \<noteq> t" if "j = i" using that \<open>u \<le> _\<close> j(3) by auto
    ultimately have "P j s" using assms(8) [of j s] by blast
    then obtain d where d: "may_voted desc H V s d" using ok(3) [OF j(1) H] by blast
    have "d = b" using may_voted_unique [OF assms(1,2) voted mono [OF d]] single by blast
    moreover have "c = d"
    proof (cases "V j u c")
      case True
      then show ?thesis by (rule ok(4) [OF old d j(1-3)])
    next
      case False
      then have "j = i" "u = t" using assms(6) j(4) by blast+
      then show ?thesis
        using assms(10) [OF _ d] may_lock_clean [OF assms(1-3) old d] \<open>P j s\<close> j(4) False by blast
    qed
    ultimately show ?thesis by simp
  qed
  with single attempt precommit show ?thesis unfolding ledger_ok_def by meson
qed

end
