(* ===== verification/VS_Agreement.thy ===== *)
theory VS_Agreement
  imports VS_Ledger VS_Publish
begin

text \<open>
  Agreement on the committed blocks. A history of a session is the set of all session states that came about so
  far, together with the latest own state of every correct validator. When at most a third of the weight is not
  with the correct validators, any two states of a history agree on the blocks of the decided rounds.
\<close>

subsection \<open>The steps of a session\<close>

lemma create_current_round_silent:
  "\<not> round_vote (create_current_round desc k) t b i" "\<not> round_precommit (create_current_round desc k) t i"
  "rs_sequence_number (create_current_round desc k) = k"
  by (simp_all add: round_vote_def round_precommit_def round_attempts_def create_current_round_def)

lemma lock_create_current_round: "lock_ok desc H (create_current_round desc k)"
  by (simp add: lock_ok_def create_current_round_silent)

text \<open>What happens to a round that may be decided.\<close>

definition settles :: "session_description \<Rightarrow> round_state \<Rightarrow> session_state \<Rightarrow> bool" where
  "settles desc q st \<longleftrightarrow>
     (ss_current_round st = q \<and> length (session_old_rounds st) = unat (rs_sequence_number q)) \<or>
     (ss_current_round st = create_current_round desc (rs_sequence_number q + 1) \<and>
      length (session_old_rounds st) = unat (rs_sequence_number q) + 1 \<and>
      cutoff_of desc \<le> weight_of desc (round_signed q) \<and>
      rs_precommitted_block q = Some (or_block (session_old_rounds st ! unat (rs_sequence_number q))))"

lemma session_merge_cases:
  assumes "wf_desc desc" and "no_collisions desc B" and "wf_session desc B l" and "wf_session desc B r"
    and "session_compatible l r" and "round_number_left l" and "round_number_left r" and "session_merge desc l r = Some m"
  obtains q where "wf_round desc B q" "settles desc q m"
    "rs_sequence_number q = max (rs_sequence_number (ss_current_round l)) (rs_sequence_number (ss_current_round r))"
    "q = ss_current_round l \<or> q = ss_current_round r \<or>
       rs_sequence_number (ss_current_round l) = rs_sequence_number (ss_current_round r)"
    "rs_sequence_number (ss_current_round l) = rs_sequence_number (ss_current_round r) \<longrightarrow>
       round_merge desc (ss_current_round l) (ss_current_round r) = Some q"
proof -
  note l = wf_sessionD [OF assms(3)] and r = wf_sessionD [OF assms(4)] and ids = merged_attempt_ids [OF assms(3,4)]
  obtain ds where ds: "vector_wrapper_merge_impl (ss_old_rounds l) (ss_old_rounds r) False old_round_merge = Some ds"
    "vector_wrapper_iter ds = merged_old_rounds l r"
    using old_rounds_merge_eq [OF l(5) r(5)] iter_merged_old_rounds [of l r] by blast
  obtain q ds' where q: "merge_current_rounds desc (ss_current_round l) (ss_current_round r) ds = Some (q, ds')"
    "wf_round desc B q" "wf_old_rounds desc B (vector_wrapper_iter ds')"
    "length (vector_wrapper_iter ds') = unat (rs_sequence_number q)"
    "rs_sequence_number q = max (rs_sequence_number (ss_current_round l)) (rs_sequence_number (ss_current_round r))"
    using merge_current_rounds_total [OF assms(1-5) ds(2)] by metis
  have len: "vector_wrapper_len ds' = unat (rs_sequence_number q)" using q(4) by (cases ds') auto
  have left: "unat (rs_sequence_number q) + 1 < 2 ^ 32" using assms(6,7) q(5) by (simp add: max_def)
  obtain q' ds'' where d: "(if cutoff_of desc \<le> weight_of desc (round_signed q) then switch_round desc q ds' else Some (q, ds')) = Some (q', ds'')"
    "cutoff_of desc \<le> weight_of desc (round_signed q) \<Longrightarrow> \<exists>d. vector_wrapper_iter ds'' = vector_wrapper_iter ds' @ [d] \<and>
       rs_precommitted_block q = Some (or_block d) \<and> q' = create_current_round desc (rs_sequence_number q + 1)"
    "\<not> cutoff_of desc \<le> weight_of desc (round_signed q) \<Longrightarrow> q' = q \<and> ds'' = ds'"
    using wf_session_decide [OF assms(1) ids(1,2) q(2,3) len left] by metis
  let ?m = "\<lparr> ss_attempt_ids = list_join max (ss_attempt_ids l) (ss_attempt_ids r), ss_current_round = q', ss_old_rounds = ds'' \<rparr>"
  have "session_merge desc l r = Some ?m"
    using assms(1) l(1) r(1) d(1) len ds(1) q(1) check_block_is_signed_total [OF assms(1) wf_roundD(1) [OF q(2)]]
    by (auto simp: session_merge_def attempt_id_join.vector_merge_total split: if_splits)
  then have m: "m = ?m" using assms(8) by simp
  have "settles desc q m"
    using d(2,3) q(4) unfolding settles_def m
    by (cases "cutoff_of desc \<le> weight_of desc (round_signed q)") (auto simp: session_old_rounds_def nth_append)
  moreover have "q = ss_current_round l \<or> q = ss_current_round r \<or>
       rs_sequence_number (ss_current_round l) = rs_sequence_number (ss_current_round r)"
    "rs_sequence_number (ss_current_round l) = rs_sequence_number (ss_current_round r) \<longrightarrow>
       round_merge desc (ss_current_round l) (ss_current_round r) = Some q"
    using q(1) by (auto simp: merge_current_rounds_def Let_def bind_eq_Some_conv split: if_splits)
  ultimately show thesis using q(2,5) by (intro that [of q])
qed

lemma attempt_message_signatures:
  assumes "wf_round desc B r" and "unat i < nodes_count desc" and "round_apply_action desc r i s m = Some r'" and "is_attempt_message m"
  shows "rs_signatures r' = rs_signatures r"
proof -
  obtain r1 made where r1: "update_first_attempt r i s = Some (r1, made)" "\<exists>fa. r1 = r\<lparr>rs_first_attempt := fa\<rparr>"
    by (rule update_first_attempt_total [OF assms(1,2), where s = s and n = 0 and src = 0])
  have "apply_action_on_attempt desc r1 i s m r1 = Some r'"
    using assms(3,4) r1(1) by (auto simp: round_apply_action_def round_apply_action_dispatch_def)
  then have "rs_signatures r' = rs_signatures r1"
    unfolding apply_action_on_attempt_def Let_def by (auto simp: bind_eq_Some_conv split: if_splits)
  with r1(2) show ?thesis by auto
qed

lemma session_apply_cases:
  assumes "wf_desc desc" and "no_collisions desc B" and "wf_session desc B st" and "unat i < nodes_count desc"
    and "message_ok B i m" and "round_number_left st" and "session_apply_action desc st i a m = Some st'"
  defines "s \<equiv> clamp_attempt_id (ss_attempt_ids st ! unat i) a"
  shows "ss_attempt_ids st' = (ss_attempt_ids st)[unat i := s] \<and>
    (ss_current_round st' = ss_current_round st \<or>
     (\<exists>q. round_apply_action desc (ss_current_round st) i s m = Some q \<and> settles desc q st'))"
proof -
  note wf = wf_sessionD [OF assms(3)] and ids = wf_attempt_ids_update [OF assms(3,4)]
  have run: "session_apply_action desc st i a m = Some st'" by (rule assms(7))
  have "ss_attempt_ids st' = (ss_attempt_ids st)[unat i := s]"
    using run unfolding s_def session_apply_action_def Let_def ids(1)
    by (auto simp: ids(2) bind_eq_Some_conv split: if_splits)
  moreover have "ss_current_round st' = ss_current_round st" if "get_round_id m \<noteq> rs_sequence_number (ss_current_round st)"
    using run that unfolding session_apply_action_def Let_def ids(1)
    by (auto simp: ids(2) bind_eq_Some_conv split: if_splits)
  moreover have "\<exists>q. round_apply_action desc (ss_current_round st) i s m = Some q \<and> settles desc q st'"
    if current: "get_round_id m = rs_sequence_number (ss_current_round st)"
  proof -
    obtain q st2 where q: "round_apply_action desc (ss_current_round st) i s m = Some q"
      "session_apply_action desc st i a m = Some st2"
      "if cutoff_of desc \<le> weight_of desc (round_signed q)
       then (\<exists>d s. session_old_rounds st2 = session_old_rounds st @ [d] \<and> rs_precommitted_block q = Some (or_block d) \<and>
             or_signatures d = rs_signatures q \<and> round_precommitted desc q s \<and> round_voted desc q s (sent_block_get_id (or_block d)) \<and>
             ss_current_round st2 = create_current_round desc (rs_sequence_number q + 1))
       else ss_current_round st2 = q \<and> session_old_rounds st2 = session_old_rounds st"
      using session_decision_rule [OF assms(1-6) current, of a] unfolding s_def [symmetric] by (elim exE conjE) (rule that)
    have st2: "st2 = st'" using q(2) run by simp
    have "rs_sequence_number q = rs_sequence_number (ss_current_round st)"
      using round_apply_action_total [OF assms(1,2) wf(2) assms(4) _ assms(5), of s] q(1) clamp_attempt_id_props(4)
      by (auto simp: s_def round_evolves_def)
    then have "settles desc q st'" using q(3) wf(4) unfolding st2 by (auto simp: settles_def nth_append split: if_splits)
    with q(1) show ?thesis by blast
  qed
  ultimately show ?thesis by blast
qed

lemma make_one_evolves:
  assumes "wf_desc desc" and "wf_round desc B r" and "unat i < nodes_count desc" and "s \<noteq> 0"
    and "round_make_one desc r i s = Some (q, made)"
  shows "round_evolves (nodes_count desc) (unat i) r q"
  by (rule round_make_one_total [OF assms(1-4)]) (use assms(5) in auto)

lemma session_make_one_cases:
  assumes "wf_desc desc" and "wf_session desc B st" and "unat i < nodes_count desc" and "session_make_one desc st i a = Some (st', made)"
  obtains "st' = st" | q made' where "round_make_one desc (ss_current_round st) i (clamp_attempt_id (ss_attempt_ids st ! unat i) a) = Some (q, made')"
    "ss_current_round st' = q" "session_old_rounds st' = session_old_rounds st"
    "ss_attempt_ids st' ! unat i = clamp_attempt_id (ss_attempt_ids st ! unat i) a"
proof -
  let ?s = "clamp_attempt_id (ss_attempt_ids st ! unat i) a"
  obtain q made' where q: "round_make_one desc (ss_current_round st) i ?s = Some (q, made')"
    by (rule round_make_one_total [OF assms(1) wf_sessionD(2) [OF assms(2)] assms(3) clamp_attempt_id_props(4)])
  have "ss_attempt_ids st ! unat i = ?s" if "\<not> ss_attempt_ids st ! unat i < ?s"
    using that clamp_attempt_id_props(1) [of "ss_attempt_ids st ! unat i" a] by auto
  then have "st' = st \<or> ss_current_round st' = q \<and> session_old_rounds st' = session_old_rounds st \<and> ss_attempt_ids st' ! unat i = ?s"
    using assms(3,4) q wf_attempt_ids_update(1,2) [OF assms(2,3)] wf_sessionD(1) [OF assms(2)] unfolding session_make_one_def Let_def
    by (auto simp: bind_eq_Some_conv session_old_rounds_def split: if_splits)
  then show thesis using that q by blast
qed

subsection \<open>What a history has recorded\<close>

definition ledger_votes ::
  "session_description \<Rightarrow> (nat \<Rightarrow> bool) \<Rightarrow> session_state set \<Rightarrow> u32 \<Rightarrow> nat \<Rightarrow> u32 \<Rightarrow> block_id \<Rightarrow> bool" where
  "ledger_votes desc H S k i s b \<longleftrightarrow> i < nodes_count desc \<and> H i \<and>
     (\<exists>st \<in> S. rs_sequence_number (ss_current_round st) = k \<and> round_vote (ss_current_round st) s b i)"

definition ledger_precommits ::
  "session_description \<Rightarrow> (nat \<Rightarrow> bool) \<Rightarrow> session_state set \<Rightarrow> u32 \<Rightarrow> nat \<Rightarrow> u32 \<Rightarrow> bool" where
  "ledger_precommits desc H S k i s \<longleftrightarrow> i < nodes_count desc \<and> H i \<and>
     (\<exists>st \<in> S. rs_sequence_number (ss_current_round st) = k \<and> round_precommit (ss_current_round st) s i)"

definition covered_round :: "session_description \<Rightarrow> (nat \<Rightarrow> bool) \<Rightarrow> session_state set \<Rightarrow> round_state \<Rightarrow> bool" where
  "covered_round desc H S q \<longleftrightarrow> (\<forall>i < nodes_count desc. H i \<longrightarrow>
     (\<forall>s b. round_vote q s b i \<longrightarrow> ledger_votes desc H S (rs_sequence_number q) i s b) \<and>
     (\<forall>s. round_precommit q s i \<longrightarrow> ledger_precommits desc H S (rs_sequence_number q) i s))"

definition may_decided :: "session_description \<Rightarrow> (nat \<Rightarrow> bool) \<Rightarrow> session_state set \<Rightarrow> u32 \<Rightarrow> block_id \<Rightarrow> bool" where
  "may_decided desc H S k b \<longleftrightarrow>
     (\<exists>s. may_precommitted desc H (ledger_precommits desc H S k) s \<and> may_voted desc H (ledger_votes desc H S k) s b)"

text \<open>A session state that adds nothing of the correct validators to the history.\<close>

definition covered :: "session_description \<Rightarrow> submission set \<Rightarrow> (nat \<Rightarrow> bool) \<Rightarrow> session_state set \<Rightarrow> session_state \<Rightarrow> bool" where
  "covered desc B H S st \<longleftrightarrow> wf_session desc B st \<and> lock_ok desc H (ss_current_round st) \<and>
     covered_round desc H S (ss_current_round st) \<and>
     (\<forall>k < length (session_old_rounds st). may_decided desc H S (word_of_nat k) (sent_block_get_id (or_block (session_old_rounds st ! k))))"

lemma covered_create_current_round: "covered_round desc H S (create_current_round desc k)"
  by (simp add: covered_round_def create_current_round_silent)

lemma covered_voted:
  assumes "covered_round desc H S q"
  shows "round_voted desc q s b \<Longrightarrow> may_voted desc H (ledger_votes desc H S (rs_sequence_number q)) s b"
    and "round_precommitted desc q s \<Longrightarrow> may_precommitted desc H (ledger_precommits desc H S (rs_sequence_number q)) s"
proof -
  let ?k = "rs_sequence_number q"
  have "weight_of desc (round_vote q s b) \<le> weight_of desc (\<lambda>i. \<not> H i \<or> ledger_votes desc H S ?k i s b)"
    "weight_of desc (round_precommit q s) \<le> weight_of desc (\<lambda>i. \<not> H i \<or> ledger_precommits desc H S ?k i s)"
    using assms by (auto simp: covered_round_def intro!: weight_of_mono)
  then show "round_voted desc q s b \<Longrightarrow> may_voted desc H (ledger_votes desc H S ?k) s b"
    and "round_precommitted desc q s \<Longrightarrow> may_precommitted desc H (ledger_precommits desc H S ?k) s"
    by (auto simp: round_voted_def may_voted_def round_precommitted_def may_precommitted_def)
qed

lemma covered_decided:
  assumes "covered_round desc H S q" and "wf_round desc B q" and "rs_precommitted_block q = Some block"
  shows "may_decided desc H S (rs_sequence_number q) (sent_block_get_id block)"
  using wf_round_decisionsD(3) [OF wf_roundD(4) [OF assms(2)] assms(3)] covered_voted [OF assms(1)]
  unfolding may_decided_def by blast

subsection \<open>The invariant of a history\<close>

text \<open>The latest state of a correct validator has everything it did in its current round, and it did nothing in later ones.\<close>

definition own_record :: "session_description \<Rightarrow> (nat \<Rightarrow> bool) \<Rightarrow> session_state set \<Rightarrow> session_state \<Rightarrow> nat \<Rightarrow> bool" where
  "own_record desc H S st i \<longleftrightarrow>
     (\<forall>k s b. ledger_votes desc H S k i s b \<longrightarrow> k \<le> rs_sequence_number (ss_current_round st) \<and>
        (k = rs_sequence_number (ss_current_round st) \<longrightarrow> round_vote (ss_current_round st) s b i)) \<and>
     (\<forall>k s. ledger_precommits desc H S k i s \<longrightarrow> k \<le> rs_sequence_number (ss_current_round st) \<and>
        (k = rs_sequence_number (ss_current_round st) \<longrightarrow> round_precommit (ss_current_round st) s i))"

definition history_ok ::
  "session_description \<Rightarrow> submission set \<Rightarrow> (nat \<Rightarrow> bool) \<Rightarrow> session_state set \<Rightarrow> (nat \<Rightarrow> session_state) \<Rightarrow> bool" where
  "history_ok desc B H S L \<longleftrightarrow> (\<forall>st \<in> S. covered desc B H S st) \<and> (\<forall>i. L i \<in> S) \<and>
     (\<forall>k. ledger_ok desc H (ledger_votes desc H S k) (ledger_precommits desc H S k) (\<lambda>i. ss_attempt_ids (L i) ! i)) \<and>
     (\<forall>i < nodes_count desc. H i \<longrightarrow> own_record desc H S (L i) i)"

lemma history_okD:
  assumes "history_ok desc B H S L"
  shows "st \<in> S \<Longrightarrow> covered desc B H S st" "L i \<in> S"
    "ledger_ok desc H (ledger_votes desc H S k) (ledger_precommits desc H S k) (\<lambda>i. ss_attempt_ids (L i) ! i)"
    "i < nodes_count desc \<Longrightarrow> H i \<Longrightarrow> own_record desc H S (L i) i"
  using assms by (auto simp: history_ok_def)

lemma may_decided_unique:
  assumes "wf_desc desc" and "mostly_correct desc H" and "history_ok desc B H S L"
    and "may_decided desc H S k b" and "may_decided desc H S k c"
  shows "c = b"
  using assms(4,5) ledger_agree [OF assms(1,2) history_okD(3) [OF assms(3)]] unfolding may_decided_def by blast

lemma coveredD:
  assumes "covered desc B H S st"
  shows "wf_session desc B st" "lock_ok desc H (ss_current_round st)" "covered_round desc H S (ss_current_round st)"
    "wf_round desc B (ss_current_round st)"
    "k < length (session_old_rounds st) \<Longrightarrow> may_decided desc H S (word_of_nat k) (sent_block_get_id (or_block (session_old_rounds st ! k)))"
    "k < length (session_old_rounds st) \<Longrightarrow> known_block desc B (or_block (session_old_rounds st ! k))"
  using assms wf_sessionD(2) [of desc B st] wf_old_rounds_nth [OF wf_sessionD(5) [of desc B st], of k]
  by (auto simp: covered_def wf_old_round_def)

text \<open>Covered sessions agree.\<close>

lemma covered_agree:
  assumes "wf_desc desc" and "no_collisions desc B" and "mostly_correct desc H" and "history_ok desc B H S L"
    and "covered desc B H S l" and "covered desc B H S r"
  shows "session_agree l r"
proof -
  note unique = may_decided_unique [OF assms(1,3,4)]
  have block: "x = y" if "may_decided desc H S k (sent_block_get_id x)" "may_decided desc H S k (sent_block_get_id y)"
    "known_block desc B x" "known_block desc B y" for k x y
    using known_block_inject [OF assms(2) that(3,4)] unique [OF that(1,2)] by simp
  have cur: "may_decided desc H S (rs_sequence_number (ss_current_round st)) (sent_block_get_id x)" "known_block desc B x"
    if "covered desc B H S st" "rs_precommitted_block (ss_current_round st) = Some x" for st x
    using covered_decided [OF coveredD(3,4) [OF that(1)] that(2)]
      wf_roundD(4) [OF coveredD(4) [OF that(1)]] that(2) by (auto simp: wf_round_decisions_def)
  have behind: "or_block (session_old_rounds r ! unat (rs_sequence_number (ss_current_round l))) = x"
    if "covered desc B H S l" "covered desc B H S r" "session_behind l r" "rs_precommitted_block (ss_current_round l) = Some x" for l r x
  proof -
    let ?k = "unat (rs_sequence_number (ss_current_round l))"
    have k: "?k < length (session_old_rounds r)"
      using that(3) wf_sessionD(4) [OF coveredD(1) [OF that(2)]] by (simp add: session_behind_def word_less_nat_alt)
    show ?thesis
      using block [of "rs_sequence_number (ss_current_round l)"] coveredD(5,6) [OF that(2) k] cur [OF that(1,4)] by simp
  qed
  have "session_compatible l r"
    using block coveredD(5,6) [OF assms(5)] coveredD(5,6) [OF assms(6)] cur(1) [OF assms(5)] cur(1) [OF assms(6)] unique
    unfolding session_compatible_def round_compatible_def by metis
  then show ?thesis using behind assms(5,6) by (auto simp: session_agree_def)
qed

subsection \<open>Steps that add nothing of the correct validators\<close>

lemma covered_settles:
  assumes "wf_round desc B q" and "lock_ok desc H q" and "covered_round desc H S q" and "wf_session desc B st" and "settles desc q st"
    and "\<And>k. k < unat (rs_sequence_number q) \<Longrightarrow> may_decided desc H S (word_of_nat k) (sent_block_get_id (or_block (session_old_rounds st ! k)))"
  shows "covered desc B H S st"
  using assms(5) unfolding settles_def
proof (elim disjE conjE)
  assume "ss_current_round st = q" "length (session_old_rounds st) = unat (rs_sequence_number q)"
  then show ?thesis using assms by (simp add: covered_def)
next
  assume *: "ss_current_round st = create_current_round desc (rs_sequence_number q + 1)"
    "length (session_old_rounds st) = unat (rs_sequence_number q) + 1"
    "rs_precommitted_block q = Some (or_block (session_old_rounds st ! unat (rs_sequence_number q)))"
  have "may_decided desc H S (rs_sequence_number q) (sent_block_get_id (or_block (session_old_rounds st ! unat (rs_sequence_number q))))"
    by (rule covered_decided [OF assms(3,1) *(3)])
  then show ?thesis
    using assms(4,6) * by (auto simp: covered_def covered_create_current_round lock_create_current_round less_Suc_eq)
qed

lemma extends_decided:
  assumes "session_extends n st st'" and "covered desc B H S st" and "k < length (session_old_rounds st)"
  shows "may_decided desc H S (word_of_nat k) (sent_block_get_id (or_block (session_old_rounds st' ! k)))"
  using assms(1,3) coveredD(5) [OF assms(2,3)] by (simp add: session_extends_def old_round_extends_def)

text \<open>A round that has whatever another one has of the relations.\<close>

definition round_includes :: "nat \<Rightarrow> round_state \<Rightarrow> round_state \<Rightarrow> bool" where
  "round_includes n r r' \<longleftrightarrow>
     (\<forall>i < n. (\<forall>s b. round_vote r s b i \<longrightarrow> round_vote r' s b i) \<and> (\<forall>s. round_precommit r s i \<longrightarrow> round_precommit r' s i))"

lemma covered_merge:
  assumes "wf_desc desc" and "no_collisions desc B" and "covered desc B H S l" and "covered desc B H S r" and "session_agree l r"
    and "round_number_left l" and "round_number_left r" and "session_merge desc l r = Some m"
  shows "covered desc B H S m" and "session_extends (nodes_count desc) l m"
    and "rs_sequence_number (ss_current_round l) \<le> rs_sequence_number (ss_current_round m)"
    and "rs_sequence_number (ss_current_round l) = rs_sequence_number (ss_current_round m) \<Longrightarrow>
      round_includes (nodes_count desc) (ss_current_round l) (ss_current_round m)"
proof -
  let ?l = "ss_current_round l" and ?r = "ss_current_round r"
  note l = coveredD [OF assms(3)] and r = coveredD [OF assms(4)]
  have compat: "session_compatible l r" using assms(5) by (simp add: session_agree_def)
  have m: "wf_session desc B m" "session_extends (nodes_count desc) l m" "session_extends (nodes_count desc) r m"
    using session_merge_total [OF assms(1,2) l(1) r(1) compat assms(6,7)] assms(8) by auto
  show "session_extends (nodes_count desc) l m" by (rule m(2))
  obtain q where q: "wf_round desc B q" "settles desc q m" "rs_sequence_number q = max (rs_sequence_number ?l) (rs_sequence_number ?r)"
    "q = ?l \<or> q = ?r \<or> rs_sequence_number ?l = rs_sequence_number ?r"
    "rs_sequence_number ?l = rs_sequence_number ?r \<longrightarrow> round_merge desc ?l ?r = Some q"
    by (rule session_merge_cases [OF assms(1,2) l(1) r(1) compat assms(6-8)])
  have same: "round_merged (nodes_count desc) ?l ?r q \<and> lock_ok desc H q" if "rs_sequence_number ?l = rs_sequence_number ?r"
    using that q(5) compat round_merge_total [OF assms(1,2) l(4) r(4)] lock_merge [OF assms(1,2) l(4) r(4) _ _ l(2) r(2)]
    by (auto simp: session_compatible_def)
  have "covered_round desc H S q \<and> lock_ok desc H q"
    using q(3,4) same l(2,3) r(2,3) by (auto simp: covered_round_def round_merged_def)
  moreover have "may_decided desc H S (word_of_nat k) (sent_block_get_id (or_block (session_old_rounds m ! k)))"
    if "k < unat (rs_sequence_number q)" for k
    using that extends_decided [OF m(2) assms(3)] extends_decided [OF m(3) assms(4)] wf_sessionD(4) [OF l(1)] wf_sessionD(4) [OF r(1)] q(3)
    by (auto simp: max_def split: if_splits)
  ultimately show "covered desc B H S m" using covered_settles [OF q(1) _ _ m(1) q(2)] by blast
  have next_seq: "rs_sequence_number ?l < rs_sequence_number q + 1"
    using assms(6,7) q(3) by (simp add: max_def word_less_nat_alt unat_add_u32 word_le_nat_alt split: if_splits)
  show "rs_sequence_number ?l \<le> rs_sequence_number (ss_current_round m)"
    using q(2,3) next_seq by (auto simp: settles_def create_current_round_silent)
  show "round_includes (nodes_count desc) ?l (ss_current_round m)" if eq: "rs_sequence_number ?l = rs_sequence_number (ss_current_round m)"
  proof -
    have mq: "ss_current_round m = q" using q(2) eq next_seq by (auto simp: settles_def create_current_round_silent)
    then have "q = ?l \<or> rs_sequence_number ?l = rs_sequence_number ?r" using q(4) eq by auto
    then show ?thesis using same mq by (auto simp: round_includes_def round_merged_def)
  qed
qed

lemma covered_evolves:
  assumes "round_evolves (nodes_count desc) j r r'" and "\<not> H j" and "covered_round desc H S r"
  shows "covered_round desc H S r'"
  unfolding covered_round_def
proof (intro allI impI)
  fix i assume i: "i < nodes_count desc" "H i"
  then have "i \<noteq> j" "rs_sequence_number r' = rs_sequence_number r" using assms(1,2) by (auto simp: round_evolves_def)
  then show "(\<forall>s b. round_vote r' s b i \<longrightarrow> ledger_votes desc H S (rs_sequence_number r') i s b) \<and>
      (\<forall>s. round_precommit r' s i \<longrightarrow> ledger_precommits desc H S (rs_sequence_number r') i s)"
    using assms(1,3) i unfolding round_evolves_def covered_round_def by metis
qed

lemma settles_same: "wf_session desc B st \<Longrightarrow> settles desc (ss_current_round st) st"
  using wf_sessionD(4) [of desc B st] by (simp add: settles_def)

lemma covered_other_message:
  assumes "wf_desc desc" and "no_collisions desc B" and "covered desc B H S st" and "unat i < nodes_count desc" and "\<not> H (unat i)"
    and "message_ok B i m" and "round_number_left st" and "session_apply_action desc st i a m = Some st'"
  shows "covered desc B H S st'"
proof -
  note st = coveredD [OF assms(3)]
  let ?s = "clamp_attempt_id (ss_attempt_ids st ! unat i) a"
  have st': "wf_session desc B st'" "session_extends (nodes_count desc) st st'"
    using session_apply_action_total [OF assms(1,2) st(1) assms(4,6,7), of a] assms(8) by auto
  have old: "may_decided desc H S (word_of_nat k) (sent_block_get_id (or_block (session_old_rounds st' ! k)))"
    if "k < unat (rs_sequence_number (ss_current_round st))" for k
    using that extends_decided [OF st'(2) assms(3)] wf_sessionD(4) [OF st(1)] by simp
  consider "ss_current_round st' = ss_current_round st"
    | q where "round_apply_action desc (ss_current_round st) i ?s m = Some q" "settles desc q st'"
    using session_apply_cases [OF assms(1,2) st(1) assms(4,6-8)] by blast
  then show ?thesis
  proof cases
    case 1
    with covered_settles [OF st(4,2,3) st'(1)] old settles_same [OF st'(1)] show ?thesis by simp
  next
    case (2 q)
    then have q: "wf_round desc B q" "round_evolves (nodes_count desc) (unat i) (ss_current_round st) q"
      using round_apply_action_total [OF assms(1,2) st(4) assms(4) clamp_attempt_id_props(4) assms(6),
          of "ss_attempt_ids st ! unat i" a] by auto
    have "lock_ok desc H q" by (rule lock_message [OF assms(1) st(4) assms(4) clamp_attempt_id_props(4) 2(1) st(2)])
    then show ?thesis
      using covered_settles [OF q(1) _ covered_evolves [where H = H, OF q(2) assms(5) st(3)] st'(1) 2(2)] old q(2)
      by (simp add: round_evolves_def)
  qed
qed

lemma covered_make_one:
  assumes "wf_desc desc" and "covered desc B H S st" and "unat i < nodes_count desc" and "\<not> H (unat i)"
    and "session_make_one desc st i a = Some (st', made)"
  shows "covered desc B H S st'"
proof -
  note st = coveredD [OF assms(2)]
  have st': "wf_session desc B st'" by (rule session_make_one_total [OF assms(1) st(1) assms(3), of a]) (use assms(5) in auto)
  show ?thesis
  proof (rule session_make_one_cases [OF assms(1) st(1) assms(3,5)])
    assume "st' = st"
    with assms(2) show ?thesis by simp
  next
    fix q made'
    let ?s = "clamp_attempt_id (ss_attempt_ids st ! unat i) a"
    assume *: "round_make_one desc (ss_current_round st) i ?s = Some (q, made')" "ss_current_round st' = q"
      "session_old_rounds st' = session_old_rounds st"
    have q: "round_evolves (nodes_count desc) (unat i) (ss_current_round st) q"
      by (rule make_one_evolves [OF assms(1) st(4) assms(3) clamp_attempt_id_props(4) *(1)])
    have "lock_ok desc H q"
      by (rule lock_make_one [OF assms(1) st(4) assms(3) clamp_attempt_id_props(4) *(1) st(2)]) (use assms(4) in simp)
    then show ?thesis using covered_evolves [where H = H, OF q assms(4) st(3)] st' st(5) * by (simp add: covered_def)
  qed
qed

lemma covered_make_all:
  assumes "wf_desc desc" and "unat i < nodes_count desc" and "\<not> H (unat i)" and "covered desc B H S st" and "make_all desc st i a = Some st'"
  shows "covered desc B H S st'"
  using assms(4,5)
proof (induction "session_pending st i a" arbitrary: st rule: less_induct)
  case less
  obtain st1 made where st1: "session_make_one desc st i a = Some (st1, made)"
    "made \<longrightarrow> session_pending st1 i a < session_pending st i a"
    by (rule session_make_one_total [OF assms(1) coveredD(1) [OF less.prems(1)] assms(2)]) auto
  have cov: "covered desc B H S st1" by (rule covered_make_one [OF assms(1) less.prems(1) assms(2,3) st1(1)])
  from less.prems(2) st1(1) have "(if \<not> made then Some st1 else make_all desc st1 i a) = Some st'"
    by (subst (asm) make_all.simps) simp
  then show ?case using less.hyps [OF _ cov] st1(2) cov by (cases made) auto
qed

subsection \<open>The invariant is kept\<close>

lemma ledger_insert:
  assumes "covered_round desc H S (ss_current_round m)"
  shows "ledger_votes desc H (insert m S) = ledger_votes desc H S" and "ledger_precommits desc H (insert m S) = ledger_precommits desc H S"
  using assms by (auto simp: fun_eq_iff covered_round_def ledger_votes_def ledger_precommits_def)

lemma ledger_later:
  assumes "ledger_ok desc H V P A" and "\<And>i. i < nodes_count desc \<Longrightarrow> A i \<le> A' i"
  shows "ledger_ok desc H V P A'"
proof -
  note ok = ledger_okD [OF assms(1)]
  have "may_lock desc H P A s Q" if "may_lock desc H P A' s Q" for s Q
    using that assms(2) unfolding may_lock_def by (meson order.trans)
  moreover have "s \<le> A' i" if "i < nodes_count desc" "H i" "V i s b" for i s b
    using ok(1) [OF that] assms(2) [OF that(1)] by simp
  ultimately show ?thesis using ok(2-4) unfolding ledger_ok_def by meson
qed

lemma history_insert:
  assumes "history_ok desc B H S L" and "covered desc B H S m"
  shows "history_ok desc B H (insert m S) L"
  using assms ledger_insert [OF coveredD(3) [OF assms(2)]]
  by (simp add: history_ok_def own_record_def covered_def covered_round_def may_decided_def)

lemma history_latest:
  assumes "history_ok desc B H S L" and "m \<in> S" and "session_extends (nodes_count desc) (L i) m"
    and "H i \<Longrightarrow> i < nodes_count desc \<Longrightarrow> own_record desc H S m i"
  shows "history_ok desc B H S (L(i := m))"
proof -
  have "ledger_ok desc H (ledger_votes desc H S k) (ledger_precommits desc H S k) (\<lambda>j. ss_attempt_ids ((L(i := m)) j) ! j)" for k
    using assms(3) by (intro ledger_later [OF history_okD(3) [OF assms(1)]]) (auto simp: session_extends_def)
  then show ?thesis using assms by (auto simp: history_ok_def)
qed

lemma own_record_includes:
  assumes "own_record desc H S st i" and "i < nodes_count desc"
    and "rs_sequence_number (ss_current_round st) \<le> rs_sequence_number (ss_current_round m)"
    and "rs_sequence_number (ss_current_round st) = rs_sequence_number (ss_current_round m) \<Longrightarrow>
      round_includes (nodes_count desc) (ss_current_round st) (ss_current_round m)"
  shows "own_record desc H S m i"
  using assms unfolding own_record_def round_includes_def by (meson order.trans order.antisym)

lemma history_receive:
  assumes "wf_desc desc" and "no_collisions desc B" and "mostly_correct desc H" and "history_ok desc B H S L" and "st \<in> S"
    and "i < nodes_count desc" and "round_number_left (L i)" and "round_number_left st" and "session_merge desc (L i) st = Some m"
  shows "history_ok desc B H (insert m S) (L(i := m))"
proof -
  note ok = history_okD [OF assms(4)]
  note merged = covered_merge [OF assms(1,2) ok(1) [OF ok(2)] ok(1) [OF assms(5)]
      covered_agree [OF assms(1-4) ok(1) [OF ok(2)] ok(1) [OF assms(5)]] assms(7-9)]
  have ins: "history_ok desc B H (insert m S) L" by (rule history_insert [OF assms(4) merged(1)])
  show ?thesis
    using own_record_includes [OF history_okD(4) [OF ins assms(6)] assms(6) merged(3,4)]
    by (intro history_latest [OF ins _ merged(2)]) auto
qed

subsection \<open>A step of a correct validator\<close>

lemma ledger_mono:
  assumes "S \<subseteq> S'"
  shows "ledger_votes desc H S k i s b \<Longrightarrow> ledger_votes desc H S' k i s b"
    and "ledger_precommits desc H S k i s \<Longrightarrow> ledger_precommits desc H S' k i s"
  using assms by (auto simp: ledger_votes_def ledger_precommits_def)

lemma covered_mono:
  assumes "covered desc B H S st" and "S \<subseteq> S'"
  shows "covered desc B H S' st"
proof -
  note mono = ledger_mono [OF assms(2), of desc H]
  have decided: "may_decided desc H S' k b" if "may_decided desc H S k b" for k b
  proof -
    obtain s where s: "may_precommitted desc H (ledger_precommits desc H S k) s" "may_voted desc H (ledger_votes desc H S k) s b"
      using \<open>may_decided desc H S k b\<close> by (auto simp: may_decided_def)
    have "weight_of desc (\<lambda>i. \<not> H i \<or> ledger_precommits desc H S k i s) \<le> weight_of desc (\<lambda>i. \<not> H i \<or> ledger_precommits desc H S' k i s)"
      using mono(2) by (intro weight_of_mono) blast
    then have "may_precommitted desc H (ledger_precommits desc H S' k) s" using s(1) by (simp add: may_precommitted_def)
    moreover have "may_voted desc H (ledger_votes desc H S' k) s b" by (rule may_voted_mono [OF s(2)]) (rule mono(1))
    ultimately show ?thesis unfolding may_decided_def by blast
  qed
  show ?thesis using assms(1) mono decided unfolding covered_def covered_round_def by blast
qed

lemma precommit_attempt_nonzero: "wf_round desc B r \<Longrightarrow> round_precommit r s i \<Longrightarrow> s \<noteq> 0"
  using wf_round_attemptD(3) [OF wf_roundD(3)] by (auto simp: round_precommit_def)

text \<open>The own votes of a correct validator respect its lock.\<close>

lemma vote_respects_lock:
  assumes "wf_desc desc" and "wf_round desc B r" and "lock_ok desc H r" and "covered_round desc H S r" and "unat i < nodes_count desc"
    and "H (unat i)" and "lawful_step desc i t r q"
    and "round_precommit r s (unat i)" and "round_vote q t c (unat i)" and "\<not> round_vote r t c (unat i)"
    and "\<And>u d. s \<le> u \<Longrightarrow> may_voted desc H (ledger_votes desc H S (rs_sequence_number r)) u d \<Longrightarrow> d = b"
  shows "c = b"
proof -
  have voted: "d = b" if "s \<le> u" "round_voted desc r u d" for u d
    using covered_voted(1) [OF assms(4) that(2)] assms(11) [OF that(1)] by blast
  obtain d where "round_voted desc r s d" by (rule precommit_voted [OF assms(2,5,8)])
  then have "round_voted desc r s b" using voted by blast
  moreover have "clean_since desc r s b" using voted by (simp add: clean_since_def)
  ultimately have lock: "s \<le> last_precommit_of r i" by (rule lock_okD [OF assms(3,5,6,8)])
  then have "last_precommit_of r i \<noteq> 0" using precommit_attempt_nonzero [OF assms(2,8)] by auto
  then have "round_voted desc r (last_precommit_of r i) c" by (rule lawful_stepD(2) [OF assms(7,9,10)])
  then show ?thesis using voted lock by blast
qed

lemma ledger_of_step:
  assumes "covered_round desc H S r" and "round_evolves (nodes_count desc) j r q" and "ss_current_round st = q"
  shows "k \<noteq> rs_sequence_number r \<Longrightarrow> ledger_votes desc H (insert st S) k = ledger_votes desc H S k"
    and "k \<noteq> rs_sequence_number r \<Longrightarrow> ledger_precommits desc H (insert st S) k = ledger_precommits desc H S k"
    and "ledger_votes desc H (insert st S) (rs_sequence_number r) i s b \<Longrightarrow> \<not> ledger_votes desc H S (rs_sequence_number r) i s b \<Longrightarrow>
      i = j \<and> i < nodes_count desc \<and> H i \<and> round_vote q s b i \<and> \<not> round_vote r s b i"
    and "ledger_precommits desc H (insert st S) (rs_sequence_number r) i s \<Longrightarrow> \<not> ledger_precommits desc H S (rs_sequence_number r) i s \<Longrightarrow>
      i = j \<and> i < nodes_count desc \<and> H i \<and> round_precommit q s i \<and> \<not> round_precommit r s i"
proof -
  have seq: "rs_sequence_number q = rs_sequence_number r" using assms(2) by (simp add: round_evolves_def)
  show "ledger_votes desc H (insert st S) k = ledger_votes desc H S k"
    "ledger_precommits desc H (insert st S) k = ledger_precommits desc H S k" if "k \<noteq> rs_sequence_number r"
    using that seq assms(3) by (auto simp: fun_eq_iff ledger_votes_def ledger_precommits_def)
  show "i = j \<and> i < nodes_count desc \<and> H i \<and> round_vote q s b i \<and> \<not> round_vote r s b i"
    if "ledger_votes desc H (insert st S) (rs_sequence_number r) i s b" "\<not> ledger_votes desc H S (rs_sequence_number r) i s b"
  proof -
    have i: "i < nodes_count desc" "H i" "round_vote q s b i" using that assms(3) by (auto simp: ledger_votes_def)
    then have "\<not> round_vote r s b i" using that(2) assms(1) by (auto simp: covered_round_def)
    then show ?thesis using i assms(2) unfolding round_evolves_def by blast
  qed
  show "i = j \<and> i < nodes_count desc \<and> H i \<and> round_precommit q s i \<and> \<not> round_precommit r s i"
    if "ledger_precommits desc H (insert st S) (rs_sequence_number r) i s" "\<not> ledger_precommits desc H S (rs_sequence_number r) i s"
  proof -
    have i: "i < nodes_count desc" "H i" "round_precommit q s i" using that assms(3) by (auto simp: ledger_precommits_def)
    then have "\<not> round_precommit r s i" using that(2) assms(1) by (auto simp: covered_round_def)
    then show ?thesis using i assms(2) unfolding round_evolves_def by blast
  qed
qed

text \<open>A validator that has a vote in an attempt does not get another one there.\<close>

lemma evolves_own:
  assumes "round_evolves n i r q" and "i < n"
  shows "round_vote r s b i \<Longrightarrow> round_vote q s b i" and "round_precommit r s i \<Longrightarrow> round_precommit q s i"
    and "round_vote q s b i \<Longrightarrow> round_vote q s c i \<Longrightarrow> \<not> round_vote r s b i \<Longrightarrow> c = b"
proof -
  show "round_vote r s b i \<Longrightarrow> round_vote q s b i" and "round_precommit r s i \<Longrightarrow> round_precommit q s i"
    using assms by (simp_all add: round_evolves_def)
  have "\<exists>s0 b0. \<forall>s b. \<forall>j < n. round_vote q s b j \<longrightarrow> round_vote r s b j \<or> (j = i \<and> s = s0 \<and> b = b0 \<and> (\<forall>b'. \<not> round_vote r s b' i))"
    using assms(1) unfolding round_evolves_def by (elim conjE)
  then obtain s0 b0 where "\<forall>s b. \<forall>j < n. round_vote q s b j \<longrightarrow> round_vote r s b j \<or> (j = i \<and> s = s0 \<and> b = b0 \<and> (\<forall>b'. \<not> round_vote r s b' i))"
    by (elim exE)
  then have new: "round_vote r s b i \<or> s = s0 \<and> b = b0 \<and> (\<forall>b'. \<not> round_vote r s b' i)" if "round_vote q s b i" for s b
    using assms(2) that by blast
  show "round_vote q s b i \<Longrightarrow> round_vote q s c i \<Longrightarrow> \<not> round_vote r s b i \<Longrightarrow> c = b"
    using new [of s b] new [of s c] by blast
qed

lemma own_recordD:
  assumes "own_record desc H S st i"
  shows "ledger_votes desc H S (rs_sequence_number (ss_current_round st)) i s b \<Longrightarrow> round_vote (ss_current_round st) s b i"
    and "ledger_precommits desc H S (rs_sequence_number (ss_current_round st)) i s \<Longrightarrow> round_precommit (ss_current_round st) s i"
  using assms by (auto simp: own_record_def)

lemma covered_roundD:
  assumes "covered_round desc H S q" and "i < nodes_count desc" and "H i"
  shows "round_vote q s b i \<Longrightarrow> ledger_votes desc H S (rs_sequence_number q) i s b"
    and "round_precommit q s i \<Longrightarrow> ledger_precommits desc H S (rs_sequence_number q) i s"
  using assms by (auto simp: covered_round_def)

lemma ledger_act:
  assumes "wf_desc desc" and "no_collisions desc B" and "mostly_correct desc H" and "history_ok desc B H S L"
    and "unat i < nodes_count desc" and "H (unat i)" and "ss_attempt_ids (L (unat i)) ! unat i \<le> t"
    and "wf_round desc B q" and "round_evolves (nodes_count desc) (unat i) (ss_current_round (L (unat i))) q"
    and "lawful_step desc i t (ss_current_round (L (unat i))) q" and "ss_current_round st' = q"
  shows "ledger_ok desc H (ledger_votes desc H (insert st' S) k) (ledger_precommits desc H (insert st' S) k)
    ((\<lambda>j. ss_attempt_ids (L j) ! j)(unat i := t))"
proof -
  let ?i = "unat i" and ?r = "ss_current_round (L (unat i))" and ?A = "\<lambda>j. ss_attempt_ids (L j) ! j"
  let ?k = "rs_sequence_number ?r" and ?S = "insert st' S"
  note ok = history_okD [OF assms(4)]
  note r = coveredD(2-4) [OF ok(1) [OF ok(2)], of ?i] and own = own_recordD [OF ok(4) [OF assms(5,6)]]
  note q = assms(8,9)
  note new = ledger_of_step [OF r(2) q(2) assms(11)]
  have seq: "rs_sequence_number q = ?k" using q(2) by (simp add: round_evolves_def)
  have later: "ledger_ok desc H (ledger_votes desc H S k) (ledger_precommits desc H S k) (?A(?i := t))" for k
    using assms(7) by (intro ledger_later [OF ok(3)]) auto
  note grow = evolves_own [OF q(2) assms(5)]
  note known = covered_roundD [OF r(2) assms(5,6)] and adds = lawful_stepD [OF assms(10)]
  have mine: "round_vote q s b ?i" if "ledger_votes desc H ?S ?k ?i s b" for s b
    using new(3) [OF that] own(1) [THEN grow(1)] by blast
  have cov: "covered_round desc H ?S q"
    using assms(11) by (auto simp: covered_round_def ledger_votes_def ledger_precommits_def)
  have "ledger_ok desc H (ledger_votes desc H ?S ?k) (ledger_precommits desc H ?S ?k) (?A(?i := t))"
  proof (rule ledger_step [OF assms(1,3) ok(3) [of ?k] assms(7)], goal_cases)
    case (1 j u c)
    then show ?case by (rule ledger_mono(1) [OF subset_insertI])
  next
    case (2 j u c)
    then have j: "j = ?i" "round_vote q u c ?i" "\<not> round_vote ?r u c ?i" using new(3) [OF 2] by auto
    then show ?case using adds(1) [OF j(2,3)] by simp
  next
    case (3 c c')
    then have voted: "round_vote q t c ?i" "round_vote q t c' ?i" using mine by blast+
    have "c' = c" if "round_vote ?r t c ?i" "round_vote ?r t c' ?i"
      by (rule ledger_okD(2) [OF ok(3) [of ?k] assms(5,6) known(1) [OF that(1)] known(1) [OF that(2)]])
    then show ?case using voted grow(3) by blast
  next
    case (4 j u)
    then have j: "j = ?i" "round_precommit q u ?i" "\<not> round_precommit ?r u ?i" using new(4) [OF 4] by auto
    then show ?case using adds(3) [OF j(2,3)] by simp
  next
    case (5 u)
    then have "round_precommit q u ?i" using new(4) [OF 5] own(2) [THEN grow(2)] by blast
    then obtain b where "round_voted desc q u b" using precommit_voted [OF q(1) assms(5)] by blast
    then show ?case using covered_voted(1) [OF cov] seq by auto
  next
    case (6 s b c)
    have "round_precommit ?r s ?i" by (rule own(2) [OF 6(1)])
    moreover have "\<not> round_vote ?r t c ?i" using 6(5) known(1) by blast
    ultimately show ?case by (rule vote_respects_lock [OF assms(1) r(3,1,2) assms(5,6,10) _ mine [OF 6(4)] _ 6(3)])
  qed
  then show ?thesis using later new(1,2) by (cases "k = ?k") simp_all
qed

lemma own_record_step:
  assumes "own_record desc H S st i" and "rs_sequence_number (ss_current_round st') = rs_sequence_number (ss_current_round st)"
    and "\<And>s b. round_vote (ss_current_round st) s b i \<Longrightarrow> round_vote (ss_current_round st') s b i"
    and "\<And>s. round_precommit (ss_current_round st) s i \<Longrightarrow> round_precommit (ss_current_round st') s i"
    and "\<And>k s b. ledger_votes desc H S' k i s b \<Longrightarrow> \<not> ledger_votes desc H S k i s b \<Longrightarrow>
      k = rs_sequence_number (ss_current_round st) \<and> round_vote (ss_current_round st') s b i"
    and "\<And>k s. ledger_precommits desc H S' k i s \<Longrightarrow> \<not> ledger_precommits desc H S k i s \<Longrightarrow>
      k = rs_sequence_number (ss_current_round st) \<and> round_precommit (ss_current_round st') s i"
  shows "own_record desc H S' st' i"
  unfolding own_record_def
proof (intro conjI allI impI)
  note own = assms(1) [unfolded own_record_def]
  show "k \<le> rs_sequence_number (ss_current_round st')" if "ledger_votes desc H S' k i s b" for k s b
    using own assms(2) assms(5) [OF that] by (cases "ledger_votes desc H S k i s b") auto
  show "round_vote (ss_current_round st') s b i" if "ledger_votes desc H S' k i s b" "k = rs_sequence_number (ss_current_round st')" for k s b
    using own that(2) assms(2,3) assms(5) [OF that(1)] by (cases "ledger_votes desc H S k i s b") auto
  show "k \<le> rs_sequence_number (ss_current_round st')" if "ledger_precommits desc H S' k i s" for k s
    using own assms(2) assms(6) [OF that] by (cases "ledger_precommits desc H S k i s") auto
  show "round_precommit (ss_current_round st') s i" if "ledger_precommits desc H S' k i s" "k = rs_sequence_number (ss_current_round st')" for k s
    using own that(2) assms(2,4) assms(6) [OF that(1)] by (cases "ledger_precommits desc H S k i s") auto
qed

lemma history_act_open:
  assumes "wf_desc desc" and "no_collisions desc B" and "mostly_correct desc H" and "history_ok desc B H S L"
    and "unat i < nodes_count desc" and "H (unat i)" and "wf_session desc B st'"
    and "session_extends (nodes_count desc) (L (unat i)) st'" and "ss_attempt_ids st' ! unat i = t"
    and "round_evolves (nodes_count desc) (unat i) (ss_current_round (L (unat i))) (ss_current_round st')"
    and "lawful_step desc i t (ss_current_round (L (unat i))) (ss_current_round st')" and "lock_ok desc H (ss_current_round st')"
  shows "history_ok desc B H (insert st' S) (L(unat i := st'))"
proof -
  let ?i = "unat i" and ?r = "ss_current_round (L (unat i))" and ?S = "insert st' S"
  note ok = history_okD [OF assms(4)]
  note st = ok(1) [OF ok(2), of ?i] and r = coveredD(2-4) [OF ok(1) [OF ok(2)], of ?i]
  note q = assms(10)
  have seq: "rs_sequence_number (ss_current_round st') = rs_sequence_number ?r" using q by (simp add: round_evolves_def)
  note new = ledger_of_step [OF r(2) q refl] and mono = covered_mono [OF _ subset_insertI]
  have A: "(\<lambda>j. ss_attempt_ids ((L(?i := st')) j) ! j) = (\<lambda>j. ss_attempt_ids (L j) ! j)(?i := t)" using assms(9) by (simp add: fun_eq_iff)
  have "ss_attempt_ids (L ?i) ! ?i \<le> t" using assms(5,8,9) by (auto simp: session_extends_def)
  then have ledger: "ledger_ok desc H (ledger_votes desc H ?S k) (ledger_precommits desc H ?S k) (\<lambda>j. ss_attempt_ids ((L(?i := st')) j) ! j)" for k
    unfolding A by (rule ledger_act [OF assms(1-6) _ wf_sessionD(2) [OF assms(7)] assms(10,11) refl])
  have "covered desc B H ?S st'"
  proof (rule covered_settles [OF wf_sessionD(2) [OF assms(7)] assms(12) _ assms(7) settles_same [OF assms(7)]])
    show "covered_round desc H ?S (ss_current_round st')"
      by (auto simp: covered_round_def ledger_votes_def ledger_precommits_def)
    show "may_decided desc H ?S (word_of_nat k) (sent_block_get_id (or_block (session_old_rounds st' ! k)))"
      if "k < unat (rs_sequence_number (ss_current_round st'))" for k
      using that extends_decided [OF assms(8) mono [OF st]] wf_sessionD(4) [OF coveredD(1) [OF st]] seq by simp
  qed
  then have cov: "covered desc B H ?S x" if "x \<in> ?S" for x using that mono [OF ok(1)] by blast
  have grown: "k = rs_sequence_number ?r \<and> j = ?i \<and> round_vote (ss_current_round st') s b j"
    if "ledger_votes desc H ?S k j s b" "\<not> ledger_votes desc H S k j s b" for k j s b
    using that new(1,3) by (cases "k = rs_sequence_number ?r") auto
  have grown': "k = rs_sequence_number ?r \<and> j = ?i \<and> round_precommit (ss_current_round st') s j"
    if "ledger_precommits desc H ?S k j s" "\<not> ledger_precommits desc H S k j s" for k j s
    using that new(2,4) by (cases "k = rs_sequence_number ?r") auto
  have "own_record desc H ?S st' ?i"
    using grown grown' by (intro own_record_step [OF ok(4) [OF assms(5,6)] seq evolves_own(1,2) [OF q assms(5)]]) blast+
  moreover have "own_record desc H ?S (L j) j" if "j < nodes_count desc" "H j" "j \<noteq> ?i" for j
    using grown grown' that(3) by (intro own_record_step [OF ok(4) [OF that(1,2)] refl]) blast+
  ultimately show ?thesis using cov ledger ok(2) unfolding history_ok_def by auto
qed

text \<open>Only a message that is not about an attempt decides a round, so a decision adds no vote and no precommit.\<close>

lemma decision_is_silent:
  assumes "wf_desc desc" and "wf_session desc B st" and "unat i < nodes_count desc"
    and "round_apply_action desc (ss_current_round st) i t m = Some q" and "cutoff_of desc \<le> weight_of desc (round_signed q)"
  shows "rs_attempts q = rs_attempts (ss_current_round st) \<and> rs_last_precommit q = rs_last_precommit (ss_current_round st)"
proof -
  note wf = wf_sessionD(2,3) [OF assms(2)]
  have "\<not> is_attempt_message m"
    using attempt_message_signatures [OF wf(1) assms(3,4)] wf(2) assms(5) round_relations_cong(8) [of q "ss_current_round st"] by auto
  then show ?thesis by (rule other_message_keeps [OF wf(1) assms(3,4)])
qed

lemma history_act:
  assumes "wf_desc desc" and "no_collisions desc B" and "mostly_correct desc H" and "history_ok desc B H S L"
    and "unat i < nodes_count desc" and "H (unat i)" and "message_ok B i m" and "round_number_left (L (unat i))"
    and "session_apply_action desc (L (unat i)) i a m = Some st'"
  shows "history_ok desc B H (insert st' S) (L(unat i := st'))"
proof -
  let ?st = "L (unat i)"
  let ?t = "clamp_attempt_id (ss_attempt_ids ?st ! unat i) a"
  note ok = history_okD [OF assms(4)]
  note cov = ok(1) [OF ok(2), of "unat i"] and st = coveredD [OF ok(1) [OF ok(2)], of "unat i"]
  have st': "wf_session desc B st'" "session_extends (nodes_count desc) ?st st'"
    using session_apply_action_total [OF assms(1,2) st(1) assms(5,7,8), of a] assms(9) by auto
  note cases = session_apply_cases [OF assms(1,2) st(1) assms(5,7-9)]
  have old: "may_decided desc H S (word_of_nat k) (sent_block_get_id (or_block (session_old_rounds st' ! k)))"
    if "k < unat (rs_sequence_number (ss_current_round ?st))" for k
    using that extends_decided [OF st'(2) cov] wf_sessionD(4) [OF st(1)] by simp
  \<comment> \<open>a state that adds nothing to the history\<close>
  have quiet: ?thesis if "covered desc B H S st'"
    "rs_sequence_number (ss_current_round ?st) \<le> rs_sequence_number (ss_current_round st')"
    "rs_sequence_number (ss_current_round ?st) = rs_sequence_number (ss_current_round st') \<Longrightarrow>
      round_includes (nodes_count desc) (ss_current_round ?st) (ss_current_round st')"
  proof -
    have ins: "history_ok desc B H (insert st' S) L" by (rule history_insert [OF assms(4) that(1)])
    show ?thesis
      using own_record_includes [OF history_okD(4) [OF ins assms(5,6)] assms(5) that(2,3)]
      by (intro history_latest [OF ins _ st'(2)]) auto
  qed
  consider (same) "ss_current_round st' = ss_current_round ?st"
    | (move) q where "round_apply_action desc (ss_current_round ?st) i ?t m = Some q" "settles desc q st'"
    using cases by blast
  then show ?thesis
  proof cases
    case same
    have "covered desc B H S st'"
      using covered_settles [OF st(4,2,3) st'(1)] old settles_same [OF st'(1)] same by simp
    then show ?thesis by (rule quiet) (simp_all add: same round_includes_def)
  next
    case (move q)
    have q: "wf_round desc B q" "round_evolves (nodes_count desc) (unat i) (ss_current_round ?st) q"
      using round_apply_action_total [OF assms(1,2) st(4) assms(5) clamp_attempt_id_props(4) assms(7),
          of "ss_attempt_ids ?st ! unat i" a] move(1) by auto
    then have evolves: "wf_round desc B q" "rs_sequence_number q = rs_sequence_number (ss_current_round ?st)"
      by (auto simp: round_evolves_def)
    show ?thesis
    proof (cases "ss_current_round st' = q")
      case True
      have "ss_attempt_ids st' ! unat i = ?t" using cases wf_sessionD(1) [OF st(1)] assms(5) by simp
      then show ?thesis
        using q(2) lawful_message [OF assms(1) st(4) assms(5) clamp_attempt_id_props(4) move(1)]
          lock_message [OF assms(1) st(4) assms(5) clamp_attempt_id_props(4) move(1) st(2)]
        by (intro history_act_open [OF assms(1-6) st']) (simp_all add: True)
    next
      case False
      then have signed: "cutoff_of desc \<le> weight_of desc (round_signed q)"
        and new: "ss_current_round st' = create_current_round desc (rs_sequence_number q + 1)"
        using move(2) by (auto simp: settles_def)
      note silent = decision_is_silent [OF assms(1) st(1) assms(5) move(1) signed]
      have "lock_ok desc H q" "covered_round desc H S q"
        using silent lock_ok_cong [of q "ss_current_round ?st" desc H] st(2,3) evolves(2)
          round_relations_cong(4,5) [of q "ss_current_round ?st"] by (auto simp: covered_round_def)
      then have "covered desc B H S st'"
        using covered_settles [OF evolves(1) _ _ st'(1) move(2)] old evolves(2) by simp
      moreover have "rs_sequence_number (ss_current_round ?st) < rs_sequence_number (ss_current_round st')"
        using assms(8) by (simp add: new evolves(2) create_current_round_silent word_less_nat_alt unat_add_u32)
      ultimately show ?thesis by (intro quiet) auto
    qed
  qed
qed

text \<open>An implicit vote of a correct validator on its own state.\<close>

lemma history_implicit:
  assumes "wf_desc desc" and "no_collisions desc B" and "mostly_correct desc H" and "history_ok desc B H S L"
    and "unat i < nodes_count desc" and "H (unat i)" and "session_make_one desc (L (unat i)) i a = Some (st', made)"
    and "\<And>s. round_precommit (ss_current_round st') s (unat i) \<Longrightarrow> round_precommit (ss_current_round (L (unat i))) s (unat i)"
  shows "history_ok desc B H (insert st' S) (L(unat i := st'))"
proof -
  let ?st = "L (unat i)"
  let ?t = "clamp_attempt_id (ss_attempt_ids ?st ! unat i) a"
  note ok = history_okD [OF assms(4)]
  note st = coveredD [OF ok(1) [OF ok(2)], of "unat i"]
  have st': "wf_session desc B st'" "session_extends (nodes_count desc) ?st st'"
    by (rule session_make_one_total [OF assms(1) st(1) assms(5), of a]; use assms(7) in auto)+
  show ?thesis
  proof (rule session_make_one_cases [OF assms(1) st(1) assms(5,7)])
    assume "st' = ?st"
    then show ?thesis using assms(4) ok(2) [of "unat i"] by (simp add: insert_absorb)
  next
    fix q made'
    assume *: "round_make_one desc (ss_current_round ?st) i ?t = Some (q, made')" "ss_current_round st' = q" "ss_attempt_ids st' ! unat i = ?t"
    have q: "round_evolves (nodes_count desc) (unat i) (ss_current_round ?st) q"
      by (rule make_one_evolves [OF assms(1) st(4) assms(5) clamp_attempt_id_props(4) *(1)])
    have "lock_ok desc H q"
      by (rule lock_make_one [OF assms(1) st(4) assms(5) clamp_attempt_id_props(4) *(1) st(2)]) (use assms(8) *(2) in simp)
    then show ?thesis
      using q lawful_implicit [OF assms(1) st(4) assms(5) clamp_attempt_id_props(4) *(1)] *(2,3)
      by (intro history_act_open [OF assms(1-6) st']) simp_all
  qed
qed

subsection \<open>Histories\<close>

text \<open>
  \<open>S\<close> is the set of all session states that came about, at any validator, and \<open>L i\<close> the latest state of the chain of
  blocks of validator \<open>i\<close>. A correct validator extends its own latest state only: it merges any known state into it,
  applies messages of its own, and its implicit actions follow, which add no precommit. Anyone can merge known
  states, and apply messages and implicit actions of the validators that are not correct to any known state.
\<close>

inductive session_history ::
  "session_description \<Rightarrow> submission set \<Rightarrow> (nat \<Rightarrow> bool) \<Rightarrow> session_state set \<Rightarrow> (nat \<Rightarrow> session_state) \<Rightarrow> bool"
  for desc :: session_description and B :: "submission set" and H :: "nat \<Rightarrow> bool" where
  start: "session_history desc B H {session_state_create_empty desc} (\<lambda>_. session_state_create_empty desc)"
| receive: "session_history desc B H (insert m S) (L(i := m))"
    if "session_history desc B H S L" "i < nodes_count desc" "H i" "st \<in> S" "round_number_left (L i)" "round_number_left st"
      "session_merge desc (L i) st = Some m"
| act: "session_history desc B H (insert st' S) (L(unat i := st'))"
    if "session_history desc B H S L" "unat i < nodes_count desc" "H (unat i)" "message_ok B i m" "round_number_left (L (unat i))"
      "session_apply_action desc (L (unat i)) i a m = Some st'"
| settle: "session_history desc B H (insert st' S) (L(unat i := st'))"
    if "session_history desc B H S L" "unat i < nodes_count desc" "H (unat i)" "session_make_one desc (L (unat i)) i a = Some (st', made)"
      "\<And>s. round_precommit (ss_current_round st') s (unat i) \<Longrightarrow> round_precommit (ss_current_round (L (unat i))) s (unat i)"
| join: "session_history desc B H (insert m S) L"
    if "session_history desc B H S L" "l \<in> S" "r \<in> S" "round_number_left l" "round_number_left r" "session_merge desc l r = Some m"
| other: "session_history desc B H (insert st' S) L"
    if "session_history desc B H S L" "st \<in> S" "unat i < nodes_count desc" "\<not> H (unat i)" "message_ok B i m" "round_number_left st"
      "session_apply_action desc st i a m = Some st'"
| implicit: "session_history desc B H (insert st' S) L"
    if "session_history desc B H S L" "st \<in> S" "unat i < nodes_count desc" "\<not> H (unat i)" "make_all desc st i a = Some st'"

lemma history_start:
  assumes "wf_desc desc"
  shows "history_ok desc B H {session_state_create_empty desc} (\<lambda>_. session_state_create_empty desc)"
proof -
  let ?st = "session_state_create_empty desc"
  have cur: "ss_current_round ?st = create_current_round desc 0" "session_old_rounds ?st = []"
    by (simp_all add: session_state_create_empty_def session_old_rounds_def)
  have silent: "\<not> ledger_votes desc H {?st} k i s b" "\<not> ledger_precommits desc H {?st} k i s" for k i s b
    by (simp_all add: ledger_votes_def ledger_precommits_def cur create_current_round_silent)
  have "covered desc B H {?st} ?st"
    by (simp add: covered_def cur covered_create_current_round lock_create_current_round wf_session_create_empty [OF assms])
  then show ?thesis by (simp add: history_ok_def ledger_ok_def own_record_def silent)
qed

lemma history_invariant:
  assumes "session_history desc B H S L" and "wf_desc desc" and "no_collisions desc B" and "mostly_correct desc H"
  shows "history_ok desc B H S L"
  using assms(1)
proof induction
  case start
  show ?case by (rule history_start [OF assms(2)])
next
  case (receive S L i st m)
  then show ?case by (intro history_receive [OF assms(2-4)])
next
  case (act S L i m a st')
  then show ?case by (intro history_act [OF assms(2-4)])
next
  case (settle S L i a st' made)
  show ?case by (rule history_implicit [OF assms(2-4) settle.IH settle.hyps(2-5)])
next
  case (join S L l r m)
  note cov = history_okD(1) [OF join.IH join.hyps(2)] history_okD(1) [OF join.IH join.hyps(3)]
  show ?case
    using covered_merge(1) [OF assms(2,3) cov covered_agree [OF assms(2-4) join.IH cov] join.hyps(4-6)]
    by (rule history_insert [OF join.IH])
next
  case (other S L st i m a st')
  show ?case
    using covered_other_message [OF assms(2,3) history_okD(1) [OF other.IH other.hyps(2)] other.hyps(3-7)]
    by (rule history_insert [OF other.IH])
next
  case (implicit S L st i a st')
  show ?case
    using covered_make_all [where H = H, OF assms(2) implicit.hyps(3,4) history_okD(1) [OF implicit.IH implicit.hyps(2)] implicit.hyps(5)]
    by (rule history_insert [OF implicit.IH])
qed

lemma history_agree:
  assumes "session_history desc B H S L" and "wf_desc desc" and "no_collisions desc B" and "mostly_correct desc H"
    and "l \<in> S" and "r \<in> S"
  shows "session_agree l r" "wf_session desc B l" "wf_session desc B r"
  using covered_agree [OF assms(2-4) history_invariant [OF assms(1-4)]] coveredD(1)
    history_okD(1) [OF history_invariant [OF assms(1-4)]] assms(5,6) by blast+

text \<open>
  The implicit actions on a state that the processor published add no precommit of its validator: the loop of created
  messages ends only when no precommit is left to give.
\<close>

lemma published_adds_no_precommit:
  assumes "wf_desc desc" and "no_collisions desc B" and "unat i < nodes_count desc" and "wf_session desc B st" and "clock_ok st i a"
    and "no_attempt_wrap desc (ss_current_round st) i a" and "action_loop desc i a st messages = Some (st', published)"
    and "session_make_one desc st' i a = Some (st'', made)" and "round_precommit (ss_current_round st'') s (unat i)"
  shows "round_precommit (ss_current_round st') s (unat i)"
proof -
  obtain st1 msgs m where loop: "wf_session desc B st'" "clock_ok st' i a" "is_empty_message m" "wf_session desc B st1" "clock_ok st1 i a"
    "no_attempt_wrap desc (ss_current_round st1) i a" "round_next_step desc (ss_current_round st1) i a = NextNothing"
    "session_apply_action desc st1 i a m = Some st'" "round_apply_action desc (ss_current_round st1) i a m = Some (ss_current_round st')"
    using action_loop_ends [OF assms(1-6), of messages] assms(7) by (elim exE conjE) auto
  note wf1 = wf_sessionD [OF loop(4)] and a0 = clock_ok_nonzero [OF loop(5)] and wf' = wf_sessionD [OF loop(1)]
  from loop(3) obtain x y where m: "m = Empty x y" by (auto simp: is_empty_message_def split: message.splits)
  have clamp: "clamp_attempt_id (ss_attempt_ids st' ! unat i) a = a" using clock_ok_clamp [OF loop(2)] by simp
  show ?thesis
  proof (cases "round_precommit (ss_current_round st') a (unat i)")
    case True
    show ?thesis
    proof (rule session_make_one_cases [OF assms(1) loop(1) assms(3,8)])
      fix q made' assume q: "round_make_one desc (ss_current_round st') i (clamp_attempt_id (ss_attempt_ids st' ! unat i) a) = Some (q, made')"
        "ss_current_round st'' = q"
      have "lawful_step desc i a (ss_current_round st') q"
        using q(1) unfolding clamp by (rule lawful_implicit [OF assms(1) wf'(2) assms(3) a0])
      then have "round_precommit (ss_current_round st') s (unat i) \<or> s = a"
        using lawful_stepD(3) assms(9) q(2) by blast
      then show ?thesis using True by blast
    qed (use assms(9) in simp)
  next
    case False
    have same: "round_precommit (ss_current_round st') a (unat i) = round_precommit (ss_current_round st1) a (unat i)"
      using round_apply_next_step(3) [OF assms(1,2) wf1(2) assms(3) a0 loop(6) _ loop(9) loop(7)] m assms(3) by auto
    have "round_next_step desc (ss_current_round st') i a = NextNothing"
      using round_nothing_left [OF assms(1,2) wf1(2) assms(3) a0 loop(6,7)] loop(9) m False same by auto
    moreover have "first_attempt_of (ss_current_round st') i \<noteq> 0 \<and> first_attempt_of (ss_current_round st') i \<le> a"
      using attempt_message_first [OF wf1(2) assms(3) a0 loop(9)] m by blast
    ultimately have idle: "round_make_one desc (ss_current_round st') i a = Some (ss_current_round st', False)"
      by (intro round_make_one_nothing [OF assms(1) wf'(2) assms(3)])
    have "ss_current_round st'' = ss_current_round st'"
    proof (rule session_make_one_cases [OF assms(1) loop(1) assms(3,8)])
      fix q made' assume q: "round_make_one desc (ss_current_round st') i (clamp_attempt_id (ss_attempt_ids st' ! unat i) a) = Some (q, made')"
        "ss_current_round st'' = q"
      have "Some (q, made') = Some (ss_current_round st', False)" using q(1) [unfolded clamp] idle by (rule trans [OF sym])
      then show "ss_current_round st'' = ss_current_round st'" using q(2) by simp
    qed simp
    then show ?thesis using assms(9) by simp
  qed
qed

end
