(* ===== verification/VS_Example.thy ===== *)
theory VS_Example
  imports VS_Publish VS_Agreement
begin

text \<open>
  A concrete session: four validators, of which the first has more than two thirds of the weight, and the
  states their session goes through while it decides its first round. The properties of the development are
  instantiated on these states.
\<close>

subsection \<open>A session of four validators\<close>

text \<open>
  Stand-ins for the code outside the repository: an object is serialised to a few of its bytes, the hash reads
  the bytes as a number, a key is its own identifier, and a signature is valid when it repeats the key.
\<close>

fun example_serialize :: "tl_object \<Rightarrow> bytes" where
  "example_serialize (TlBlockId root file) = [1, ucast root, ucast file]"
| "example_serialize (TlBlockIdApprove root file) = [2, ucast root, ucast file]"
| "example_serialize (TlCandidateId src root file collated) = [3, ucast src, ucast root, ucast file, ucast collated]"

definition example_ext :: externals where
  "example_ext = \<lparr> ext_serialize = example_serialize,
     ext_sha256 = foldl (\<lambda>h b. h * 256 + ucast b) 0,
     ext_key_id = (\<lambda>key. key),
     ext_verify = (\<lambda>key bytes signature. signature = ucast key # bytes) \<rparr>"

definition example_nodes :: "session_node list" where
  "example_nodes = map (\<lambda>(k, w). \<lparr> node_adnl_id = k, node_public_key = k, node_weight = w \<rparr>)
     [(11, 40), (12, 2), (13, 2), (14, 2)]"

definition example_desc :: session_description where
  "example_desc = the (session_description_new example_ext default_options example_nodes 11)"

definition example_submissions :: "submission set" where
  "example_submissions = {(0, 1, 2, 3), (1, 4, 5, 6)}"

definition example_sent_block :: sent_block where
  "example_sent_block = \<lparr> sb_candidate_id = 0x030B010203, sb_source_id = 0, sb_root_hash = 1, sb_file_hash = 2,
     sb_collated_data_file_hash = 3 \<rparr>"

definition example_candidate :: "block_signature option \<Rightarrow> block_candidate" where
  "example_candidate signature = \<lparr> bc_block = Some example_sent_block, bc_approved_by = [signature, None, None, None] \<rparr>"

definition example_attempt :: "bool \<Rightarrow> round_attempt" where
  "example_attempt precommitted = \<lparr> ra_sequence_number = 2000,
     ra_votes = Some [\<lparr> vc_block = Some example_sent_block, vc_voted_by = [True, False, False, False] \<rparr>],
     ra_precommitted = [precommitted, False, False, False], ra_vote_for = None \<rparr>"

text \<open>The states in which the first round has the block, its approval, a vote, and a precommit; and the round decided.\<close>

definition example_state ::
  "sent_block_ptr option \<Rightarrow> u32 \<Rightarrow> block_signature option \<Rightarrow> round_attempt list option \<Rightarrow> session_state" where
  "example_state precommitted last_precommit signature attempts = \<lparr> ss_attempt_ids = [2000, 0, 0, 0],
     ss_current_round = \<lparr> rs_precommitted_block = precommitted, rs_sequence_number = 0,
       rs_first_attempt = Some [2000, 0, 0, 0], rs_last_precommit = Some [last_precommit, 0, 0, 0],
       rs_sent_blocks = Some [example_candidate signature],
       rs_signatures = [None, None, None, None], rs_attempts = attempts \<rparr>,
     ss_old_rounds = None \<rparr>"

definition example_submitted :: session_state where
  "example_submitted = example_state None 0 None None"

definition example_approved :: session_state where
  "example_approved = example_state None 0 (Some [11, 2, 1, 2]) None"

definition example_voted :: session_state where
  "example_voted = example_state None 0 (Some [11, 2, 1, 2]) (Some [example_attempt False])"

definition example_precommitted :: session_state where
  "example_precommitted =
     example_state (Some (Some example_sent_block)) 2000 (Some [11, 2, 1, 2]) (Some [example_attempt True])"

definition example_decided :: session_state where
  "example_decided = \<lparr> ss_attempt_ids = [2000, 0, 0, 0], ss_current_round = create_current_round example_desc 1,
     ss_old_rounds = Some [\<lparr> or_sequence_number = 0, or_block = Some example_sent_block,
       or_signatures = [Some [11, 1, 1, 2], None, None, None],
       or_approve_signatures = [Some [11, 2, 1, 2], None, None, None] \<rparr>] \<rparr>"

subsection \<open>The description\<close>

lemma example_new: "session_description_new example_ext default_options example_nodes 11 = Some example_desc"
proof -
  have "session_description_new example_ext default_options example_nodes 11 \<noteq> None"
    by (simp add: session_description_new_def example_nodes_def example_ext_def)
  then show ?thesis by (auto simp: example_desc_def)
qed

lemma example_wf: "wf_desc example_desc"
  by (rule new_wf_desc [OF example_new]) (simp_all add: example_nodes_def default_options_def)

lemma example_count [simp]: "nodes_count example_desc = 4"
  by (simp add: new_sources(1) [OF example_new] example_nodes_def)

lemma example_desc_eq:
  "example_desc = \<lparr> sd_options = default_options,
     sd_sources = map (\<lambda>(k, w). \<lparr> source_id = k, source_public_key = k, source_adnl_id = k, source_weight = w \<rparr>)
       [(11, 40), (12, 2), (13, 2), (14, 2)],
     sd_rev_sources = [11 \<mapsto> 0, 12 \<mapsto> 1, 13 \<mapsto> 2, 14 \<mapsto> 3], sd_cutoff_weight = 31, sd_total_weight = 46,
     sd_self_idx = 0, sd_current_time = None, sd_ext = example_ext \<rparr>"
  using example_new unfolding session_description_new_def by (simp add: example_nodes_def example_ext_def)

lemma example_total_nodes [simp]: "get_total_nodes example_desc = 4"
  by (simp add: get_total_nodes_def)

lemma example_range [simp]: "range_u32 4 = [0, 1, 2, 3]"
  by (simp add: range_u32_def upt_rec)

lemma example_weights [simp]:
  "get_node_weight example_desc 0 = Some 40" "get_node_weight example_desc 1 = Some 2"
  "get_node_weight example_desc 2 = Some 2" "get_node_weight example_desc 3 = Some 2"
  "get_cutoff_weight example_desc = 31"
  by (simp_all add: get_node_weight_def get_source_def example_desc_eq get_cutoff_weight_def)

lemma example_candidate_id [simp]: "candidate_id example_desc 0 1 2 3 = Some 0x030B010203"
  "candidate_id example_desc 1 4 5 6 = Some 0x030C040506"
  by (simp_all add: candidate_id_def get_source_public_key_hash_def get_source_def example_desc_eq example_ext_def)

lemma example_no_collisions: "no_collisions example_desc example_submissions"
  by (simp add: no_collisions_def example_submissions_def)

lemma example_cutoff_reached:
  "cutoff_reached example_desc flag = do { b0 \<leftarrow> flag 0; if b0 then Some True else
     do { b1 \<leftarrow> flag 1; b2 \<leftarrow> flag 2; b3 \<leftarrow> flag 3; Some False } }"
  by (cases "flag 0"; cases "flag 1"; cases "flag 2"; cases "flag 3") (auto simp: cutoff_reached_def)

lemma example_signatures [simp]:
  "check_signature example_desc 1 2 0 s = Some (s = [11, 1, 1, 2])"
  "check_approve_signature example_desc 1 2 0 s = Some (s = [11, 2, 1, 2])"
  by (simp_all add: check_signature_def check_approve_signature_def example_desc_eq example_ext_def)

subsection \<open>A round from the submission of a block to the decision\<close>

lemma example_replicate [simp]: "replicate 4 x = [x, x, x, x]"
  by (simp add: numeral_eq_Suc)

lemma example_priority [simp]: "get_node_priority example_desc 0 0 = Some 0"
  using node_priority_eq [OF example_wf, of 0 0] by (simp add: example_desc_eq default_options_def)

lemma example_options [simp]:
  "max_round_attempts (sd_options example_desc) = 4" "get_max_priority example_desc = 2"
  "round_candidates (sd_options example_desc) = 3"
  by (simp_all add: get_max_priority_def example_desc_eq default_options_def)

lemmas example_step_simps =
  session_apply_action_def session_state_create_empty_def create_current_round_def vector_create_wrapper_def clamp_attempt_id_def
  MIN_ATTEMPT_ID_def get_round_id_def round_apply_action_def round_apply_action_dispatch_def update_first_attempt_def
  check_block_is_signed_def example_cutoff_reached Let_def block_candidate_get_id_def block_candidate_check_block_is_approved_by_def
  block_order.push_None_total block_order.push_total get_block_def get_candidate_def

lemmas example_state_defs =
  example_submitted_def example_approved_def example_voted_def example_precommitted_def example_state_def
  example_candidate_def example_sent_block_def example_attempt_def

lemma example_step1:
  "session_apply_action example_desc (session_state_create_empty example_desc) 0 2000 (SubmittedBlock 0 1 2 3) = Some example_submitted"
  by (simp add: example_step_simps example_state_defs apply_submitted_block_action_def check_block_is_sent_by_def sent_block_create_def
      block_candidate_create_unapproved_def)

lemma example_step2:
  "session_apply_action example_desc example_submitted 0 2000 (ApprovedBlock 0 0x030B010203 [11, 2, 1, 2]) = Some example_approved"
  by (simp add: example_step_simps example_state_defs apply_approved_block_action_def check_other_block_approved_def block_candidate_push_def)

lemma get_attempt_small:
  "get_attempt None s = Some None"
  "get_attempt (Some [a]) s = Some (if ra_sequence_number a = s then Some a else None)"
  by (subst get_attempt_total, simp_all)+

lemmas example_attempt_simps =
  apply_action_on_attempt_def get_attempt_small attempt_order.push_None_total attempt_order.push_total get_voted_block_def
  round_attempt_apply_action_def round_attempt_apply_action_dispatch_def apply_default_action_def try_vote_def try_precommit_def
  check_vote_received_from_def check_precommit_received_from_def choose_block_to_vote_def round_view_of_def
  vote_candidate_check_block_is_voted_def vote_candidate_check_block_is_voted_by_def round_attempt_create_empty_def
  round_attempt_get_candidate_def vote_candidate_create_unvoted_def vote_candidate_push_def vote_order.push_None_total
  precommitted_by_attempt_def check_attempt_is_precommitted_def update_last_precommit_def record_last_precommit_def
  max_last_precommit_def block_candidate_check_block_is_approved_def block_candidate_get_source_index_def as_i32_def
  vote_candidate_get_id_def sent_block_get_id_def

lemma example_step3:
  "session_apply_action example_desc example_approved 0 2000 (Vote 0 2000 0x030B010203) = Some example_voted"
  by (simp add: example_step_simps example_state_defs example_attempt_simps)

lemma example_step4:
  "session_apply_action example_desc example_voted 0 2000 (Precommit 0 2000 0x030B010203) = Some example_precommitted"
  by (simp add: example_step_simps example_state_defs example_attempt_simps)

lemma example_step5:
  "session_apply_action example_desc example_precommitted 0 2000 (Commit 0 0x030B010203 [11, 1, 1, 2]) = Some example_decided"
  by (simp add: example_step_simps example_state_defs example_decided_def apply_committed_block_action_def switch_round_def create_from_round_def get_precommitted_block_def sent_block_get_id_def)

subsection \<open>The states are reachable\<close>

lemma example_messages_ok:
  "message_ok example_submissions 0 (SubmittedBlock 0 1 2 3)" "message_ok example_submissions 0 (ApprovedBlock 0 b s)"
  "message_ok example_submissions 0 (Vote 0 2000 b)" "message_ok example_submissions 0 (Precommit 0 2000 b)"
  "message_ok example_submissions 0 (Commit 0 b s)"
  by (simp_all add: message_ok_def example_submissions_def)

lemma example_reachable:
  "reachable example_desc example_submissions example_submitted"
  "reachable example_desc example_submissions example_approved"
  "reachable example_desc example_submissions example_voted"
  "reachable example_desc example_submissions example_precommitted"
  "reachable example_desc example_submissions example_decided"
proof -
  note step = reachable.message [where desc = example_desc and B = example_submissions and i = 0 and a = 2000]
  show submitted: "reachable example_desc example_submissions example_submitted"
    by (rule step [OF reachable.start _ example_messages_ok(1) _ example_step1])
      (simp_all add: session_state_create_empty_def create_current_round_def)
  show approved: "reachable example_desc example_submissions example_approved"
    by (rule step [OF submitted _ example_messages_ok(2) _ example_step2]) (simp_all add: example_state_defs)
  show voted: "reachable example_desc example_submissions example_voted"
    by (rule step [OF approved _ example_messages_ok(3) _ example_step3]) (simp_all add: example_state_defs)
  show precommitted: "reachable example_desc example_submissions example_precommitted"
    by (rule step [OF voted _ example_messages_ok(4) _ example_step4]) (simp_all add: example_state_defs)
  show "reachable example_desc example_submissions example_decided"
    by (rule step [OF precommitted _ example_messages_ok(5) _ example_step5]) (simp_all add: example_state_defs)
qed

lemmas example_session_wf = example_reachable [THEN reachable_wf, OF example_wf example_no_collisions]

subsection \<open>What the states say\<close>

lemma example_weight_of:
  "weight_of example_desc P = (if P 0 then 40 else 0) + (if P 1 then 2 else 0) + (if P 2 then 2 else 0) + (if P 3 then 2 else 0)"
proof -
  have "[0..<nodes_count example_desc] = [0, 1, 2, 3]" by (simp add: upt_rec)
  moreover have "weight_at example_desc 0 = 40" "weight_at example_desc 1 = 2" "weight_at example_desc 2 = 2" "weight_at example_desc 3 = 2"
    by (simp_all add: weight_at_def example_desc_eq)
  ultimately show ?thesis unfolding weight_of_def by simp
qed

lemma example_cutoff [simp]: "cutoff_of example_desc = 31"
  by (simp add: cutoff_of_def example_desc_eq)

lemma example_total [simp]: "total_of example_desc = 46"
  by (simp add: total_of_def example_weight_of)

lemma example_block_approved: "candidate_approved example_desc (example_candidate (Some [11, 2, 1, 2]))"
  by (simp add: example_weight_of approved_at_def example_candidate_def)

lemma example_round_voted: "round_voted example_desc (ss_current_round example_voted) 2000 0x030B010203"
  by (simp add: round_voted_def example_weight_of round_vote_def round_attempts_def example_state_defs attempt_vote_def attempt_votes_def
      voted_at_def vote_candidate_get_id_def sent_block_get_id_def)

lemma example_not_voted: "\<not> round_voted example_desc (ss_current_round example_approved) s b"
  by (simp add: round_voted_def example_weight_of round_vote_def round_attempts_def example_state_defs)

lemma example_no_wrap: "no_attempt_wrap example_desc (ss_current_round example_voted) 0 2000"
  by (simp add: no_attempt_wrap_def example_state_defs)

lemma example_attempts_wf: "wf_attempt example_desc (example_attempt False)" "wf_attempt example_desc (example_attempt True)"
  using wf_roundD(3) [OF wf_sessionD(2) [OF example_session_wf(3)]] wf_roundD(3) [OF wf_sessionD(2) [OF example_session_wf(4)]]
  by (auto simp: wf_round_attempts_def round_attempts_def example_state_defs attempt_ok_def)

definition example_old_round :: old_round where
  "example_old_round = session_old_rounds example_decided ! 0"

definition example_signed_round :: round_state where
  "example_signed_round = (ss_current_round example_precommitted)\<lparr>rs_signatures := [Some [11, 1, 1, 2], None, None, None]\<rparr>"

lemma example_old_round_wf: "wf_old_round example_desc example_submissions 0 example_old_round"
  using wf_old_rounds_nth [OF wf_sessionD(5) [OF example_session_wf(5)], of 0]
  by (simp add: example_old_round_def session_old_rounds_def example_decided_def)

lemma example_signed_round_wf: "wf_round example_desc example_submissions example_signed_round"
proof -
  have "round_apply_action example_desc (ss_current_round example_precommitted) 0 2000 (Commit 0 0x030B010203 [11, 1, 1, 2]) = Some example_signed_round"
    by (simp add: example_step_simps example_state_defs example_signed_round_def apply_committed_block_action_def sent_block_get_id_def)
  then show ?thesis
    using round_apply_action_total [OF example_wf example_no_collisions wf_sessionD(2) [OF example_session_wf(4)], of 0 2000
        "Commit 0 0x030B010203 [11, 1, 1, 2]"] example_messages_ok(5) by simp
qed

lemma example_signed_round_quorum: "cutoff_of example_desc \<le> weight_of example_desc (round_signed example_signed_round)"
  by (simp add: example_weight_of round_signed_def example_signed_round_def)

subsection \<open>A clock that went back\<close>

text \<open>
  Validator 1, of little weight, voted in attempt 2001; then its clock goes back to attempt 2000.
\<close>

definition example_behind :: session_state where
  "example_behind = \<lparr> ss_attempt_ids = [2000, 2001, 0, 0],
     ss_current_round = \<lparr> rs_precommitted_block = None, rs_sequence_number = 0,
       rs_first_attempt = Some [2000, 2001, 0, 0], rs_last_precommit = Some [0, 0, 0, 0],
       rs_sent_blocks = Some [example_candidate (Some [11, 2, 1, 2])],
       rs_signatures = [None, None, None, None],
       rs_attempts = Some [\<lparr> ra_sequence_number = 2001,
         ra_votes = Some [\<lparr> vc_block = Some example_sent_block, vc_voted_by = [False, True, False, False] \<rparr>],
         ra_precommitted = [False, False, False, False], ra_vote_for = None \<rparr>] \<rparr>,
     ss_old_rounds = None \<rparr>"

lemma example_behind_step:
  "session_apply_action example_desc example_approved 1 2001 (Vote 0 2001 0x030B010203) = Some example_behind"
  by (simp add: example_step_simps example_state_defs example_attempt_simps example_behind_def)

lemma example_behind_reachable: "reachable example_desc example_submissions example_behind"
  by (rule reachable.message [where i = 1 and a = 2001, OF example_reachable(2) _ _ _ example_behind_step])
    (simp_all add: message_ok_def example_state_defs)

lemma example_behind_create: "session_create_action example_desc example_behind 1 2000 = Some (Vote 0 2000 0x030B010203)"
  by (simp add: example_step_simps example_state_defs example_attempt_simps example_behind_def session_create_action_def
      round_create_action_def round_attempt_create_action_def)

lemma example_behind_apply: "session_apply_action example_desc example_behind 1 2000 (Vote 0 2000 0x030B010203) = Some example_behind"
  by (simp add: example_step_simps example_state_defs example_attempt_simps example_behind_def)

subsection \<open>The processor\<close>

definition example_env :: environment where
  "example_env = \<lparr> env_now = 32000000000000, env_ts = 137438953472000, env_random = 0, env_parse_update = (\<lambda>_. None),
     env_parse_candidate = (\<lambda>_. None), env_parse_query = (\<lambda>_. None), env_sign = (\<lambda>_. None) \<rparr>"

lemma example_create:
  "session_create_action example_desc example_voted 0 2000 = Some (Precommit 0 2000 0x030B010203)"
  "session_create_action example_desc example_precommitted 0 2000 = Some (Empty 0 2000)"
  "session_apply_action example_desc example_precommitted 0 2000 (Empty 0 2000) = Some example_precommitted"
  by (simp_all add: example_step_simps example_state_defs example_attempt_simps session_create_action_def
      round_create_action_def round_attempt_create_action_def)

lemma example_published:
  "action_loop example_desc 0 2000 example_voted [] =
     Some (example_precommitted, [Precommit 0 2000 0x030B010203, Empty 0 2000])"
  by (subst action_loop.simps, simp add: example_create example_step4 is_empty_message_def)
    (subst action_loop.simps, simp add: example_create is_empty_message_def)

lemma example_precommitted_vote: "round_vote (ss_current_round example_precommitted) 2000 0x030B010203 0"
  by (simp add: round_vote_def round_attempts_def example_state_defs attempt_vote_def attempt_votes_def voted_at_def
      vote_candidate_get_id_def sent_block_get_id_def)

lemma example_report:
  "round_report example_desc Map.empty 0 \<lparr> or_sequence_number = 0, or_block = Some example_sent_block,
     or_signatures = [Some [11, 1, 1, 2], None, None, None], or_approve_signatures = [Some [11, 2, 1, 2], None, None, None] \<rparr> =
   OnBlockCommitted 0 11 1 2 [] [(11, [11, 1, 1, 2])] [(11, [11, 2, 1, 2])]"
  by (simp add: round_report_def exported_def example_sent_block_def upt_rec) (simp add: example_desc_eq)

subsection \<open>A history\<close>

text \<open>
  The first validator is correct and decides the first round; another one, which need not be, then announces an
  attempt of its own.
\<close>

definition example_correct :: "nat \<Rightarrow> bool" where
  "example_correct i \<longleftrightarrow> i = 0"

definition example_later :: session_state where
  "example_later = example_decided\<lparr>ss_attempt_ids := [2000, 3000, 0, 0]\<rparr>"

definition example_history :: "session_state set" where
  "example_history = {session_state_create_empty example_desc, example_submitted, example_approved, example_voted,
     example_precommitted, example_decided, example_later}"

lemma example_mostly_correct: "mostly_correct example_desc example_correct"
  by (simp add: mostly_correct_def example_weight_of example_correct_def)

lemma example_step6: "session_apply_action example_desc example_decided 1 3000 (Empty 7 3000) = Some example_later"
  by (simp add: session_apply_action_def example_decided_def example_later_def clamp_attempt_id_def MIN_ATTEMPT_ID_def get_round_id_def
      create_current_round_def)

lemma example_is_history:
  "session_history example_desc example_submissions example_correct example_history
     ((\<lambda>_. session_state_create_empty example_desc)(0 := example_decided))"
proof -
  let ?h = "session_history example_desc example_submissions example_correct" and ?e = "session_state_create_empty example_desc"
  let ?L = "\<lambda>st. (\<lambda>_ :: nat. ?e)(0 := st)"
  have step: "?h (insert st' S) (?L st')"
    if "?h S (?L st)" "message_ok example_submissions 0 m" "round_number_left st" "session_apply_action example_desc st 0 2000 m = Some st'" for S st st' m
    using session_history.act [OF that(1), of 0 m 2000 st'] that(2-4) by (simp add: example_correct_def)
  have "?L ?e = (\<lambda>_ :: nat. ?e)" by (simp add: fun_eq_iff)
  then have "?h {?e} (?L ?e)" using session_history.start [of example_desc example_submissions example_correct] by metis
  note step [OF this example_messages_ok(1) _ example_step1]
  then have "?h {example_submitted, ?e} (?L example_submitted)" by (simp add: session_state_create_empty_def create_current_round_def)
  note step [OF this example_messages_ok(2) _ example_step2]
  then have "?h {example_approved, example_submitted, ?e} (?L example_approved)" by (simp add: example_state_defs)
  note step [OF this example_messages_ok(3) _ example_step3]
  then have "?h {example_voted, example_approved, example_submitted, ?e} (?L example_voted)" by (simp add: example_state_defs)
  note step [OF this example_messages_ok(4) _ example_step4]
  then have "?h {example_precommitted, example_voted, example_approved, example_submitted, ?e} (?L example_precommitted)"
    by (simp add: example_state_defs)
  note step [OF this example_messages_ok(5) _ example_step5]
  then have h: "?h {example_decided, example_precommitted, example_voted, example_approved, example_submitted, ?e} (?L example_decided)"
    by (simp add: example_state_defs)
  have "?h (insert example_later {example_decided, example_precommitted, example_voted, example_approved, example_submitted, ?e}) (?L example_decided)"
    by (rule session_history.other [OF h _ _ _ _ _ example_step6])
      (simp_all add: example_correct_def message_ok_def example_decided_def create_current_round_def)
  moreover have "insert example_later {example_decided, example_precommitted, example_voted, example_approved, example_submitted, ?e} = example_history"
    by (auto simp: example_history_def)
  ultimately show ?thesis by simp
qed

end
