(* ===== verification/VS_Components.thy ===== *)
theory VS_Components
  imports VS_Example
begin

text \<open>
  The properties of the single components of a validator session: the vectors, the description, the
  candidates, the attempts and the decided rounds. Each is stated over the definitions of its component and
  instantiated on the example session.
\<close>

text \<open>
  C33. The record of a decided round holds the precommitted block and all commit signatures of the round and
  is well formed: it has approvals and signatures of more than two thirds of the weight.
\<close>

theorem decided_round_record:
  assumes "wf_desc desc" and "wf_round desc B r" and "cutoff_of desc \<le> weight_of desc (round_signed r)"
  shows "\<exists>d. create_from_round desc r = Some d \<and> wf_old_round desc B (rs_sequence_number r) d \<and>
    rs_precommitted_block r = Some (or_block d) \<and> or_signatures d = rs_signatures r"
  using assms by (rule create_from_round_total)

theorem decided_round_record_witness:
  "\<exists>d. create_from_round example_desc example_signed_round = Some d \<and> wf_old_round example_desc example_submissions 0 d \<and>
     or_block d = Some example_sent_block \<and> or_signatures d = [Some [11, 1, 1, 2], None, None, None]"
  using decided_round_record [OF example_wf example_signed_round_wf example_signed_round_quorum]
  by (auto simp: example_signed_round_def example_state_defs)



text \<open>
  C35. The binary search for an attempt in the sorted vector of attempts ends and finds the attempt with the
  number exactly when there is one.
\<close>

theorem attempt_search_is_lookup:
  assumes "key_sorted ra_sequence_number (vector_wrapper_iter attempts)"
  shows "get_attempt attempts s = Some (key_map ra_sequence_number (vector_wrapper_iter attempts) s)"
  using assms by (rule get_attempt_total)

theorem attempt_search_is_lookup_witness:
  "get_attempt (Some [example_attempt False, (example_attempt False)\<lparr>ra_sequence_number := 2001\<rparr>]) 2001 =
     Some (Some ((example_attempt False)\<lparr>ra_sequence_number := 2001\<rparr>))"
  using attempt_search_is_lookup [of "Some [example_attempt False, (example_attempt False)\<lparr>ra_sequence_number := 2001\<rparr>]" 2001]
  by (simp add: example_attempt_def)

text \<open>
  C36. The priority of a validator in a round is its distance, around the circle of validators, from the
  first proposer of that round, when that distance is less than the number of proposers of a round, and -1
  otherwise; the 32-bit arithmetic does not overflow.
\<close>

theorem node_priority_rotation:
  assumes "wf_desc desc" and "unat i < nodes_count desc"
  shows "get_node_priority desc i round = Some
    (let d = (unat i + nodes_count desc - unat round mod nodes_count desc) mod nodes_count desc
     in if d < unat (round_candidates (sd_options desc)) then int d else - 1)"
  using assms by (rule node_priority_eq)

theorem node_priority_rotation_witness:
  "get_node_priority example_desc 2 7 = Some (- 1)"
  using node_priority_rotation [OF example_wf, of 2 7] by simp



text \<open>
  C38. The merge of two vectors, which returns one of the arguments where the first loop found that it need
  not build a new one, is the item-by-item merge that keeps the tail of the longer vector, when merging an
  item with itself gives it back.
\<close>

theorem vector_merge_shortcuts_are_sound:
  assumes "\<And>x y. x \<in> set ls \<union> set rs \<Longrightarrow> y \<in> set ls \<union> set rs \<Longrightarrow> f x y = Some (g x y)"
    and "\<And>x. x \<in> set ls \<union> set rs \<Longrightarrow> g x x = x"
  shows "vector_merge_impl ls rs merge_all f = Some (list_join g ls rs)"
  using assms by (rule vector_merge_impl_total)

theorem vector_merge_shortcuts_are_sound_witness:
  "vector_merge_impl [True, False] [False, False, True] False bool_merge = Some (list_join (\<or>) [True, False] [False, False, True])"
  by (rule vector_merge_shortcuts_are_sound) (auto simp: bool_merge_def)

text \<open>
  Adding the approval of a validator to a block candidate adds at most that validator to those who approved
  it, and keeps an earlier approval.
\<close>

theorem candidate_push_adds_one_approval:
  assumes "wf_block_candidate n bc" and "unat i < n"
  shows "\<exists>bc'. block_candidate_push bc i s = Some bc' \<and> wf_block_candidate n bc' \<and> bc_block bc' = bc_block bc \<and>
    (\<forall>j. approved_at bc' j \<longleftrightarrow> approved_at bc j \<or> (j = unat i \<and> s \<noteq> None)) \<and>
    (\<forall>j < n. approved_at bc j \<longrightarrow> bc_approved_by bc' ! j = bc_approved_by bc ! j)"
  using block_candidate_push_total [OF assms] assms approved_at_add [OF assms]
  by (auto simp: block_candidate_add_def wf_block_candidate_def nth_list_update approved_at_def)

text \<open>
  Two different validators never have the same priority to propose a block in a round.
\<close>

theorem proposers_have_distinct_priorities:
  assumes "wf_desc desc" and "unat i < nodes_count desc" and "unat j < nodes_count desc"
    and "get_node_priority desc i s = Some p" and "get_node_priority desc j s = Some p" and "0 \<le> p"
  shows "i = j"
  using assms by (rule node_priority_inject)

text \<open>
  Two sets of validators that reach the cutoff share a validator outside any set with at most a third of the
  total weight.
\<close>

theorem quorums_share_an_honest_validator:
  assumes "wf_desc desc" and "cutoff_of desc \<le> weight_of desc P" and "cutoff_of desc \<le> weight_of desc Q"
    and "3 * weight_of desc faulty \<le> total_of desc"
  shows "\<exists>i < nodes_count desc. P i \<and> Q i \<and> \<not> faulty i"
  using assms by (rule vp.quorums_share_honest)

text \<open>
  Two states of an attempt with the same number merge into one that has the votes and precommits of both and
  is well formed.
\<close>

theorem attempt_merge_joins:
  assumes "wf_attempt desc l" and "wf_attempt desc r" and "ra_sequence_number l = ra_sequence_number r"
  shows "\<exists>m. round_attempt_merge l r = Some m \<and> wf_attempt desc m \<and>
    (\<forall>i < nodes_count desc. (\<forall>b. attempt_vote m b i \<longleftrightarrow> attempt_vote l b i \<or> attempt_vote r b i) \<and>
       (attempt_precommit m i \<longleftrightarrow> attempt_precommit l i \<or> attempt_precommit r i))"
  using attempt_merge_total [OF assms(1,3)] wf_attempt_join [OF assms(1,2)] attempt_vote_join [OF assms(1,2)]
    attempt_precommit_join [OF assms(1,2)] by blast

text \<open>
  The early-exit loop over the validators with 64-bit weights decides exactly whether the validators with
  the flag have at least the cutoff weight; no sum overflows in a well-formed description.
\<close>

theorem cutoff_check_sums_weights:
  assumes "wf_desc desc" and "\<And>i. unat i < nodes_count desc \<Longrightarrow> flag i = Some (P (unat i))"
  shows "cutoff_reached desc flag = Some (cutoff_of desc \<le> weight_of desc P)"
  using assms by (rule cutoff_reached_total)

text \<open>
  The merge of two sorted vectors of block candidates, with its shortcuts that return one of the two vectors
  unchanged, is pointwise: a block is in the result with the combination of its approvals exactly when it is
  in one of the vectors.
\<close>

theorem candidate_merge_is_pointwise:
  assumes "key_sorted block_candidate_get_id ls" and "key_sorted block_candidate_get_id rs"
  shows "\<exists>ms. sorted_vector_wrapper_merge block_candidate_less (Some ls) (Some rs) block_candidate_merge = Some (Some ms) \<and>
    key_sorted block_candidate_get_id ms \<and>
    (\<forall>k. key_map block_candidate_get_id ms k = combine_options block_candidate_join (key_map block_candidate_get_id ls k) (key_map block_candidate_get_id rs k))"
proof -
  have "sorted_vector_wrapper_merge block_candidate_less (Some ls) (Some rs) block_candidate_merge =
      Some (combine_options (key_merge block_candidate_get_id block_candidate_join) (Some ls) (Some rs))"
    using assms(1) by (intro block_order.wrapper_merge_total) (auto simp: block_candidate_merge_total)
  then show ?thesis
    using key_merge_sorted [OF assms, of block_candidate_join] key_map_merge [OF assms, of block_candidate_join] by auto
qed

text \<open>
  Pushing an attempt into the sorted vector of attempts, by binary search, keeps the vector sorted and is
  the update of the map from attempt numbers to attempts.
\<close>

theorem attempt_push_is_map_update:
  assumes "key_sorted ra_sequence_number attempts"
  shows "\<exists>attempts'. sorted_vector_push attempt_less (Some attempts) a = Some (Some attempts') \<and>
    key_sorted ra_sequence_number attempts' \<and>
    key_map ra_sequence_number attempts' = (key_map ra_sequence_number attempts)(ra_sequence_number a \<mapsto> a)"
  using attempt_order.push_total [OF assms] key_insert_sorted [OF assms] key_map_insert [OF assms] by blast

end
