(* ===== verification/CC_Source.thy ===== *)
theory CC_Source
  imports VS_Prelude "HOL-Library.AList"
begin

text \<open>
  The data of the catchain receiver and its sources (\<^verbatim>\<open>receiver_source.rs\<close>, and the structs of
  \<^verbatim>\<open>received_block.rs\<close> and \<^verbatim>\<open>receiver.rs\<close> in \<^verbatim>\<open>catchain/src\<close>). Blocks refer to each other and change in place, so
  they live in an explicit store: an \<^verbatim>\<open>Rc<RefCell<..>>\<close> is an address. Calls of the listener are recorded in the order in
  which they are made.
\<close>

subsection \<open>Blocks, sources and the receiver\<close>

type_synonym address = nat

definition as_usize :: "i32 \<Rightarrow> nat" where
  "as_usize x = nat (x mod 2 ^ 64)"

datatype received_block_state = Null | Ill | Initialized | Delivered

record block_dep =
  bd_src :: i32
  bd_height :: i32
  bd_data_hash :: u256
  bd_signature :: bytes

record wire_block =
  wb_incarnation :: u256
  wb_src :: i32
  wb_height :: i32
  wb_prev :: block_dep
  wb_deps :: "block_dep list"
  wb_signature :: bytes

record received_block =
  rb_state :: received_block_state
  rb_height :: i32
  rb_incarnation :: u256
  rb_hash :: block_hash
  rb_data_hash :: u256
  rb_source_id :: nat
  rb_fork_id :: nat
  rb_prev :: "address option"
  rb_next :: "address option"
  rb_signature :: bytes
  rb_payload :: bytes
  rb_block_deps :: "address list"
  rb_rev_deps :: "address list"
  rb_forks_dep_heights :: "i32 list"
  rb_pending_deps :: nat
  rb_in_db :: bool
  rb_is_custom :: bool

record receiver_source =
  src_id :: nat
  src_public_key :: u256
  src_blamed :: bool
  src_blocks :: "(i32 \<times> address) list"
  src_delivered_height :: i32
  src_received_height :: i32
  src_fork_proof :: "(block_dep \<times> block_dep) option"
  src_fork_ids :: "nat list"
  src_blamed_heights :: "i32 list"

text \<open>The calls of the listener.\<close>

datatype listener_call =
    OnBlame nat
  | OnNewBlock nat nat block_hash i32 block_hash "block_hash list" "i32 list" bytes

text \<open>The closures that wait in the task queue: after a write to the database, for a signed own block, after a read.\<close>

datatype posted = BlockWritten block_hash | OwnBlock wire_block bytes | ReadBlock block_hash bytes

record receiver =
  rc_incarnation :: u256
  rc_max_deps :: nat
  rc_heap :: "received_block list"
  rc_blocks :: "block_hash \<rightharpoonup> address"
  rc_blocks_to_run :: "address list"
  rc_root_block :: address
  rc_last_sent_block :: address
  rc_active_send :: bool
  rc_pending_blocks :: "(bytes \<times> block_hash list) list"
  rc_sources :: "receiver_source list"
  rc_source_public_key_hashes :: "u256 list"
  rc_local_id :: u256
  rc_local_idx :: nat
  rc_total_forks :: nat
  rc_allow_unsafe_self_blocks_resync :: bool
  rc_started :: bool
  rc_pending_in_db :: i32
  rc_read_db :: bool
  rc_db_root_block :: block_hash
  rc_posted :: "posted list"
  rc_calls :: "listener_call list"

text \<open>
  The code outside the repository: the TL serialisation of a block identifier, made of the incarnation, the key hash of
  the source, the height and the hash of the payload; SHA-256; the check of a signature; the TL parser of a payload,
  the TL serialisation of a fork proof, the parser of a stored block; the signature with the local key; and whether the
  logger takes warnings.
\<close>

datatype block_data = DataFork block_dep block_dep | DataNop | DataBadBlock | DataOther

record catchain_ext =
  cx_serialize_id :: "u256 \<Rightarrow> u256 \<Rightarrow> i32 \<Rightarrow> u256 \<Rightarrow> bytes"
  cx_hash :: "bytes \<Rightarrow> u256"
  cx_verify :: "u256 \<Rightarrow> bytes \<Rightarrow> bytes \<Rightarrow> bool"
  cx_parse_data :: "bytes \<Rightarrow> block_data option"
  cx_serialize_fork :: "block_dep \<times> block_dep \<Rightarrow> bytes"
  cx_parse_block :: "bytes \<Rightarrow> (wire_block \<times> bytes) option"
  cx_sign :: "bytes \<Rightarrow> bytes option"
  cx_log_warn :: bool

definition block_at :: "receiver \<Rightarrow> address \<Rightarrow> received_block option" where
  "block_at rc a = index (rc_heap rc) a"

definition put_block :: "receiver \<Rightarrow> address \<Rightarrow> received_block \<Rightarrow> receiver option" where
  "put_block rc a b = map_option (\<lambda>heap. rc\<lparr>rc_heap := heap\<rparr>) (index_set (rc_heap rc) a b)"

definition put_source :: "receiver \<Rightarrow> nat \<Rightarrow> receiver_source \<Rightarrow> receiver option" where
  "put_source rc sid s = map_option (\<lambda>sources. rc\<lparr>rc_sources := sources\<rparr>) (index_set (rc_sources rc) sid s)"

definition receiver_get_source :: "receiver \<Rightarrow> nat \<Rightarrow> receiver_source option" where
  "receiver_get_source rc sid = index (rc_sources rc) sid"

definition get_source_key_hash :: "receiver \<Rightarrow> nat \<Rightarrow> u256 option" where
  "get_source_key_hash rc sid = index (rc_source_public_key_hashes rc) sid"

definition is_initialized :: "received_block \<Rightarrow> bool" where
  "is_initialized b \<longleftrightarrow> (case rb_state b of Initialized \<Rightarrow> True | Delivered \<Rightarrow> True | _ \<Rightarrow> False)"

definition is_delivered :: "received_block \<Rightarrow> bool" where
  "is_delivered b \<longleftrightarrow> rb_state b = Delivered"

text \<open>\<^verbatim>\<open>Vec::resize\<close>\<close>

definition resize :: "'a list \<Rightarrow> nat \<Rightarrow> 'a \<Rightarrow> 'a list" where
  "resize xs n x = take n xs @ replicate (n - length xs) x"

subsection \<open>Sources\<close>

definition source_new :: "nat \<Rightarrow> u256 \<Rightarrow> receiver_source" where
  "source_new sid public_key = \<lparr> src_id = sid, src_public_key = public_key, src_blamed = False, src_blocks = [],
     src_delivered_height = 0, src_received_height = 0, src_fork_proof = None, src_fork_ids = [], src_blamed_heights = [] \<rparr>"

definition is_fork_found :: "receiver_source \<Rightarrow> bool" where
  "is_fork_found s \<longleftrightarrow> src_fork_proof s \<noteq> None"

definition mark_as_blamed :: "receiver \<Rightarrow> nat \<Rightarrow> receiver option" where
  "mark_as_blamed rc sid =
     do { s \<leftarrow> receiver_get_source rc sid;
          if src_blamed s then Some rc
          else put_source (rc\<lparr>rc_calls := rc_calls rc @ [OnBlame sid]\<rparr>) sid
                 (s\<lparr>src_blocks := [], src_delivered_height := 0, src_blamed := True\<rparr>) }"

definition set_fork_proof :: "receiver \<Rightarrow> nat \<Rightarrow> block_dep \<times> block_dep \<Rightarrow> receiver option" where
  "set_fork_proof rc sid proof =
     do { s \<leftarrow> receiver_get_source rc sid;
          if is_fork_found s then Some rc else put_source rc sid (s\<lparr>src_fork_proof := Some proof\<rparr>) }"

definition export_tl_dep :: "received_block \<Rightarrow> block_dep" where
  "export_tl_dep b = \<lparr> bd_src = int (rb_source_id b), bd_height = rb_height b, bd_data_hash = rb_data_hash b,
     bd_signature = rb_signature b \<rparr>"

text \<open>\<open>held\<close> are the blocks that are mutably borrowed by the callers; reading one of them is a panic.\<close>

definition process_new_block :: "catchain_ext \<Rightarrow> address list \<Rightarrow> receiver \<Rightarrow> nat \<Rightarrow> address \<Rightarrow> receiver option" where
  "process_new_block ext held rc sid a =
     do { s \<leftarrow> receiver_get_source rc sid;
          if is_fork_found s then Some rc
          else
            do { block \<leftarrow> block_at rc a;
                 rs_assert (rb_source_id block = src_id s);
                 (case map_of (src_blocks s) (rb_height block) of
                    Some e \<Rightarrow>
                      do { rs_assert (e \<notin> set held);
                           existing_block \<leftarrow> block_at rc e;
                           rs_assert (rb_hash block \<noteq> rb_hash existing_block);
                           let fork = (export_tl_dep block, export_tl_dep existing_block);
                           rc \<leftarrow> set_fork_proof rc sid fork;
                           mark_as_blamed (rc\<lparr>rc_pending_blocks := rc_pending_blocks rc @ [(cx_serialize_fork ext fork, [])]\<rparr>) sid }
                  | None \<Rightarrow> put_source rc sid (s\<lparr>src_blocks := AList.update (rb_height block) a (src_blocks s)\<rparr>)) } }"

definition source_add_fork :: "receiver \<Rightarrow> nat \<Rightarrow> (nat \<times> receiver) option" where
  "source_add_fork rc sid =
     do { s \<leftarrow> receiver_get_source rc sid;
          rc \<leftarrow> (if length (src_fork_ids s) > 0 then mark_as_blamed rc sid else Some rc);
          let fork_id = rc_total_forks rc + 1;
          let rc = rc\<lparr>rc_total_forks := fork_id\<rparr>;
          rs_assert (fork_id > 0);
          s \<leftarrow> receiver_get_source rc sid;
          let s = s\<lparr>src_fork_ids := src_fork_ids s @ [fork_id]\<rparr>;
          rs_assert (length (src_fork_ids s) > 1 \<longrightarrow> src_blamed s);
          rc \<leftarrow> put_source rc sid s;
          Some (fork_id, rc) }"

definition source_blame :: "receiver \<Rightarrow> nat \<Rightarrow> nat \<Rightarrow> i32 \<Rightarrow> receiver option" where
  "source_blame rc sid fork height =
     do { rc \<leftarrow> mark_as_blamed rc sid;
          s \<leftarrow> receiver_get_source rc sid;
          let heights = (if length (src_blamed_heights s) \<le> fork then resize (src_blamed_heights s) (fork + 1) 0 else src_blamed_heights s);
          let heights = (if heights ! fork = 0 \<or> heights ! fork > height then heights[fork := height] else heights);
          put_source rc sid (s\<lparr>src_blamed_heights := heights\<rparr>) }"

definition has_unreceived :: "receiver \<Rightarrow> receiver_source \<Rightarrow> bool option" where
  "has_unreceived rc s =
     (if src_blamed s then Some True
      else if src_blocks s = [] then Some False
      else
        do { a \<leftarrow> map_of (src_blocks s) (Max (set (map fst (src_blocks s))));
             b \<leftarrow> block_at rc a;
             rs_assert (rb_height b \<ge> src_received_height s);
             Some (rb_height b > src_received_height s) })"

definition has_undelivered :: "receiver_source \<Rightarrow> bool" where
  "has_undelivered s \<longleftrightarrow> src_delivered_height s < src_received_height s"

lemma keys_above_less:
  assumes "map_of blocks (h + 1) = Some a"
  shows "card {k \<in> fst ` set blocks. h + 1 < (k :: int)} < card {k \<in> fst ` set blocks. h < k}"
proof (rule psubset_card_mono)
  have "h + 1 \<in> fst ` set blocks" using map_of_SomeD [OF assms] by force
  then show "{k \<in> fst ` set blocks. h + 1 < k} \<subset> {k \<in> fst ` set blocks. h < k}" by fastforce
qed simp

text \<open>The loops that advance a height as long as the next block of the source has the property \<open>p\<close>.\<close>

function advance_height :: "(address \<Rightarrow> bool option) \<Rightarrow> (i32 \<times> address) list \<Rightarrow> i32 \<Rightarrow> i32 option" where
  "advance_height p blocks height =
     (case map_of blocks (height + 1) of
        None \<Rightarrow> Some height
      | Some a \<Rightarrow> do { b \<leftarrow> p a; if b then advance_height p blocks (height + 1) else Some height })"
  by pat_completeness simp_all
termination
  by (relation "measure (\<lambda>(p, blocks, height). card {k \<in> fst ` set blocks. height < k})") (use keys_above_less in simp_all)

declare advance_height.simps [simp del]

definition block_received :: "address \<Rightarrow> receiver \<Rightarrow> nat \<Rightarrow> i32 \<Rightarrow> receiver option" where
  "block_received held rc sid height =
     do { s \<leftarrow> receiver_get_source rc sid;
          if src_blamed s then Some rc
          else
            do { let start = (if src_received_height s + 1 = height then height else src_received_height s);
                 received_height \<leftarrow> advance_height (\<lambda>a. if a = held then None else map_option is_initialized (block_at rc a)) (src_blocks s) start;
                 put_source rc sid (s\<lparr>src_received_height := received_height\<rparr>) } }"

definition block_delivered :: "address \<Rightarrow> receiver \<Rightarrow> nat \<Rightarrow> i32 \<Rightarrow> receiver option" where
  "block_delivered held rc sid height =
     do { s \<leftarrow> receiver_get_source rc sid;
          if src_blamed s then Some rc
          else
            do { let start = (if src_delivered_height s + 1 = height then height else src_delivered_height s);
                 delivered_height \<leftarrow> advance_height (\<lambda>a. if a = held then None else map_option is_delivered (block_at rc a)) (src_blocks s) start;
                 put_source rc sid (s\<lparr>src_delivered_height := delivered_height\<rparr>) } }"

end
