(* ===== verification/CC_Block.thy ===== *)
theory CC_Block
  imports CC_Source
begin

text \<open>
  Received blocks (\<^verbatim>\<open>received_block.rs\<close> in \<^verbatim>\<open>catchain/src\<close>): creation, initialisation, delivery, and the marking of
  the blocks that depend on a bad one. A borrow of a cell that is borrowed already is a panic; it can concern the sources
  and the previous block, which are held over calls. The blocks in progress are not met again, since blocks refer to each other
  by their hashes.
\<close>

subsection \<open>Blocks that belong to a fork\<close>

text \<open>
  \<^verbatim>\<open>set_ill\<close> marks a block and, through the reverse dependencies, every block that depends on it; the recursion of the
  code is the list of the calls that are still to be made. \<open>held\<close> are the sources that the caller has borrowed.
\<close>

definition not_ill :: "receiver \<Rightarrow> nat" where
  "not_ill rc = length (filter (\<lambda>b. rb_state b \<noteq> Ill) (rc_heap rc))"

lemma put_source_heap: "put_source rc sid s = Some rc' \<Longrightarrow> rc_heap rc' = rc_heap rc"
  by (auto simp: put_source_def)

lemma mark_as_blamed_heap: "mark_as_blamed rc sid = Some rc' \<Longrightarrow> rc_heap rc' = rc_heap rc"
  by (auto simp: mark_as_blamed_def bind_eq_Some_conv dest!: put_source_heap split: if_splits)

lemma length_filter_update:
  assumes "i < length xs" and "P (xs ! i)" and "\<not> P x"
  shows "length (filter P (xs[i := x])) < length (filter P xs)"
  using assms by (induction xs arbitrary: i) (auto simp: nth_Cons split: nat.splits)

lemma not_ill_decreases:
  assumes "block_at rc a = Some b" and "rb_state b \<noteq> Ill" and "rc_heap rc1 = rc_heap rc" and "put_block rc1 a (b\<lparr>rb_state := Ill\<rparr>) = Some rc2"
  shows "not_ill rc2 < not_ill rc"
proof -
  have "a < length (rc_heap rc)" "rc_heap rc ! a = b" using assms(1) by (simp_all add: block_at_def index_eq_Some_iff)
  moreover from this have "rc_heap rc2 = (rc_heap rc)[a := b\<lparr>rb_state := Ill\<rparr>]" using assms(3,4) by (auto simp: put_block_def)
  ultimately show ?thesis using assms(2) by (simp add: not_ill_def length_filter_update)
qed

function set_ill :: "nat list \<Rightarrow> address list \<Rightarrow> receiver \<Rightarrow> receiver option" where
  "set_ill held [] rc = Some rc"
| "set_ill held (a # as) rc =
     do { b \<leftarrow> block_at rc a;
          if rb_state b = Ill then set_ill held as rc
          else
            do { rs_assert (rb_source_id b \<notin> set held);
                 rc1 \<leftarrow> mark_as_blamed rc (rb_source_id b);
                 rc2 \<leftarrow> put_block rc1 a (b\<lparr>rb_state := Ill\<rparr>);
                 set_ill held (rb_rev_deps b @ as) rc2 } }"
  by pat_completeness simp_all
termination
proof (relation "measures [\<lambda>(held, as, rc). not_ill rc, \<lambda>(held, as, rc). length as]", goal_cases)
  case (3 held a as rc b u rc1 rc2)
  then show ?case using not_ill_decreases [OF 3(1,2) mark_as_blamed_heap [OF 3(4)] 3(5)] by simp
qed simp_all

subsection \<open>Creating and initialising blocks\<close>

definition block_id_hash :: "catchain_ext \<Rightarrow> u256 \<Rightarrow> u256 \<Rightarrow> i32 \<Rightarrow> u256 \<Rightarrow> block_hash" where
  "block_id_hash ext incarnation source_hash height data_hash =
     cx_hash ext (cx_serialize_id ext incarnation source_hash height data_hash)"

definition get_block_dependency_hash :: "catchain_ext \<Rightarrow> receiver \<Rightarrow> block_dep \<Rightarrow> block_hash option" where
  "get_block_dependency_hash ext rc dep =
     do { key \<leftarrow> get_source_key_hash rc (as_usize (bd_src dep));
          Some (block_id_hash ext (rc_incarnation rc) key (bd_height dep) (bd_data_hash dep)) }"

definition received_block_new :: received_block where
  "received_block_new = \<lparr> rb_state = Null, rb_height = 0, rb_incarnation = 0, rb_hash = 0, rb_data_hash = 0, rb_source_id = 0,
     rb_fork_id = 0, rb_prev = None, rb_next = None, rb_signature = [], rb_payload = [], rb_block_deps = [], rb_rev_deps = [],
     rb_forks_dep_heights = [], rb_pending_deps = 0, rb_in_db = False, rb_is_custom = False \<rparr>"

definition create_root :: "catchain_ext \<Rightarrow> nat \<Rightarrow> u256 \<Rightarrow> received_block" where
  "create_root ext sid incarnation = received_block_new\<lparr>rb_source_id := sid, rb_data_hash := incarnation, rb_state := Delivered,
     rb_hash := block_id_hash ext incarnation incarnation 0 incarnation, rb_incarnation := incarnation\<rparr>"

definition received_block_create :: "catchain_ext \<Rightarrow> address list \<Rightarrow> receiver \<Rightarrow> block_dep \<Rightarrow> (address \<times> receiver) option" where
  "received_block_create ext held rc dep =
     do { hash \<leftarrow> get_block_dependency_hash ext rc dep;
          let body = received_block_new\<lparr>rb_data_hash := bd_data_hash dep, rb_signature := bd_signature dep, rb_hash := hash,
            rb_source_id := as_usize (bd_src dep), rb_height := bd_height dep, rb_incarnation := rc_incarnation rc\<rparr>;
          let a = length (rc_heap rc);
          rc \<leftarrow> process_new_block ext held (rc\<lparr>rc_heap := rc_heap rc @ [body]\<rparr>) (as_usize (bd_src dep)) a;
          Some (a, rc) }"

definition create_block :: "catchain_ext \<Rightarrow> address list \<Rightarrow> receiver \<Rightarrow> block_dep \<Rightarrow> (address \<times> receiver) option" where
  "create_block ext held rc dep =
     (if bd_height dep = 0 then Some (rc_root_block rc, rc)
      else
        do { hash \<leftarrow> get_block_dependency_hash ext rc dep;
             (case rc_blocks rc hash of
                Some a \<Rightarrow> Some (a, rc)
              | None \<Rightarrow> do { (a, rc) \<leftarrow> received_block_create ext held rc dep; Some (a, rc\<lparr>rc_blocks := (rc_blocks rc)(hash \<mapsto> a)\<rparr>) }) })"

fun create_blocks :: "catchain_ext \<Rightarrow> address list \<Rightarrow> receiver \<Rightarrow> block_dep list \<Rightarrow> (address list \<times> receiver) option" where
  "create_blocks ext held rc [] = Some ([], rc)"
| "create_blocks ext held rc (dep # deps) =
     do { (a, rc) \<leftarrow> create_block ext held rc dep; (as, rc) \<leftarrow> create_blocks ext held rc deps; Some (a # as, rc) }"

definition update_forks_dependency_heights :: "i32 list \<Rightarrow> i32 list \<Rightarrow> i32 list" where
  "update_forks_dependency_heights heights actual =
     (let heights = (if length actual > length heights then resize heights (length actual) 0 else heights) in
      map (\<lambda>i. if i < length actual \<and> heights ! i < actual ! i then actual ! i else heights ! i) [0..<length heights])"

text \<open>A dependency of the block \<open>a\<close>: wait for it, or take over its heights.\<close>

definition register_dependency :: "address \<Rightarrow> address \<Rightarrow> nat \<Rightarrow> receiver \<Rightarrow> (nat \<times> receiver) option" where
  "register_dependency a d pending_deps rc =
     do { rs_assert (d \<noteq> a);
          dep \<leftarrow> block_at rc d;
          if \<not> is_delivered dep
          then do { rc \<leftarrow> put_block rc d (dep\<lparr>rb_rev_deps := rb_rev_deps dep @ [a]\<rparr>); Some (pending_deps + 1, rc) }
          else do { b \<leftarrow> block_at rc a;
                    rc \<leftarrow> put_block rc a (b\<lparr>rb_forks_dep_heights :=
                      update_forks_dependency_heights (rb_forks_dep_heights b) (rb_forks_dep_heights dep)\<rparr>);
                    Some (pending_deps, rc) } }"

fun register_dependencies :: "address \<Rightarrow> address list \<Rightarrow> nat \<Rightarrow> receiver \<Rightarrow> (nat \<times> receiver) option" where
  "register_dependencies a [] pending_deps rc = Some (pending_deps, rc)"
| "register_dependencies a (d # ds) pending_deps rc =
     do { (pending_deps, rc) \<leftarrow> register_dependency a d pending_deps rc; register_dependencies a ds pending_deps rc }"

text \<open>\<^verbatim>\<open>usize\<close> subtraction, which wraps around.\<close>

definition usize_sub :: "nat \<Rightarrow> nat \<Rightarrow> nat" where
  "usize_sub x y = (if y \<le> x then x - y else 2 ^ 64 + x - y)"

definition run_block :: "receiver \<Rightarrow> address \<Rightarrow> receiver" where
  "run_block rc a = rc\<lparr>rc_blocks_to_run := rc_blocks_to_run rc @ [a]\<rparr>"

fun any_ill :: "address \<Rightarrow> receiver \<Rightarrow> address list \<Rightarrow> bool option" where
  "any_ill a rc [] = Some False"
| "any_ill a rc (d # ds) = do { rs_assert (d \<noteq> a); dep \<leftarrow> block_at rc d; if rb_state dep = Ill then Some True else any_ill a rc ds }"

definition await_dependencies :: "receiver \<Rightarrow> address \<Rightarrow> address list \<Rightarrow> receiver option" where
  "await_dependencies rc a deps =
     do { (pending_deps, rc) \<leftarrow> register_dependencies a deps 0 rc;
          b \<leftarrow> block_at rc a;
          rc \<leftarrow> put_block rc a (b\<lparr>rb_pending_deps := pending_deps\<rparr>);
          let rc = (if pending_deps = 0 \<and> rb_in_db b then run_block rc a else rc);
          block_received a rc (rb_source_id b) (rb_height b) }"

definition check_and_await :: "receiver \<Rightarrow> address \<Rightarrow> address list \<Rightarrow> (bool \<times> receiver) option" where
  "check_and_await rc a deps =
     do { ill \<leftarrow> any_ill a rc deps;
          if ill then map_option (Pair False) (set_ill [] [a] rc) else map_option (Pair True) (await_dependencies rc a deps) }"

text \<open>The result is whether the block was initialised; an error leaves the block marked as ill.\<close>

definition initialize :: "catchain_ext \<Rightarrow> receiver \<Rightarrow> address \<Rightarrow> wire_block \<Rightarrow> bytes \<Rightarrow> (bool \<times> receiver) option" where
  "initialize ext rc a block payload =
     do { b \<leftarrow> block_at rc a;
          if rb_state b \<noteq> Null then Some (True, rc)
          else
            do { rs_assert (payload \<noteq> []);
                 (prev, rc) \<leftarrow> create_block ext [a] rc (wb_prev block);
                 (deps, rc) \<leftarrow> create_blocks ext [a] rc (wb_deps block);
                 b \<leftarrow> block_at rc a;
                 let deps = rb_block_deps b @ deps;
                 rc \<leftarrow> put_block rc a (b\<lparr>rb_payload := payload, rb_prev := Some prev, rb_block_deps := deps,
                   rb_signature := wb_signature block, rb_state := Initialized\<rparr>);
                 check_and_await rc a (prev # deps) } }"

subsection \<open>Validating blocks\<close>

text \<open>A validation returns whether the block is accepted.\<close>

definition get_source_by_hash :: "receiver \<Rightarrow> u256 \<Rightarrow> nat option" where
  "get_source_by_hash rc key_hash =
     map_of (rev (zip (rc_source_public_key_hashes rc) [0..<length (rc_sources rc)])) key_hash"

definition pre_validate_block_dependency :: "receiver \<Rightarrow> block_dep \<Rightarrow> bool" where
  "pre_validate_block_dependency rc dep \<longleftrightarrow>
     (if bd_height dep < 0 then False
      else if bd_height dep > 0 then \<not> (bd_src dep < 0 \<or> as_usize (bd_src dep) \<ge> length (rc_sources rc))
      else if bd_src dep < 0 \<or> as_usize (bd_src dep) \<noteq> length (rc_sources rc) then False
      else \<not> (bd_data_hash dep \<noteq> rc_incarnation rc \<or> length (bd_signature dep) \<noteq> 0))"

text \<open>The end of both validations: a block that is known already, or one with a good signature of its source.\<close>

definition known_or_signed :: "catchain_ext \<Rightarrow> receiver \<Rightarrow> u256 \<Rightarrow> u256 \<Rightarrow> i32 \<Rightarrow> u256 \<Rightarrow> bytes \<Rightarrow> bool option" where
  "known_or_signed ext rc incarnation key_hash height data_hash signature =
     (let serialized_block_id = cx_serialize_id ext incarnation key_hash height data_hash in
      if rc_blocks rc (cx_hash ext serialized_block_id) \<noteq> None then Some True
      else
        do { sid \<leftarrow> get_source_by_hash rc key_hash;
             s \<leftarrow> receiver_get_source rc sid;
             Some (cx_verify ext (src_public_key s) serialized_block_id signature) })"

definition validate_block_dependency :: "catchain_ext \<Rightarrow> receiver \<Rightarrow> block_dep \<Rightarrow> bool option" where
  "validate_block_dependency ext rc dep =
     (if \<not> pre_validate_block_dependency rc dep then Some False
      else if bd_height dep \<le> 0 then Some True
      else
        do { key_hash \<leftarrow> get_source_key_hash rc (as_usize (bd_src dep));
             known_or_signed ext rc (rc_incarnation rc) key_hash (bd_height dep) (bd_data_hash dep) (bd_signature dep) })"

fun validate_dependencies :: "catchain_ext \<Rightarrow> receiver \<Rightarrow> block_dep list \<Rightarrow> bool option" where
  "validate_dependencies ext rc [] = Some True"
| "validate_dependencies ext rc (dep # deps) =
     do { ok \<leftarrow> validate_block_dependency ext rc dep; if ok then validate_dependencies ext rc deps else Some False }"

fun distinct_sources :: "i32 set \<Rightarrow> block_dep list \<Rightarrow> bool" where
  "distinct_sources used [] = True"
| "distinct_sources used (dep # deps) = (if bd_src dep \<in> used then False else distinct_sources (insert (bd_src dep) used) deps)"

definition pre_validate_block :: "catchain_ext \<Rightarrow> receiver \<Rightarrow> wire_block \<Rightarrow> bytes \<Rightarrow> bool option" where
  "pre_validate_block ext rc block payload =
     (let prev = wb_prev block; count = length (rc_sources rc) in
      if wb_incarnation block \<noteq> rc_incarnation rc then Some False
      else if wb_height block \<le> 0 then Some False
      else if wb_src block < 0 \<or> as_usize (wb_src block) \<ge> count then Some False
      else if bd_src prev < 0 then Some False
      else if length (wb_deps block) > rc_max_deps rc then Some False
      else if wb_height block > 1 \<and> as_usize (bd_src prev) \<noteq> as_usize (wb_src block) then Some False
      else if \<not> wb_height block > 1 \<and> as_usize (bd_src prev) \<noteq> count then Some False
      else if bd_height prev + 1 \<noteq> wb_height block then Some False
      else if \<not> distinct_sources {wb_src block} (wb_deps block) then Some False
      else
        do { ok \<leftarrow> validate_block_dependency ext rc prev;
             if \<not> ok then Some False
             else do { ok \<leftarrow> validate_dependencies ext rc (wb_deps block);
                       if \<not> ok then Some False else Some (payload \<noteq> []) } })"

definition get_block_id_hash :: "catchain_ext \<Rightarrow> receiver \<Rightarrow> wire_block \<Rightarrow> bytes \<Rightarrow> block_hash option" where
  "get_block_id_hash ext rc block payload =
     do { key_hash \<leftarrow> get_source_key_hash rc (as_usize (wb_src block));
          Some (block_id_hash ext (wb_incarnation block) key_hash (wb_height block) (cx_hash ext payload)) }"

definition validate_block_with_payload :: "catchain_ext \<Rightarrow> receiver \<Rightarrow> wire_block \<Rightarrow> bytes \<Rightarrow> bool option" where
  "validate_block_with_payload ext rc block payload =
     do { ok \<leftarrow> pre_validate_block ext rc block payload;
          if \<not> ok then Some False
          else if wb_height block \<le> 0 then Some True
          else
            do { key_hash \<leftarrow> get_source_key_hash rc (as_usize (wb_src block));
                 known_or_signed ext rc (wb_incarnation block) key_hash (wb_height block) (cx_hash ext payload) (wb_signature block) } }"

subsection \<open>Delivering blocks\<close>

definition initialize_fork :: "receiver \<Rightarrow> address \<Rightarrow> receiver option" where
  "initialize_fork rc a =
     do { b \<leftarrow> block_at rc a;
          rs_assert (rb_state b = Initialized);
          rs_assert (rb_fork_id b = 0);
          (fork_id, rc) \<leftarrow>
            (if rb_height b = 1 then source_add_fork rc (rb_source_id b)
             else
               do { p \<leftarrow> rb_prev b;
                    prev \<leftarrow> block_at rc p;
                    if rb_next prev \<noteq> None then source_add_fork rc (rb_source_id b)
                    else do { rc \<leftarrow> put_block rc p (prev\<lparr>rb_next := Some a\<rparr>); Some (rb_fork_id prev, rc) } });
          let heights = rb_forks_dep_heights b;
          let heights = (if length heights < fork_id + 1 then resize heights (fork_id + 1) 0 else heights);
          rs_assert (heights ! fork_id < rb_height b);
          put_block rc a (b\<lparr>rb_fork_id := fork_id, rb_forks_dep_heights := heights[fork_id := rb_height b]\<rparr>) }"

text \<open>
  Whether the previous block, with the heights \<open>heights\<close>, has seen another fork of the blamed source of the dependency, or
  a block that blamed it.
\<close>

definition sees_other_fork :: "i32 list \<Rightarrow> nat \<Rightarrow> nat list \<Rightarrow> bool" where
  "sees_other_fork heights fork_id fork_ids \<longleftrightarrow>
     (\<exists>f \<in> set fork_ids. \<not> (f = fork_id \<or> length heights \<le> f \<or> heights ! f = 0))"

definition sees_blame :: "i32 list \<Rightarrow> i32 list \<Rightarrow> bool" where
  "sees_blame heights blamed_heights \<longleftrightarrow>
     (\<exists>f \<in> set [0..<min (length blamed_heights) (length heights)]. \<not> (blamed_heights ! f = 0 \<or> heights ! f < blamed_heights ! f))"

text \<open>
  The checks of one dependency after the other; the result tells whether the block turned out to be ill. The previous block and the
  source of the dependency are borrowed meanwhile, and a warning reads the previous block.
\<close>

fun check_dependencies :: "catchain_ext \<Rightarrow> address \<Rightarrow> address \<Rightarrow> address list \<Rightarrow> receiver \<Rightarrow> (bool \<times> receiver) option" where
  "check_dependencies ext a p [] rc = Some (False, rc)"
| "check_dependencies ext a p (d # ds) rc =
     do { b \<leftarrow> block_at rc a;
          prev \<leftarrow> block_at rc p;
          let heights = rb_forks_dep_heights prev;
          rs_assert (d \<noteq> p);
          dep \<leftarrow> block_at rc d;
          s \<leftarrow> receiver_get_source rc (rb_source_id dep);
          if rb_fork_id dep < length heights \<and> rb_height dep \<le> heights ! rb_fork_id dep
          then do { rs_assert (\<not> cx_log_warn ext);
                    rc \<leftarrow> set_ill [rb_source_id dep] [a] rc;
                    Some (True, rc) }
          else if \<not> src_blamed s then check_dependencies ext a p ds rc
          else if sees_other_fork heights (rb_fork_id dep) (src_fork_ids s) \<or> sees_blame heights (src_blamed_heights s)
          then do { rs_assert (\<not> cx_log_warn ext);
                    rs_assert (rb_source_id b \<noteq> rb_source_id dep);
                    rc \<leftarrow> source_blame rc (rb_source_id b) (rb_fork_id b) (rb_height b);
                    rc \<leftarrow> set_ill [rb_source_id dep] [a] rc;
                    Some (True, rc) }
          else check_dependencies ext a p ds rc }"

text \<open>A proof of a fork in the payload of the block.\<close>

definition is_fork_proof :: "block_dep \<Rightarrow> block_dep \<Rightarrow> bool" where
  "is_fork_proof left right \<longleftrightarrow>
     \<not> (bd_height left \<noteq> bd_height right \<or> bd_src left \<noteq> bd_src right \<or> bd_data_hash left = bd_data_hash right)"

definition accept_fork_proof :: "receiver \<Rightarrow> block_dep \<Rightarrow> block_dep \<Rightarrow> receiver option" where
  "accept_fork_proof rc left right =
     do { rc \<leftarrow> set_fork_proof rc (as_usize (bd_src left)) (left, right);
          mark_as_blamed rc (as_usize (bd_src left)) }"

definition set_custom :: "receiver \<Rightarrow> address \<Rightarrow> receiver option" where
  "set_custom rc a = do { b \<leftarrow> block_at rc a; put_block rc a (b\<lparr>rb_is_custom := True\<rparr>) }"

definition check_payload :: "catchain_ext \<Rightarrow> receiver \<Rightarrow> address \<Rightarrow> receiver option" where
  "check_payload ext rc a =
     do { b \<leftarrow> block_at rc a;
          (case cx_parse_data ext (rb_payload b) of
             Some (DataFork left right) \<Rightarrow>
               do { ok \<leftarrow> validate_block_dependency ext rc left;
                    if \<not> ok then set_ill [] [a] rc
                    else
                      do { ok \<leftarrow> validate_block_dependency ext rc right;
                           if \<not> ok then set_ill [] [a] rc
                           else if \<not> is_fork_proof left right then set_ill [] [a] rc
                           else accept_fork_proof rc left right } }
           | Some DataNop \<Rightarrow> Some rc
           | Some DataBadBlock \<Rightarrow> Some rc
           | Some DataOther \<Rightarrow> set_custom rc a
           | None \<Rightarrow> set_custom rc a) }"

definition pre_deliver :: "catchain_ext \<Rightarrow> receiver \<Rightarrow> address \<Rightarrow> receiver option" where
  "pre_deliver ext rc a =
     do { b \<leftarrow> block_at rc a;
          if rb_state b = Ill then Some rc
          else
            do { rs_assert (rb_state b = Initialized);
                 rs_assert (rb_pending_deps b = 0);
                 rs_assert (rb_in_db b);
                 receiver_get_source rc (rb_source_id b);
                 (ill, rc) \<leftarrow> (case rb_prev b of
                    None \<Rightarrow> Some (False, rc)
                  | Some p \<Rightarrow> do { rs_assert (p \<noteq> a); check_dependencies ext a p (rb_block_deps b) rc });
                 if ill then Some rc else check_payload ext rc a } }"

fun get_hashes :: "receiver \<Rightarrow> address list \<Rightarrow> block_hash list option" where
  "get_hashes rc [] = Some []"
| "get_hashes rc (d # ds) = do { dep \<leftarrow> block_at rc d; hs \<leftarrow> get_hashes rc ds; Some (rb_hash dep # hs) }"

text \<open>The notification of the listener; what is sent to the neighbours does not change the state.\<close>

definition deliver_block :: "receiver \<Rightarrow> received_block \<Rightarrow> receiver option" where
  "deliver_block rc b =
     do { prev_hash \<leftarrow> (case rb_prev b of None \<Rightarrow> Some 0 | Some p \<Rightarrow> map_option rb_hash (block_at rc p));
          dep_hashes \<leftarrow> get_hashes rc (rb_block_deps b);
          Some (rc\<lparr>rc_calls := rc_calls rc @
            [OnNewBlock (rb_source_id b) (rb_fork_id b) (rb_hash b) (rb_height b) prev_hash dep_hashes (rb_forks_dep_heights b)
              (if rb_is_custom b then rb_payload b else [])]\<rparr>) }"

definition dependency_delivered :: "receiver \<Rightarrow> address \<Rightarrow> received_block \<Rightarrow> receiver option" where
  "dependency_delivered rc a dep =
     do { b \<leftarrow> block_at rc a;
          if rb_state b = Ill then Some rc
          else
            do { rs_assert (rb_state dep \<noteq> Ill);
                 let pending_deps = usize_sub (rb_pending_deps b) 1;
                 rc \<leftarrow> put_block rc a (b\<lparr>rb_forks_dep_heights :=
                    update_forks_dependency_heights (rb_forks_dep_heights b) (rb_forks_dep_heights dep), rb_pending_deps := pending_deps\<rparr>);
                 Some (if pending_deps = 0 \<and> rb_in_db b then run_block rc a else rc) } }"

fun dependencies_delivered :: "receiver \<Rightarrow> address \<Rightarrow> address list \<Rightarrow> received_block \<Rightarrow> receiver option" where
  "dependencies_delivered rc a [] b = Some rc"
| "dependencies_delivered rc a (r # rs) b =
     do { rs_assert (r \<noteq> a); rc \<leftarrow> dependency_delivered rc r b; dependencies_delivered rc a rs b }"

definition deliver :: "receiver \<Rightarrow> address \<Rightarrow> receiver option" where
  "deliver rc a =
     do { b \<leftarrow> block_at rc a;
          if rb_state b = Ill then Some rc
          else
            do { rs_assert (rb_state b = Initialized);
                 rs_assert (rb_pending_deps b = 0);
                 rs_assert (rb_in_db b);
                 rc \<leftarrow> deliver_block rc b;
                 let b = b\<lparr>rb_state := Delivered\<rparr>;
                 rc \<leftarrow> put_block rc a b;
                 rc \<leftarrow> dependencies_delivered rc a (rb_rev_deps b) b;
                 rc \<leftarrow> put_block rc a (b\<lparr>rb_rev_deps := []\<rparr>);
                 block_delivered a rc (rb_source_id b) (rb_height b) } }"

definition process :: "catchain_ext \<Rightarrow> receiver \<Rightarrow> address \<Rightarrow> receiver option" where
  "process ext rc a =
     do { b \<leftarrow> block_at rc a;
          if rb_state b \<noteq> Initialized then Some rc
          else
            do { rs_assert (rb_pending_deps b = 0);
                 rs_assert (rb_in_db b);
                 rc \<leftarrow> initialize_fork rc a;
                 rc \<leftarrow> pre_deliver ext rc a;
                 deliver rc a } }"

definition written :: "receiver \<Rightarrow> address \<Rightarrow> receiver option" where
  "written rc a =
     do { b \<leftarrow> block_at rc a;
          if rb_in_db b then Some rc
          else do { rc \<leftarrow> put_block rc a (b\<lparr>rb_in_db := True\<rparr>);
                    Some (if rb_pending_deps b = 0 then run_block rc a else rc) } }"

end
