(* ===== verification/CC_Graph.thy ===== *)
theory CC_Graph
  imports CC_Block
begin

text \<open>
  The graph of the received blocks: an abstraction of the receiver that keeps the links, states and counters of the blocks, the
  queue of the scheduler and the blocks that were delivered, and forgets the sources and the forks. Each operation on blocks
  is described by what it does to the graph.
\<close>

subsection \<open>The abstraction\<close>

record node =
  nd_state :: received_block_state
  nd_prev :: "address option"
  nd_deps :: "address list"
  nd_rev_deps :: "address list"
  nd_pending :: nat
  nd_in_db :: bool
  nd_hash :: block_hash

record graph =
  gr_nodes :: "node list"
  gr_queue :: "address list"
  gr_blocks :: "block_hash \<rightharpoonup> address"
  gr_root :: address
  gr_posted :: "posted list"
  gr_incarnation :: u256
  gr_events :: "listener_call list"

definition node_of :: "received_block \<Rightarrow> node" where
  "node_of b = \<lparr> nd_state = rb_state b, nd_prev = rb_prev b, nd_deps = rb_block_deps b, nd_rev_deps = rb_rev_deps b,
     nd_pending = rb_pending_deps b, nd_in_db = rb_in_db b, nd_hash = rb_hash b \<rparr>"

fun is_delivery :: "listener_call \<Rightarrow> bool" where
  "is_delivery (OnBlame sid) = False"
| "is_delivery (OnNewBlock sid fork_id hash height prev deps heights payload) = True"

definition graph_of :: "receiver \<Rightarrow> graph" where
  "graph_of rc = \<lparr> gr_nodes = map node_of (rc_heap rc), gr_queue = rc_blocks_to_run rc, gr_blocks = rc_blocks rc,
     gr_root = rc_root_block rc, gr_posted = rc_posted rc,
     gr_incarnation = rc_incarnation rc, gr_events = filter is_delivery (rc_calls rc) \<rparr>"

definition node_deps :: "node \<Rightarrow> address list" where
  "node_deps n = (case nd_prev n of None \<Rightarrow> [] | Some p \<Rightarrow> p # nd_deps n)"

lemma node_of_simps [simp]:
  "nd_state (node_of b) = rb_state b" "nd_prev (node_of b) = rb_prev b" "nd_deps (node_of b) = rb_block_deps b"
  "nd_rev_deps (node_of b) = rb_rev_deps b" "nd_pending (node_of b) = rb_pending_deps b" "nd_in_db (node_of b) = rb_in_db b"
  "nd_hash (node_of b) = rb_hash b"
  by (simp_all add: node_of_def)

lemma graph_of_simps [simp]:
  "gr_nodes (graph_of rc) = map node_of (rc_heap rc)" "gr_queue (graph_of rc) = rc_blocks_to_run rc"
  "gr_blocks (graph_of rc) = rc_blocks rc" "gr_root (graph_of rc) = rc_root_block rc" "gr_posted (graph_of rc) = rc_posted rc"
  "gr_incarnation (graph_of rc) = rc_incarnation rc"
  "gr_events (graph_of rc) = filter is_delivery (rc_calls rc)"
  by (simp_all add: graph_of_def)

lemma graph_of_unrelated [simp]:
  "graph_of (rc\<lparr>rc_sources := x1\<rparr>) = graph_of rc" "graph_of (rc\<lparr>rc_total_forks := x2\<rparr>) = graph_of rc"
  "graph_of (rc\<lparr>rc_pending_blocks := x3\<rparr>) = graph_of rc" "graph_of (rc\<lparr>rc_calls := rc_calls rc @ [OnBlame sid]\<rparr>) = graph_of rc"
  "graph_of (rc\<lparr>rc_last_sent_block := x4\<rparr>) = graph_of rc" "graph_of (rc\<lparr>rc_active_send := x5\<rparr>) = graph_of rc"
  "graph_of (rc\<lparr>rc_pending_in_db := x6\<rparr>) = graph_of rc" "graph_of (rc\<lparr>rc_read_db := x7\<rparr>) = graph_of rc"
  "graph_of (rc\<lparr>rc_db_root_block := x8\<rparr>) = graph_of rc"
  by (simp_all add: graph_of_def)

definition put_node :: "graph \<Rightarrow> address \<Rightarrow> node \<Rightarrow> graph" where
  "put_node G a n = G\<lparr>gr_nodes := (gr_nodes G)[a := n]\<rparr>"

lemma block_at_node:
  assumes "block_at rc a = Some b"
  shows "a < length (rc_heap rc)" and "rc_heap rc ! a = b" and "gr_nodes (graph_of rc) ! a = node_of b"
  using assms by (simp_all add: block_at_def index_eq_Some_iff)

lemma graph_put_block: "put_block rc a b = Some rc' \<Longrightarrow> graph_of rc' = put_node (graph_of rc) a (node_of b) \<and> a < length (rc_heap rc)"
  by (auto simp: put_block_def index_set_eq_Some_iff put_node_def graph_of_def map_update)

lemma put_same_node:
  assumes "block_at rc a = Some b" and "node_of b' = node_of b"
  shows "put_node (graph_of rc) a (node_of b') = graph_of rc"
proof -
  have "(gr_nodes (graph_of rc))[a := node_of b'] = gr_nodes (graph_of rc)"
    unfolding assms(2) block_at_node(3) [OF assms(1), symmetric] by (rule list_update_id)
  then show ?thesis unfolding put_node_def by (rule ssubst) simp
qed

lemma graph_put_same:
  assumes "put_block rc a b' = Some rc'" and "block_at rc a = Some b" and "node_of b' = node_of b"
  shows "graph_of rc' = graph_of rc"
  using graph_put_block [OF assms(1)] put_same_node [OF assms(2,3)] by simp

subsection \<open>Operations on sources keep the graph\<close>

lemma graph_put_source: "put_source rc sid s = Some rc' \<Longrightarrow> graph_of rc' = graph_of rc"
  by (auto simp: put_source_def)

lemma graph_mark_as_blamed: "mark_as_blamed rc sid = Some rc' \<Longrightarrow> graph_of rc' = graph_of rc"
  by (auto simp: mark_as_blamed_def bind_eq_Some_conv dest!: graph_put_source split: if_splits)

lemma graph_set_fork_proof: "set_fork_proof rc sid pr = Some rc' \<Longrightarrow> graph_of rc' = graph_of rc"
  by (auto simp: set_fork_proof_def bind_eq_Some_conv dest!: graph_put_source split: if_splits)

lemma graph_process_new_block: "process_new_block ext held rc sid a = Some rc' \<Longrightarrow> graph_of rc' = graph_of rc"
  by (auto simp: process_new_block_def bind_eq_Some_conv Let_def dest!: graph_put_source graph_set_fork_proof graph_mark_as_blamed
      split: if_splits option.splits)

lemma graph_source_add_fork: "source_add_fork rc sid = Some (f, rc') \<Longrightarrow> graph_of rc' = graph_of rc"
  by (auto simp: source_add_fork_def bind_eq_Some_conv Let_def dest!: graph_put_source graph_mark_as_blamed split: if_splits)

lemma graph_source_blame: "source_blame rc sid f h = Some rc' \<Longrightarrow> graph_of rc' = graph_of rc"
  unfolding source_blame_def Let_def bind_eq_Some_conv by (elim exE conjE) (drule graph_put_source, drule graph_mark_as_blamed, simp)

lemma graph_block_received: "block_received held rc sid h = Some rc' \<Longrightarrow> graph_of rc' = graph_of rc"
  unfolding block_received_def Let_def by (fastforce simp: bind_eq_Some_conv dest!: graph_put_source split: if_splits)

lemma graph_block_delivered: "block_delivered held rc sid h = Some rc' \<Longrightarrow> graph_of rc' = graph_of rc"
  unfolding block_delivered_def Let_def by (fastforce simp: bind_eq_Some_conv dest!: graph_put_source split: if_splits)

subsection \<open>Changes of the graph\<close>

definition null_node :: "block_hash \<Rightarrow> node" where
  "null_node h = \<lparr> nd_state = Null, nd_prev = None, nd_deps = [], nd_rev_deps = [], nd_pending = 0, nd_in_db = False, nd_hash = h \<rparr>"

definition add_node :: "graph \<Rightarrow> node \<Rightarrow> graph" where
  "add_node G n = G\<lparr>gr_nodes := gr_nodes G @ [n]\<rparr>"

definition register_node :: "graph \<Rightarrow> block_hash \<Rightarrow> address \<Rightarrow> graph" where
  "register_node G h a = G\<lparr>gr_blocks := (gr_blocks G)(h \<mapsto> a)\<rparr>"

text \<open>Placeholders for blocks that are not known yet.\<close>

inductive grows :: "graph \<Rightarrow> graph \<Rightarrow> bool" where
  same: "grows G G"
| more: "grows G G' \<Longrightarrow> gr_blocks G' h = None \<Longrightarrow>
    grows G (register_node (add_node G' (null_node h)) h (length (gr_nodes G')))"

definition update_nodes :: "(address \<Rightarrow> node \<Rightarrow> node) \<Rightarrow> graph \<Rightarrow> graph" where
  "update_nodes f G = G\<lparr>gr_nodes := map (\<lambda>i. f i (gr_nodes G ! i)) [0..<length (gr_nodes G)]\<rparr>"

lemma graph_change_simps [simp]:
  "gr_nodes (put_node G a n) = (gr_nodes G)[a := n]" "gr_queue (put_node G a n) = gr_queue G"
  "gr_blocks (put_node G a n) = gr_blocks G" "gr_root (put_node G a n) = gr_root G" "gr_posted (put_node G a n) = gr_posted G"
  "gr_events (put_node G a n) = gr_events G" "gr_incarnation (put_node G a n) = gr_incarnation G"
  "gr_nodes (add_node G n) = gr_nodes G @ [n]" "gr_queue (add_node G n) = gr_queue G"
  "gr_blocks (add_node G n) = gr_blocks G" "gr_root (add_node G n) = gr_root G" "gr_posted (add_node G n) = gr_posted G"
  "gr_events (add_node G n) = gr_events G" "gr_incarnation (add_node G n) = gr_incarnation G"
  "gr_nodes (register_node G h a) = gr_nodes G" "gr_queue (register_node G h a) = gr_queue G"
  "gr_blocks (register_node G h a) = (gr_blocks G)(h \<mapsto> a)" "gr_root (register_node G h a) = gr_root G"
  "gr_posted (register_node G h a) = gr_posted G" "gr_events (register_node G h a) = gr_events G" "gr_incarnation (register_node G h a) = gr_incarnation G"
  "length (gr_nodes (update_nodes f G)) = length (gr_nodes G)" "gr_queue (update_nodes f G) = gr_queue G"
  "gr_blocks (update_nodes f G) = gr_blocks G" "gr_root (update_nodes f G) = gr_root G" "gr_posted (update_nodes f G) = gr_posted G"
  "gr_events (update_nodes f G) = gr_events G" "gr_incarnation (update_nodes f G) = gr_incarnation G"
  by (simp_all add: put_node_def add_node_def register_node_def update_nodes_def)

lemma nth_update_nodes [simp]: "i < length (gr_nodes G) \<Longrightarrow> gr_nodes (update_nodes f G) ! i = f i (gr_nodes G ! i)"
  by (simp add: update_nodes_def)

lemma graph_eqI:
  assumes "length (gr_nodes G) = length (gr_nodes G')" and "\<And>i. i < length (gr_nodes G') \<Longrightarrow> gr_nodes G ! i = gr_nodes G' ! i"
    and "gr_queue G = gr_queue G'" and "gr_blocks G = gr_blocks G'" and "gr_root G = gr_root G'" and "gr_posted G = gr_posted G'"
    and "gr_events G = gr_events G'" and "gr_incarnation G = gr_incarnation G'"
  shows "G = (G' :: graph)"
  using nth_equalityI [OF assms(1)] assms by (intro graph.equality) simp_all

text \<open>The blocks that are marked when those of \<open>as\<close> are: they depend on one of them through blocks that are not ill yet.\<close>

inductive_set dependants :: "node list \<Rightarrow> address list \<Rightarrow> address set" for N as where
  start: "a \<in> set as \<Longrightarrow> nd_state (N ! a) \<noteq> Ill \<Longrightarrow> a \<in> dependants N as"
| rev_dep: "d \<in> dependants N as \<Longrightarrow> r \<in> set (nd_rev_deps (N ! d)) \<Longrightarrow> nd_state (N ! r) \<noteq> Ill \<Longrightarrow> r \<in> dependants N as"

definition ill_node :: "address set \<Rightarrow> address \<Rightarrow> node \<Rightarrow> node" where
  "ill_node D i n = (if i \<in> D then n\<lparr>nd_state := Ill\<rparr> else n)"

lemma dependants_not_ill: "x \<in> dependants N as \<Longrightarrow> nd_state (N ! x) \<noteq> Ill"
  by (induction rule: dependants.induct)

lemma dependants_skip: "nd_state (N ! a) = Ill \<Longrightarrow> dependants N (a # as) = dependants N as"
proof (intro equalityI subsetI)
  show "x \<in> dependants N as" if "x \<in> dependants N (a # as)" and "nd_state (N ! a) = Ill" for x
    using that(1) by (induction rule: dependants.induct) (use that(2) in \<open>auto intro: dependants.intros\<close>)
  show "x \<in> dependants N (a # as)" if "x \<in> dependants N as" for x
    using that by (induction rule: dependants.induct) (auto intro: dependants.intros)
qed

lemma dependants_mark:
  assumes "a < length N" and "nd_state (N ! a) \<noteq> Ill"
  defines "N' \<equiv> N[a := (N ! a)\<lparr>nd_state := Ill\<rparr>]"
  shows "dependants N (a # as) = insert a (dependants N' (nd_rev_deps (N ! a) @ as))"
proof (intro equalityI subsetI)
  have same: "nd_rev_deps (N' ! i) = nd_rev_deps (N ! i)" "i \<noteq> a \<Longrightarrow> nd_state (N' ! i) = nd_state (N ! i)" for i
    using assms(1) by (cases "i = a"; simp add: N'_def)+
  show "x \<in> insert a (dependants N' (nd_rev_deps (N ! a) @ as))" if "x \<in> dependants N (a # as)" for x
    using that
  proof (induction rule: dependants.induct)
    case (start x) then show ?case by (cases "x = a") (auto intro!: dependants.start simp: same)
  next
    case (rev_dep d r)
    then show ?case by (cases "r = a"; cases "d = a") (auto intro: dependants.intros simp: same)
  qed
  show "x \<in> dependants N (a # as)" if "x \<in> insert a (dependants N' (nd_rev_deps (N ! a) @ as))" for x
  proof -
    have a: "a \<in> dependants N (a # as)" using assms(2) by (auto intro: dependants.start)
    have other: "nd_state (N ! i) \<noteq> Ill" if "nd_state (N' ! i) \<noteq> Ill" for i
      using that same(2) [of i] assms(2) by (cases "i = a") auto
    have "x \<in> dependants N (a # as)" if "x \<in> dependants N' (nd_rev_deps (N ! a) @ as)"
      using that
    proof (induction rule: dependants.induct)
      case (start x) then show ?case using other dependants.rev_dep [OF a] by (auto intro: dependants.start)
    next
      case (rev_dep d r) then show ?case using other by (auto intro: dependants.rev_dep simp: same)
    qed
    then show ?thesis using that a by blast
  qed
qed

lemma update_nodes_same: "(\<And>i. i < length (gr_nodes G) \<Longrightarrow> f i (gr_nodes G ! i) = gr_nodes G ! i) \<Longrightarrow> update_nodes f G = G"
  by (rule graph_eqI) simp_all

lemma dependants_nil [simp]: "dependants N [] = {}"
proof -
  have False if "x \<in> dependants N []" for x using that by (induction rule: dependants.induct) auto
  then show ?thesis by blast
qed

text \<open>\<^verbatim>\<open>set_ill\<close> marks exactly the dependants.\<close>

lemma graph_set_ill:
  "set_ill held as rc = Some rc' \<Longrightarrow> graph_of rc' = update_nodes (ill_node (dependants (gr_nodes (graph_of rc)) as)) (graph_of rc)"
proof (induction held as rc arbitrary: rc' rule: set_ill.induct)
  case (1 held rc)
  then show ?case by (simp add: update_nodes_same ill_node_def)
next
  case (2 held a as rc)
  from "2.prems" obtain b where b: "block_at rc a = Some b" by (auto simp: bind_eq_Some_conv)
  note node = block_at_node [OF b]
  show ?case
  proof (cases "rb_state b = Ill")
    case True
    then have "set_ill held as rc = Some rc'" using "2.prems" b by simp
    from "2.IH"(1) [OF b True this] show ?thesis using True node dependants_skip by (simp add: dependants_skip)
  next
    case False
    with "2.prems" b obtain rc1 rc2 where held: "rb_source_id b \<notin> set held" and m: "mark_as_blamed rc (rb_source_id b) = Some rc1"
      and p: "put_block rc1 a (b\<lparr>rb_state := Ill\<rparr>) = Some rc2" and r: "set_ill held (rb_rev_deps b @ as) rc2 = Some rc'"
      by (auto simp: bind_eq_Some_conv)
    let ?N = "gr_nodes (graph_of rc)"
    have ill: "node_of (b\<lparr>rb_state := Ill\<rparr>) = (?N ! a)\<lparr>nd_state := Ill\<rparr>" unfolding node(3) by (simp add: node_of_def)
    have G2: "graph_of rc2 = put_node (graph_of rc) a ((?N ! a)\<lparr>nd_state := Ill\<rparr>)"
      using graph_put_block [OF p] graph_mark_as_blamed [OF m] ill by simp
    have len: "a < length ?N" and st: "nd_state (?N ! a) \<noteq> Ill" and rev: "rb_rev_deps b = nd_rev_deps (?N ! a)"
      using node False by simp_all
    have D: "dependants ?N (a # as) = insert a (dependants (gr_nodes (graph_of rc2)) (rb_rev_deps b @ as))"
      unfolding G2 rev graph_change_simps by (rule dependants_mark [OF len st])
    have "rs_assert (rb_source_id b \<notin> set held) = Some ()" using held by simp
    from "2.IH"(2) [OF b False this m p r]
    have "graph_of rc' = update_nodes (ill_node (dependants (gr_nodes (graph_of rc2)) (rb_rev_deps b @ as))) (graph_of rc2)" .
    also have "\<dots> = update_nodes (ill_node (dependants ?N (a # as))) (graph_of rc)"
      unfolding D unfolding G2 using len by (intro graph_eqI) (simp_all add: ill_node_def nth_list_update)
    finally show ?thesis .
  qed
qed

declare set_ill.simps [simp del]

subsection \<open>What the operations on blocks do\<close>

lemma graph_create_block:
  assumes "create_block ext held rc dep = Some (a, rc')"
  shows "grows (graph_of rc) (graph_of rc') \<and> (a = gr_root (graph_of rc') \<or> (\<exists>h. gr_blocks (graph_of rc') h = Some a))"
proof (cases "bd_height dep = 0")
  case True
  then show ?thesis using assms by (auto simp: create_block_def intro: grows.same)
next
  case False
  with assms obtain h where h: "get_block_dependency_hash ext rc dep = Some h" by (auto simp: create_block_def bind_eq_Some_conv)
  show ?thesis
  proof (cases "rc_blocks rc h")
    case (Some a')
    then show ?thesis using assms False h by (auto simp: create_block_def intro: grows.same)
  next
    case None
    then obtain rc1 where r: "received_block_create ext held rc dep = Some (a, rc1)" and rc': "rc' = rc1\<lparr>rc_blocks := (rc_blocks rc1)(h \<mapsto> a)\<rparr>"
      using assms False h by (auto simp: create_block_def bind_eq_Some_conv)
    from r h have a: "a = length (rc_heap rc)" and g: "graph_of rc1 = add_node (graph_of rc) (null_node h)"
      unfolding received_block_create_def Let_def
      by (auto simp: bind_eq_Some_conv graph_of_def add_node_def null_node_def node_of_def received_block_new_def dest!: graph_process_new_block)
    have "graph_of rc' = register_node (graph_of rc1) h a" unfolding rc' by (simp add: graph_of_def register_node_def)
    then have "grows (graph_of rc) (graph_of rc')" and "gr_blocks (graph_of rc') h = Some a"
      using grows.more [OF grows.same, of "graph_of rc" h] None unfolding g a by simp_all
    then show ?thesis by blast
  qed
qed

lemma grows_trans: "grows G G' \<Longrightarrow> grows G' G'' \<Longrightarrow> grows G G''"
  by (rotate_tac, induction rule: grows.induct) (auto intro: grows.intros)

lemma grows_keeps:
  assumes "grows G G'"
  shows "gr_root G' = gr_root G \<and> gr_queue G' = gr_queue G \<and> gr_posted G' = gr_posted G \<and> gr_events G' = gr_events G \<and>
    gr_incarnation G' = gr_incarnation G \<and> length (gr_nodes G) \<le> length (gr_nodes G') \<and> gr_blocks G \<subseteq>\<^sub>m gr_blocks G' \<and>
    (\<forall>i < length (gr_nodes G). gr_nodes G' ! i = gr_nodes G ! i)"
  using assms by (induction rule: grows.induct) (fastforce simp: nth_append map_le_def dom_def)+

lemma graph_create_blocks:
  assumes "create_blocks ext held rc deps = Some (as, rc')"
  shows "grows (graph_of rc) (graph_of rc') \<and> (\<forall>a \<in> set as. a = gr_root (graph_of rc') \<or> (\<exists>h. gr_blocks (graph_of rc') h = Some a))"
  using assms
proof (induction deps arbitrary: rc as)
  case Nil
  then show ?case by (auto intro: grows.same)
next
  case (Cons dep deps)
  then obtain a rc1 bs where c: "create_block ext held rc dep = Some (a, rc1)" and r: "create_blocks ext held rc1 deps = Some (bs, rc')"
    and as: "as = a # bs" by (auto simp: bind_eq_Some_conv)
  note one = graph_create_block [OF c]
  note rest = Cons.IH [OF r]
  note kept = grows_keeps [OF conjunct1 [OF rest]]
  have "a = gr_root (graph_of rc') \<or> (\<exists>h. gr_blocks (graph_of rc') h = Some a)"
    using one kept map_le_def by (metis domI)
  then show ?case using grows_trans one rest as by auto
qed

definition rev_dep_node :: "address \<Rightarrow> address list \<Rightarrow> address \<Rightarrow> node \<Rightarrow> node" where
  "rev_dep_node a ds i n = n\<lparr>nd_rev_deps := nd_rev_deps n @ replicate (if nd_state n = Delivered then 0 else count_list ds i) a\<rparr>"

lemma graph_register_dependency:
  assumes "register_dependency a d p rc = Some (q, rc')"
  shows "d \<noteq> a" and "d < length (rc_heap rc)" and "graph_of rc' = update_nodes (rev_dep_node a [d]) (graph_of rc)"
    and "q = p + (if nd_state (gr_nodes (graph_of rc) ! d) \<noteq> Delivered then 1 else 0)"
proof -
  from assms obtain dep where d: "block_at rc d = Some dep" and "d \<noteq> a" by (auto simp: register_dependency_def bind_eq_Some_conv)
  note node = block_at_node [OF d]
  show "d \<noteq> a" "d < length (rc_heap rc)" using \<open>d \<noteq> a\<close> node by simp_all
  show "q = p + (if nd_state (gr_nodes (graph_of rc) ! d) \<noteq> Delivered then 1 else 0)"
    using assms d \<open>d \<noteq> a\<close> node(3) by (auto simp: register_dependency_def bind_eq_Some_conv is_delivered_def split: if_splits)
  show "graph_of rc' = update_nodes (rev_dep_node a [d]) (graph_of rc)"
  proof (cases "rb_state dep = Delivered")
    case True
    with assms d obtain b hs where b: "block_at rc a = Some b" and p: "put_block rc a (b\<lparr>rb_forks_dep_heights := hs\<rparr>) = Some rc'"
      by (auto simp: register_dependency_def bind_eq_Some_conv is_delivered_def split: if_splits)
    have "graph_of rc' = graph_of rc" by (rule graph_put_same [OF p b]) (simp add: node_of_def)
    also have "\<dots> = update_nodes (rev_dep_node a [d]) (graph_of rc)"
      using True node by (intro update_nodes_same [symmetric]) (auto simp: rev_dep_node_def)
    finally show ?thesis .
  next
    case False
    with assms d have "put_block rc d (dep\<lparr>rb_rev_deps := rb_rev_deps dep @ [a]\<rparr>) = Some rc'"
      by (auto simp: register_dependency_def bind_eq_Some_conv is_delivered_def split: if_splits)
    from graph_put_block [OF this] show ?thesis using False node
      by (intro graph_eqI) (auto simp: rev_dep_node_def nth_list_update node_of_def)
  qed
qed

lemma graph_register_dependencies:
  assumes "register_dependencies a ds p rc = Some (q, rc')"
  shows "a \<notin> set ds \<and> set ds \<subseteq> {..<length (rc_heap rc)} \<and> graph_of rc' = update_nodes (rev_dep_node a ds) (graph_of rc) \<and>
    q = p + length (filter (\<lambda>d. nd_state (gr_nodes (graph_of rc) ! d) \<noteq> Delivered) ds)"
  using assms
proof (induction ds arbitrary: p rc)
  case Nil
  then show ?case by (auto simp: rev_dep_node_def intro!: update_nodes_same [symmetric])
next
  case (Cons d ds)
  then obtain p1 rc1 where r: "register_dependency a d p rc = Some (p1, rc1)" and rs: "register_dependencies a ds p1 rc1 = Some (q, rc')"
    by (auto simp: bind_eq_Some_conv)
  note one = graph_register_dependency [OF r]
  note rest = Cons.IH [OF rs]
  have len: "length (rc_heap rc1) = length (rc_heap rc)"
    using arg_cong [OF one(3), of "\<lambda>G. length (gr_nodes G)"] by simp
  have st: "nd_state (gr_nodes (graph_of rc1) ! i) = nd_state (gr_nodes (graph_of rc) ! i)" if "i < length (rc_heap rc)" for i
    using that unfolding one(3) by (simp add: rev_dep_node_def)
  have "filter (\<lambda>d. nd_state (gr_nodes (graph_of rc1) ! d) \<noteq> Delivered) ds = filter (\<lambda>d. nd_state (gr_nodes (graph_of rc) ! d) \<noteq> Delivered) ds"
    using rest len st by (intro filter_cong) (auto simp del: graph_of_simps)
  moreover have "update_nodes (rev_dep_node a ds) (graph_of rc1) = update_nodes (rev_dep_node a (d # ds)) (graph_of rc)"
    unfolding one(3) by (rule graph_eqI) (auto simp: rev_dep_node_def replicate_add [symmetric] simp flip: replicate_append_same replicate_Suc)
  ultimately show ?case using rest one len by (simp del: graph_of_simps)
qed

end
