(* ===== verification/CC_Effects.thy ===== *)
theory CC_Effects
  imports CC_Graph
begin

text \<open>What the initialisation and the delivery of a block do to the graph.\<close>

subsection \<open>Initialisation\<close>

definition enqueue :: "graph \<Rightarrow> address list \<Rightarrow> graph" where
  "enqueue G as = G\<lparr>gr_queue := gr_queue G @ as\<rparr>"

definition link_node :: "address \<Rightarrow> address \<Rightarrow> address list \<Rightarrow> graph \<Rightarrow> graph" where
  "link_node a p ds G = put_node G a ((gr_nodes G ! a)\<lparr>nd_prev := Some p, nd_deps := nd_deps (gr_nodes G ! a) @ ds, nd_state := Initialized\<rparr>)"

definition undelivered :: "graph \<Rightarrow> address list \<Rightarrow> address list" where
  "undelivered G ds = filter (\<lambda>d. nd_state (gr_nodes G ! d) \<noteq> Delivered) ds"

definition await_node :: "address \<Rightarrow> graph \<Rightarrow> graph" where
  "await_node a G =
     (let ds = node_deps (gr_nodes G ! a); q = length (undelivered G ds);
          G' = update_nodes (\<lambda>i n. if i = a then n\<lparr>nd_pending := q\<rparr> else rev_dep_node a ds i n) G in
      if q = 0 \<and> nd_in_db (gr_nodes G ! a) then enqueue G' [a] else G')"

lemma enqueue_simps [simp]:
  "gr_nodes (enqueue G as) = gr_nodes G" "gr_queue (enqueue G as) = gr_queue G @ as" "gr_blocks (enqueue G as) = gr_blocks G"
  "gr_root (enqueue G as) = gr_root G" "gr_posted (enqueue G as) = gr_posted G" "gr_events (enqueue G as) = gr_events G"
  "gr_incarnation (enqueue G as) = gr_incarnation G"
  by (simp_all add: enqueue_def)

lemma graph_run_block: "graph_of (run_block rc a) = enqueue (graph_of rc) [a]"
  by (simp add: graph_of_def run_block_def enqueue_def)

lemma any_ill_iff:
  "any_ill a rc ds = Some r \<Longrightarrow> r \<longleftrightarrow> (\<exists>d \<in> set ds. nd_state (gr_nodes (graph_of rc) ! d) = Ill)"
proof (induction ds)
  case (Cons d ds)
  then obtain dep where "block_at rc d = Some dep" by (auto simp: bind_eq_Some_conv)
  then show ?case using Cons block_at_node(3) [of rc d dep] by (auto simp: bind_eq_Some_conv split: if_splits)
qed simp

lemma initialize_again: "initialize ext rc a block payload = Some (ok, rc') \<Longrightarrow> block_at rc a = Some b \<Longrightarrow> rb_state b \<noteq> Null \<Longrightarrow> ok \<and> rc' = rc"
  by (auto simp: initialize_def)

lemma graph_await:
  assumes "await_dependencies rc a (node_deps (gr_nodes (graph_of rc) ! a)) = Some rc'"
  shows "graph_of rc' = await_node a (graph_of rc) \<and> a \<notin> set (node_deps (gr_nodes (graph_of rc) ! a))"
proof -
  let ?G = "graph_of rc"
  let ?ds = "node_deps (gr_nodes ?G ! a)"
  from assms obtain q rc1 b rc2 where q: "register_dependencies a ?ds 0 rc = Some (q, rc1)"
    and b: "block_at rc1 a = Some b" and rc2: "put_block rc1 a (b\<lparr>rb_pending_deps := q\<rparr>) = Some rc2"
    and r: "block_received a (if q = 0 \<and> rb_in_db b then run_block rc2 a else rc2) (rb_source_id b) (rb_height b) = Some rc'"
    unfolding await_dependencies_def Let_def by (auto simp: bind_eq_Some_conv simp del: graph_of_simps)
  note reg = graph_register_dependencies [OF q] and node = block_at_node [OF b]
  have len: "length (gr_nodes (graph_of rc1)) = length (gr_nodes ?G)" using reg by (simp del: graph_of_simps)
  then have a: "a < length (gr_nodes ?G)" using node by simp
  have na: "gr_nodes (graph_of rc1) ! a = gr_nodes ?G ! a"
    using reg a by (simp add: rev_dep_node_def count_list_0_iff del: graph_of_simps)
  have G2: "graph_of rc2 = put_node (graph_of rc1) a ((gr_nodes ?G ! a)\<lparr>nd_pending := q\<rparr>)"
    using graph_put_block [OF rc2] unfolding na [symmetric] node(3) by (simp add: node_of_def)
  have db: "rb_in_db b = nd_in_db (gr_nodes ?G ! a)" unfolding na [symmetric] node(3) by simp
  have qlen: "q = length (undelivered ?G ?ds)" using reg by (simp add: undelivered_def del: graph_of_simps)
  have G2': "graph_of rc2 = update_nodes (\<lambda>i n. if i = a then n\<lparr>nd_pending := q\<rparr> else rev_dep_node a ?ds i n) ?G"
    using reg a unfolding G2 by (intro graph_eqI) (auto simp: nth_list_update simp del: graph_of_simps)
  have "graph_of rc' = (if q = 0 \<and> rb_in_db b then enqueue (graph_of rc2) [a] else graph_of rc2)"
    using graph_block_received [OF r] by (simp add: graph_run_block)
  then show ?thesis using reg unfolding await_node_def Let_def qlen [symmetric] G2' db by simp
qed

lemma graph_check_and_await:
  assumes "check_and_await rc a (node_deps (gr_nodes (graph_of rc) ! a)) = Some (ok, rc')"
  shows "(ok \<longleftrightarrow> (\<forall>d \<in> set (node_deps (gr_nodes (graph_of rc) ! a)). nd_state (gr_nodes (graph_of rc) ! d) \<noteq> Ill)) \<and>
    (\<not> ok \<longrightarrow> graph_of rc' = update_nodes (ill_node (dependants (gr_nodes (graph_of rc)) [a])) (graph_of rc)) \<and>
    (ok \<longrightarrow> graph_of rc' = await_node a (graph_of rc) \<and> a \<notin> set (node_deps (gr_nodes (graph_of rc) ! a)))"
proof -
  from assms obtain ill where ill: "any_ill a rc (node_deps (gr_nodes (graph_of rc) ! a)) = Some ill"
    and rest: "(if ill then map_option (Pair False) (set_ill [] [a] rc)
      else map_option (Pair True) (await_dependencies rc a (node_deps (gr_nodes (graph_of rc) ! a)))) = Some (ok, rc')"
    unfolding check_and_await_def bind_eq_Some_conv by blast
  show ?thesis using any_ill_iff [OF ill] rest graph_set_ill graph_await
    by (cases ill) (auto simp del: graph_of_simps)
qed

lemma graph_initialize:
  assumes "initialize ext rc a block payload = Some (ok, rc')" and "block_at rc a = Some b" and "rb_state b = Null"
  obtains G p ds where "grows (graph_of rc) G" and "\<forall>d \<in> insert p (set ds). d = gr_root G \<or> (\<exists>h. gr_blocks G h = Some d)"
    and "ok \<longleftrightarrow> (\<forall>d \<in> set (node_deps (gr_nodes (link_node a p ds G) ! a)). nd_state (gr_nodes (link_node a p ds G) ! d) \<noteq> Ill)"
    and "\<not> ok \<longrightarrow> graph_of rc' = update_nodes (ill_node (dependants (gr_nodes (link_node a p ds G)) [a])) (link_node a p ds G)"
    and "ok \<longrightarrow> graph_of rc' = await_node a (link_node a p ds G) \<and> a \<notin> set (node_deps (gr_nodes (link_node a p ds G) ! a))"
proof -
  from assms obtain p rc1 ds rc2 b2 rc3 where p: "create_block ext [a] rc (wb_prev block) = Some (p, rc1)"
    and ds: "create_blocks ext [a] rc1 (wb_deps block) = Some (ds, rc2)" and b2: "block_at rc2 a = Some b2"
    and rc3: "put_block rc2 a (b2\<lparr>rb_payload := payload, rb_prev := Some p, rb_block_deps := rb_block_deps b2 @ ds,
      rb_signature := wb_signature block, rb_state := Initialized\<rparr>) = Some rc3"
    and rest: "check_and_await rc3 a (p # rb_block_deps b2 @ ds) = Some (ok, rc')"
    unfolding initialize_def Let_def by (auto simp: bind_eq_Some_conv)
  let ?G = "graph_of rc2"
  let ?L = "link_node a p ds ?G"
  note gp = graph_create_block [OF p] and gds = graph_create_blocks [OF ds]
  note kept = grows_keeps [OF conjunct1 [OF gds]] and node = block_at_node [OF b2]
  have "p = gr_root ?G \<or> (\<exists>h. gr_blocks ?G h = Some p)" using gp kept map_le_def by (metis domI)
  then have refs: "\<forall>d \<in> insert p (set ds). d = gr_root ?G \<or> (\<exists>h. gr_blocks ?G h = Some d)" using gds by blast
  have L: "graph_of rc3 = ?L" using graph_put_block [OF rc3] node unfolding link_node_def by (simp add: node_of_def)
  have La: "gr_nodes ?L ! a = (gr_nodes ?G ! a)\<lparr>nd_prev := Some p, nd_deps := nd_deps (gr_nodes ?G ! a) @ ds, nd_state := Initialized\<rparr>"
    using node unfolding link_node_def by simp
  have deps: "node_deps (gr_nodes ?L ! a) = p # rb_block_deps b2 @ ds" unfolding La node(3) by (simp add: node_deps_def)
  show thesis
    using that [OF grows_trans [OF conjunct1 [OF gp] conjunct1 [OF gds]] refs] graph_check_and_await [of rc3 a ok rc'] rest
    unfolding L deps by blast
qed

subsection \<open>Delivery\<close>

lemma graph_initialize_fork:
  assumes "initialize_fork rc a = Some rc'"
  shows "graph_of rc' = graph_of rc"
proof -
  from assms obtain b f rc1 hs where b: "block_at rc a = Some b"
    and f: "(if rb_height b = 1 then source_add_fork rc (rb_source_id b)
             else do { p \<leftarrow> rb_prev b; prev \<leftarrow> block_at rc p;
                    if rb_next prev \<noteq> None then source_add_fork rc (rb_source_id b)
                    else do { rc \<leftarrow> put_block rc p (prev\<lparr>rb_next := Some a\<rparr>); Some (rb_fork_id prev, rc) } }) = Some (f, rc1)"
    and p: "put_block rc1 a (b\<lparr>rb_fork_id := f, rb_forks_dep_heights := hs\<rparr>) = Some rc'"
    unfolding initialize_fork_def Let_def bind_eq_Some_conv by (elim exE conjE) (auto simp: bind_eq_Some_conv split: prod.splits)
  have same: "graph_of rc1 = graph_of rc"
  proof -
    have "graph_of rc2 = graph_of rc" if "block_at rc q = Some prev" and "put_block rc q (prev\<lparr>rb_next := Some a\<rparr>) = Some rc2" for q prev rc2
      by (rule graph_put_same [OF that(2,1)]) (simp add: node_of_def)
    then show ?thesis using f graph_source_add_fork by (auto simp: bind_eq_Some_conv split: if_splits)
  qed
  have "gr_nodes (graph_of rc1) ! a = node_of b" unfolding same by (rule block_at_node(3) [OF b])
  then have "(gr_nodes (graph_of rc1))[a := node_of b] = gr_nodes (graph_of rc1)" using list_update_id [of "gr_nodes (graph_of rc1)" a] by simp
  then have "put_node (graph_of rc1) a (node_of b) = graph_of rc1" by (intro graph_eqI) simp_all
  moreover have n: "node_of (b\<lparr>rb_fork_id := f, rb_forks_dep_heights := hs\<rparr>) = node_of b" by (simp add: node_of_def)
  ultimately show ?thesis using conjunct1 [OF graph_put_block [OF p]] unfolding n same by (rule_tac trans)
qed

definition marked_ill :: "address \<Rightarrow> graph \<Rightarrow> graph" where
  "marked_ill a G = update_nodes (ill_node (dependants (gr_nodes G) [a])) G"

lemma graph_check_dependencies:
  "check_dependencies ext a p ds rc = Some (ill, rc') \<Longrightarrow> graph_of rc' = (if ill then marked_ill a (graph_of rc) else graph_of rc)"
proof (induction ext a p ds rc rule: check_dependencies.induct)
  case (2 ext a p d ds rc)
  have ill: "graph_of rc' = marked_ill a (graph_of rc)" if "set_ill held [a] rc1 = Some rc'" and "graph_of rc1 = graph_of rc" for held rc1
    using graph_set_ill [OF that(1)] that(2) by (simp add: marked_ill_def)
  from "2.prems" obtain b prev dep s where b: "block_at rc a = Some b" "block_at rc p = Some prev" "d \<noteq> p" "block_at rc d = Some dep"
    "receiver_get_source rc (rb_source_id dep) = Some s" by (auto simp: bind_eq_Some_conv Let_def simp del: graph_of_simps)
  let ?hs = "rb_forks_dep_heights prev"
  let ?c1 = "rb_fork_id dep < length ?hs \<and> rb_height dep \<le> ?hs ! rb_fork_id dep"
  let ?c2 = "sees_other_fork ?hs (rb_fork_id dep) (src_fork_ids s) \<or> sees_blame ?hs (src_blamed_heights s)"
  have as: "rs_assert (d \<noteq> p) = Some ()" using b by simp
  consider "?c1" | "\<not> ?c1" "\<not> src_blamed s" | "\<not> ?c1" "src_blamed s" "?c2" | "\<not> ?c1" "src_blamed s" "\<not> ?c2" by blast
  then show ?case
  proof cases
    case 1
    with "2.prems" b have "ill" and "set_ill [rb_source_id dep] [a] rc = Some rc'" by (auto simp: bind_eq_Some_conv)
    then show ?thesis using ill by simp
  next
    case 2
    have "check_dependencies ext a p ds rc = Some (ill, rc')" using "2.prems" b 2 by (simp add: Let_def)
    then show ?thesis using "2.IH"(1) [OF b(1,2) refl as b(4,5) 2(1)] 2(2) by simp
  next
    case 3
    with "2.prems" b obtain rc1 where "ill" and "source_blame rc (rb_source_id b) (rb_fork_id b) (rb_height b) = Some rc1"
      and "set_ill [rb_source_id dep] [a] rc1 = Some rc'" by (auto simp: bind_eq_Some_conv Let_def)
    then show ?thesis using ill graph_source_blame by simp
  next
    case 4
    have "check_dependencies ext a p ds rc = Some (ill, rc')" using "2.prems" b 4 by (simp add: Let_def)
    then show ?thesis using "2.IH"(2) [OF b(1,2) refl as b(4,5) 4(1)] 4(2,3) by simp
  qed
qed simp

lemma graph_accept_fork_proof: "accept_fork_proof rc l r = Some rc' \<Longrightarrow> graph_of rc' = graph_of rc"
  by (auto simp: accept_fork_proof_def bind_eq_Some_conv dest!: graph_set_fork_proof graph_mark_as_blamed)

lemma graph_set_custom: "set_custom rc a = Some rc' \<Longrightarrow> graph_of rc' = graph_of rc"
  unfolding set_custom_def bind_eq_Some_conv by (elim exE conjE, erule (1) graph_put_same) (simp add: node_of_def)

lemma graph_check_payload:
  assumes "check_payload ext rc a = Some rc'"
  shows "graph_of rc' = graph_of rc \<or> graph_of rc' = marked_ill a (graph_of rc)"
proof -
  from assms obtain b where b: "block_at rc a = Some b" by (auto simp: check_payload_def bind_eq_Some_conv)
  consider "set_ill [] [a] rc = Some rc'" | l r where "accept_fork_proof rc l r = Some rc'" | "set_custom rc a = Some rc'" | "rc' = rc"
  proof (cases "cx_parse_data ext (rb_payload b)")
    case None
    then show ?thesis using assms b that by (simp add: check_payload_def)
  next
    case (Some data)
    show ?thesis
    proof (cases data)
      case (DataFork l r)
      then show ?thesis using assms b Some that unfolding check_payload_def by (auto simp: bind_eq_Some_conv split: if_splits)
    qed (use assms b Some that in \<open>simp_all add: check_payload_def\<close>)
  qed
  then show ?thesis using graph_set_ill graph_accept_fork_proof graph_set_custom by cases (simp_all add: marked_ill_def)
qed

lemma graph_pre_deliver:
  assumes "pre_deliver ext rc a = Some rc'" and "block_at rc a = Some b" and "rb_state b = Initialized"
  shows "graph_of rc' = graph_of rc \<or> graph_of rc' = marked_ill a (graph_of rc)"
proof -
  from assms obtain ill rc1 where c: "(case rb_prev b of None \<Rightarrow> Some (False, rc)
      | Some p \<Rightarrow> do { rs_assert (p \<noteq> a); check_dependencies ext a p (rb_block_deps b) rc }) = Some (ill, rc1)"
    and r: "(if ill then Some rc1 else check_payload ext rc1 a) = Some rc'"
    unfolding pre_deliver_def by (auto simp: bind_eq_Some_conv)
  from c have "graph_of rc1 = (if ill then marked_ill a (graph_of rc) else graph_of rc)"
    using graph_check_dependencies by (auto simp: bind_eq_Some_conv split: option.splits)
  then show ?thesis using r graph_check_payload [of ext rc1 a rc'] by (cases ill) auto
qed

fun event_hash :: "listener_call \<Rightarrow> block_hash" where
  "event_hash (OnNewBlock sid fork_id hash height prev deps heights payload) = hash"
| "event_hash (OnBlame sid) = 0"

fun event_deps :: "listener_call \<Rightarrow> block_hash list" where
  "event_deps (OnNewBlock sid fork_id hash height prev deps heights payload) = prev # deps"
| "event_deps (OnBlame sid) = []"

definition notify :: "graph \<Rightarrow> listener_call \<Rightarrow> graph" where
  "notify G e = G\<lparr>gr_events := gr_events G @ [e]\<rparr>"

lemma notify_simps [simp]:
  "gr_nodes (notify G e) = gr_nodes G" "gr_queue (notify G e) = gr_queue G" "gr_blocks (notify G e) = gr_blocks G"
  "gr_root (notify G e) = gr_root G" "gr_posted (notify G e) = gr_posted G" "gr_events (notify G e) = gr_events G @ [e]"
  "gr_incarnation (notify G e) = gr_incarnation G"
  by (simp_all add: notify_def)

lemma get_hashes_nodes:
  "get_hashes rc ds = Some hs \<Longrightarrow> set ds \<subseteq> {..<length (rc_heap rc)} \<and> hs = map (\<lambda>d. nd_hash (gr_nodes (graph_of rc) ! d)) ds"
proof (induction ds arbitrary: hs)
  case (Cons d ds)
  then obtain dep hs' where d: "block_at rc d = Some dep" and hs': "get_hashes rc ds = Some hs'" and hs: "hs = rb_hash dep # hs'"
    by (auto simp: bind_eq_Some_conv)
  show ?case using Cons.IH [OF hs'] block_at_node [OF d] hs by simp
qed simp

lemma graph_deliver_block:
  assumes "deliver_block rc b = Some rc'"
  obtains e where "is_delivery e" and "event_hash e = rb_hash b" and "graph_of rc' = notify (graph_of rc) e" and "rc_heap rc' = rc_heap rc"
    and "rb_prev b \<noteq> None \<Longrightarrow> event_deps e = map (\<lambda>d. nd_hash (gr_nodes (graph_of rc) ! d)) (node_deps (node_of b))"
proof -
  from assms obtain ph hs where ph: "(case rb_prev b of None \<Rightarrow> Some 0 | Some p \<Rightarrow> map_option rb_hash (block_at rc p)) = Some ph"
    and hs: "get_hashes rc (rb_block_deps b) = Some hs"
    and rc': "rc' = rc\<lparr>rc_calls := rc_calls rc @ [OnNewBlock (rb_source_id b) (rb_fork_id b) (rb_hash b) (rb_height b) ph hs
      (rb_forks_dep_heights b) (if rb_is_custom b then rb_payload b else [])]\<rparr>"
    unfolding deliver_block_def by (auto simp: bind_eq_Some_conv)
  let ?e = "OnNewBlock (rb_source_id b) (rb_fork_id b) (rb_hash b) (rb_height b) ph hs
      (rb_forks_dep_heights b) (if rb_is_custom b then rb_payload b else [])"
  have "event_deps ?e = map (\<lambda>d. nd_hash (gr_nodes (graph_of rc) ! d)) (node_deps (node_of b))" if "rb_prev b \<noteq> None"
    using that ph get_hashes_nodes [OF hs] by (auto simp: node_deps_def simp del: graph_of_simps dest!: block_at_node(3))
  then show thesis by (rule that [of ?e, rotated 4]) (simp_all add: rc' graph_of_def notify_def)
qed

definition awaited_node :: "address list \<Rightarrow> address \<Rightarrow> node \<Rightarrow> node" where
  "awaited_node rs i n = (if nd_state n = Ill then n else n\<lparr>nd_pending := nd_pending n - count_list rs i\<rparr>)"

text \<open>The blocks that a delivered block was the last to keep waiting.\<close>

definition released :: "node list \<Rightarrow> address list \<Rightarrow> address set" where
  "released N rs = {r \<in> set rs. nd_state (N ! r) \<noteq> Ill \<and> nd_pending (N ! r) = count_list rs r \<and> nd_in_db (N ! r)}"

lemma graph_dependency_delivered:
  assumes "dependency_delivered rc r dep = Some rc'"
  defines "n \<equiv> gr_nodes (graph_of rc) ! r"
  defines "q \<equiv> usize_sub (nd_pending n) 1"
  shows "r < length (rc_heap rc) \<and> graph_of rc' = (if nd_state n = Ill then graph_of rc
    else enqueue (put_node (graph_of rc) r (n\<lparr>nd_pending := q\<rparr>)) (if q = 0 \<and> nd_in_db n then [r] else []))"
proof -
  from assms(1) obtain b where b: "block_at rc r = Some b" by (auto simp: dependency_delivered_def bind_eq_Some_conv)
  note node = block_at_node [OF b]
  show ?thesis
  proof (cases "rb_state b = Ill")
    case True
    then show ?thesis using assms(1) b node unfolding n_def by (simp add: dependency_delivered_def)
  next
    case False
    have nq: "n = node_of b" "q = usize_sub (rb_pending_deps b) 1" using node by (simp_all add: n_def q_def)
    from False b assms(1) obtain hs rc1 where p: "put_block rc r (b\<lparr>rb_forks_dep_heights := hs, rb_pending_deps := q\<rparr>) = Some rc1"
      and rc': "rc' = (if q = 0 \<and> rb_in_db b then run_block rc1 r else rc1)"
      unfolding dependency_delivered_def nq(2) Let_def by (auto simp: bind_eq_Some_conv)
    have "graph_of rc1 = put_node (graph_of rc) r (n\<lparr>nd_pending := q\<rparr>)" using graph_put_block [OF p] unfolding nq(1) by (simp add: node_of_def)
    then show ?thesis using False node(1) unfolding rc' nq(1) by (auto simp: graph_run_block enqueue_def)
  qed
qed

lemma released_step:
  assumes "r < length N" and "nd_state (N ! r) \<noteq> Ill" and "count_list (r # rs) r \<le> nd_pending (N ! r)"
  defines "n' \<equiv> (N ! r)\<lparr>nd_pending := nd_pending (N ! r) - 1\<rparr>"
  shows "released N (r # rs) = released (N[r := n']) rs \<union> (if nd_pending n' = 0 \<and> nd_in_db n' then {r} else {})"
  using assms(1-3) unfolding released_def n'_def by (auto simp: nth_list_update count_notin) (metis count_notin less_irrefl)

lemma graph_dependencies_delivered:
  assumes "dependencies_delivered rc a rs dep = Some rc'"
    and "\<forall>r \<in> set rs. nd_state (gr_nodes (graph_of rc) ! r) \<noteq> Ill \<longrightarrow> count_list rs r \<le> nd_pending (gr_nodes (graph_of rc) ! r)"
  shows "\<exists>q. graph_of rc' = enqueue (update_nodes (awaited_node rs) (graph_of rc)) q \<and> set q = released (gr_nodes (graph_of rc)) rs
    \<and> a \<notin> set rs \<and> set rs \<subseteq> {..<length (rc_heap rc)}"
  using assms
proof (induction rs arbitrary: rc)
  case Nil
  have "update_nodes (awaited_node []) (graph_of rc) = graph_of rc" by (rule update_nodes_same) (simp add: awaited_node_def)
  then show ?case using Nil by (intro exI [of _ "[]"]) (simp add: enqueue_def released_def)
next
  case (Cons r rs)
  then obtain rc1 where d: "dependency_delivered rc r dep = Some rc1" and rest: "dependencies_delivered rc1 a rs dep = Some rc'" and "r \<noteq> a"
    by (auto simp: bind_eq_Some_conv)
  let ?G = "graph_of rc" and ?N = "gr_nodes (graph_of rc)"
  note eff = graph_dependency_delivered [OF d]
  have r: "r < length ?N" using eff by simp
  show ?case
  proof (cases "nd_state (?N ! r) = Ill")
    case True
    with eff have G1: "graph_of rc1 = ?G" by simp
    have len: "length (rc_heap rc1) = length (rc_heap rc)" using arg_cong [OF G1, of "\<lambda>G. length (gr_nodes G)"] by simp
    have same: "update_nodes (awaited_node (r # rs)) ?G = update_nodes (awaited_node rs) ?G" "released ?N (r # rs) = released ?N rs"
      using True by (auto simp: awaited_node_def released_def intro!: graph_eqI simp del: graph_of_simps)
    have "\<forall>x \<in> set rs. nd_state (gr_nodes (graph_of rc1) ! x) \<noteq> Ill \<longrightarrow> count_list rs x \<le> nd_pending (gr_nodes (graph_of rc1) ! x)"
      using Cons.prems(2) unfolding G1 by (auto simp: le_Suc_eq simp del: graph_of_simps dest!: bspec split: if_splits)
    from Cons.IH [OF rest this] show ?thesis using \<open>r \<noteq> a\<close> r len same unfolding G1 by (simp del: graph_of_simps) simp
  next
    case False
    let ?n = "(?N ! r)\<lparr>nd_pending := nd_pending (?N ! r) - 1\<rparr>"
    let ?q = "if nd_pending ?n = 0 \<and> nd_in_db ?n then [r] else []"
    have cnt: "count_list (r # rs) r \<le> nd_pending (?N ! r)" using Cons.prems(2) False by simp
    then have u: "usize_sub (nd_pending (?N ! r)) 1 = nd_pending (?N ! r) - 1" by (simp add: usize_sub_def)
    have G1: "graph_of rc1 = enqueue (put_node ?G r ?n) ?q" using eff False unfolding u by simp
    have N1: "gr_nodes (graph_of rc1) = ?N[r := ?n]" unfolding G1 by simp
    have len: "length (rc_heap rc1) = length (rc_heap rc)" using arg_cong [OF N1, of length] by simp
    have "\<forall>x \<in> set rs. nd_state (gr_nodes (graph_of rc1) ! x) \<noteq> Ill \<longrightarrow> count_list rs x \<le> nd_pending (gr_nodes (graph_of rc1) ! x)"
      using Cons.prems(2) r unfolding N1 by (auto simp: nth_list_update simp del: graph_of_simps dest!: bspec split: if_splits)
    from Cons.IH [OF rest this] obtain q where q: "graph_of rc' = enqueue (update_nodes (awaited_node rs) (graph_of rc1)) q"
      "set q = released (?N[r := ?n]) rs" "a \<notin> set rs" "set rs \<subseteq> {..<length (rc_heap rc)}" unfolding N1 len by blast
    have "graph_of rc' = enqueue (update_nodes (awaited_node (r # rs)) ?G) (?q @ q)"
      unfolding q(1) unfolding G1 using r False by (intro graph_eqI) (auto simp: awaited_node_def nth_list_update simp del: graph_of_simps)
    moreover have "set (?q @ q) = released ?N (r # rs)" unfolding released_step [OF r False cnt] using q(2) by auto
    ultimately show ?thesis using q(3,4) r \<open>r \<noteq> a\<close> by (intro exI [of _ "?q @ q"]) auto
  qed
qed

definition delivered_node :: "address \<Rightarrow> address list \<Rightarrow> address \<Rightarrow> node \<Rightarrow> node" where
  "delivered_node a rs i n = (if i = a then n\<lparr>nd_state := Delivered, nd_rev_deps := []\<rparr> else awaited_node rs i n)"

lemma deliver_parts:
  assumes "deliver rc a = Some rc'" and "block_at rc a = Some b" and "rb_state b \<noteq> Ill"
  obtains rc1 rc2 rc3 rc4 where "rb_state b = Initialized" and "rb_pending_deps b = 0" and "rb_in_db b"
    and "deliver_block rc b = Some rc1" and "put_block rc1 a (b\<lparr>rb_state := Delivered\<rparr>) = Some rc2"
    and "dependencies_delivered rc2 a (rb_rev_deps b) (b\<lparr>rb_state := Delivered\<rparr>) = Some rc3"
    and "put_block rc3 a (b\<lparr>rb_state := Delivered, rb_rev_deps := []\<rparr>) = Some rc4" and "graph_of rc' = graph_of rc4"
proof -
  from assms obtain rc1 rc2 rc3 rc4 where "rb_state b = Initialized" "rb_pending_deps b = 0" "rb_in_db b"
    "deliver_block rc b = Some rc1" "put_block rc1 a (b\<lparr>rb_state := Delivered\<rparr>) = Some rc2"
    "dependencies_delivered rc2 a (rb_rev_deps b) (b\<lparr>rb_state := Delivered\<rparr>) = Some rc3"
    "put_block rc3 a (b\<lparr>rb_state := Delivered, rb_rev_deps := []\<rparr>) = Some rc4"
    "block_delivered a rc4 (rb_source_id b) (rb_height b) = Some rc'"
    unfolding deliver_def Let_def by (auto simp: bind_eq_Some_conv)
  then show thesis using graph_block_delivered by (intro that) blast+
qed

lemma graph_deliver:
  assumes "deliver rc a = Some rc'" and "block_at rc a = Some b" and "rb_state b \<noteq> Ill" and "a \<notin> set (rb_rev_deps b)"
    and "\<forall>r \<in> set (rb_rev_deps b). nd_state (gr_nodes (graph_of rc) ! r) \<noteq> Ill \<longrightarrow>
      count_list (rb_rev_deps b) r \<le> nd_pending (gr_nodes (graph_of rc) ! r)"
  obtains e q where "is_delivery e" and "event_hash e = rb_hash b"
    and "rb_prev b \<noteq> None \<Longrightarrow> event_deps e = map (\<lambda>d. nd_hash (gr_nodes (graph_of rc) ! d)) (node_deps (node_of b))"
    and "graph_of rc' = enqueue (update_nodes (delivered_node a (rb_rev_deps b)) (notify (graph_of rc) e)) q"
    and "set q = released (gr_nodes (graph_of rc)) (rb_rev_deps b)"
    and "rb_state b = Initialized" and "rb_pending_deps b = 0" and "rb_in_db b"
proof -
  let ?rs = "rb_rev_deps b" and ?N = "gr_nodes (graph_of rc)" and ?D = "b\<lparr>rb_state := Delivered\<rparr>"
  note node = block_at_node [OF assms(2)]
  obtain rc1 rc2 rc3 rc4 where st: "rb_state b = Initialized" "rb_pending_deps b = 0" "rb_in_db b"
    and rc1: "deliver_block rc b = Some rc1" and rc2: "put_block rc1 a ?D = Some rc2"
    and rc3: "dependencies_delivered rc2 a ?rs ?D = Some rc3"
    and rc4: "put_block rc3 a (b\<lparr>rb_state := Delivered, rb_rev_deps := []\<rparr>) = Some rc4" and rc': "graph_of rc' = graph_of rc4"
    by (rule deliver_parts [OF assms(1-3)])
  obtain e where e: "is_delivery e" "event_hash e = rb_hash b" "graph_of rc1 = notify (graph_of rc) e"
    "rb_prev b \<noteq> None \<Longrightarrow> event_deps e = map (\<lambda>d. nd_hash (gr_nodes (graph_of rc) ! d)) (node_deps (node_of b))"
    by (rule graph_deliver_block [OF rc1]) blast
  have N2: "graph_of rc2 = put_node (notify (graph_of rc) e) a (node_of ?D)" using graph_put_block [OF rc2] e(3) by simp
  have same: "gr_nodes (graph_of rc2) ! r = ?N ! r" if "r \<noteq> a" for r using that unfolding N2 by simp
  have "\<forall>r \<in> set ?rs. nd_state (gr_nodes (graph_of rc2) ! r) \<noteq> Ill \<longrightarrow> count_list ?rs r \<le> nd_pending (gr_nodes (graph_of rc2) ! r)"
    using assms(4,5) same by metis
  from graph_dependencies_delivered [OF rc3 this] obtain q where q: "graph_of rc3 = enqueue (update_nodes (awaited_node ?rs) (graph_of rc2)) q"
    "set q = released (gr_nodes (graph_of rc2)) ?rs" by blast
  have rel: "released (gr_nodes (graph_of rc2)) ?rs = released ?N ?rs" using assms(4) same unfolding released_def by (metis (no_types, lifting))
  have Da: "node_of (b\<lparr>rb_state := Delivered, rb_rev_deps := []\<rparr>) = (?N ! a)\<lparr>nd_state := Delivered, nd_rev_deps := []\<rparr>"
    unfolding node(3) by (simp add: node_of_def)
  have "graph_of rc4 = put_node (graph_of rc3) a (node_of (b\<lparr>rb_state := Delivered, rb_rev_deps := []\<rparr>))" using graph_put_block [OF rc4] by simp
  also have "\<dots> = enqueue (update_nodes (delivered_node a ?rs) (notify (graph_of rc) e)) q"
    unfolding q(1) Da unfolding N2 by (rule graph_eqI) (auto simp: delivered_node_def nth_list_update simp del: graph_of_simps)
  finally have "graph_of rc' = enqueue (update_nodes (delivered_node a ?rs) (notify (graph_of rc) e)) q" using rc' by simp
  then show thesis using that [OF e(1,2,4)] q(2) rel st by simp
qed

subsection \<open>States along a delivery\<close>

definition states :: "receiver \<Rightarrow> received_block_state list" where
  "states rc = map nd_state (gr_nodes (graph_of rc))"

lemma states_eq: "graph_of rc' = graph_of rc \<Longrightarrow> states rc' = states rc"
  by (simp add: states_def)

lemma states_dependencies_delivered: "dependencies_delivered rc a rs dep = Some rc' \<Longrightarrow> states rc' = states rc"
proof (induction rs arbitrary: rc)
  case (Cons r rs)
  then obtain rc1 where d: "dependency_delivered rc r dep = Some rc1" and rest: "dependencies_delivered rc1 a rs dep = Some rc'"
    by (auto simp: bind_eq_Some_conv)
  have "r < length (gr_nodes (graph_of rc))" using graph_dependency_delivered [OF d] by simp
  then have "states rc1 = states rc" using graph_dependency_delivered [OF d]
    by (auto simp: states_def list_eq_iff_nth_eq nth_list_update simp del: graph_of_simps)
  then show ?case using Cons.IH [OF rest] by simp
qed simp

lemma states_deliver:
  assumes "deliver rc a = Some rc'" and "block_at rc a = Some b"
  shows "states rc' = (if rb_state b = Ill then states rc else (states rc)[a := Delivered])"
proof (cases "rb_state b = Ill")
  case True
  then show ?thesis using assms by (simp add: deliver_def)
next
  case False
  then obtain rc1 rc2 rc3 rc4 where "rb_state b = Initialized"
    and rc1: "deliver_block rc b = Some rc1" and rc2: "put_block rc1 a (b\<lparr>rb_state := Delivered\<rparr>) = Some rc2"
    and rc3: "dependencies_delivered rc2 a (rb_rev_deps b) (b\<lparr>rb_state := Delivered\<rparr>) = Some rc3"
    and rc4: "put_block rc3 a (b\<lparr>rb_state := Delivered, rb_rev_deps := []\<rparr>) = Some rc4" and rc': "graph_of rc' = graph_of rc4"
    by (rule deliver_parts [OF assms])
  have put: "states y = (states x)[a := rb_state n]" if "put_block x a n = Some y" for x y n
    using graph_put_block [OF that] by (simp add: states_def map_update)
  have "states rc1 = states rc" by (rule graph_deliver_block [OF rc1]) (simp add: states_def)
  then show ?thesis using False states_eq [OF rc'] put [OF rc4] put [OF rc2] states_dependencies_delivered [OF rc3] by simp
qed

text \<open>Processing a block that waits for its delivery leaves fewer such blocks.\<close>

definition to_deliver :: "receiver \<Rightarrow> nat" where
  "to_deliver rc = length (filter (\<lambda>s. s = Initialized) (states rc))"

lemma process_other: "process ext rc a = Some rc' \<Longrightarrow> block_at rc a = Some b \<Longrightarrow> rb_state b \<noteq> Initialized \<Longrightarrow> rc' = rc"
  by (simp add: process_def)

lemma process_parts:
  assumes "process ext rc a = Some rc'" and "block_at rc a = Some b" and "rb_state b = Initialized"
  obtains rc1 rc2 b2 where "rb_pending_deps b = 0" and "rb_in_db b" and "graph_of rc1 = graph_of rc" and "block_at rc2 a = Some b2"
    and "graph_of rc2 = graph_of rc \<or> graph_of rc2 = marked_ill a (graph_of rc)" and "deliver rc2 a = Some rc'"
proof -
  from assms obtain rc1 rc2 where pend: "rb_pending_deps b = 0" "rb_in_db b" and rc1: "initialize_fork rc a = Some rc1" and rc2: "pre_deliver ext rc1 a = Some rc2"
    and d: "deliver rc2 a = Some rc'" by (auto simp: process_def bind_eq_Some_conv)
  note same = graph_initialize_fork [OF rc1]
  from rc2 obtain b1 where b1: "block_at rc1 a = Some b1" by (auto simp: pre_deliver_def bind_eq_Some_conv)
  from d obtain b2 where b2: "block_at rc2 a = Some b2" by (auto simp: deliver_def bind_eq_Some_conv)
  have "node_of b1 = node_of b" using block_at_node(3) [OF b1] block_at_node(3) [OF assms(2)] unfolding same by simp
  then have "rb_state b1 = Initialized" using assms(3) by (metis node_of_simps(1))
  from graph_pre_deliver [OF rc2 b1 this] show thesis using that [OF pend same b2 _ d] unfolding same by blast
qed

lemma filter_update_less:
  assumes "xs ! i = x" and "i < length xs" and "length ys = length xs" and "\<forall>j < length xs. ys ! j = x \<longrightarrow> xs ! j = x" and "ys ! i \<noteq> x"
  shows "length (filter (\<lambda>s. s = x) ys) < length (filter (\<lambda>s. s = x) xs)"
proof -
  have "{j. j < length ys \<and> ys ! j = x} \<subset> {j. j < length xs \<and> xs ! j = x}" using assms by auto
  then show ?thesis unfolding length_filter_conv_card by (rule psubset_card_mono [rotated]) simp
qed

lemma process_decreases:
  assumes "process ext rc a = Some rc'" and "block_at rc a = Some b" and "rb_state b = Initialized"
  shows "to_deliver rc' < to_deliver rc"
proof -
  note node = block_at_node [OF assms(2)]
  have a: "a < length (states rc)" "states rc ! a = Initialized" using node assms(3) by (simp_all add: states_def)
  obtain rc2 b2 where b2: "block_at rc2 a = Some b2" and d: "deliver rc2 a = Some rc'"
    and g: "graph_of rc2 = graph_of rc \<or> graph_of rc2 = marked_ill a (graph_of rc)" by (rule process_parts [OF assms]) blast
  have s2: "length (states rc2) = length (states rc) \<and> (\<forall>j < length (states rc). states rc2 ! j = Initialized \<longrightarrow> states rc ! j = Initialized)"
    using g by (auto simp: states_def marked_ill_def ill_node_def simp del: graph_of_simps split: if_splits)
  have "states rc2 ! a = rb_state b2" using block_at_node [OF b2] by (simp add: states_def)
  then have "states rc' ! a \<noteq> Initialized" "length (states rc') = length (states rc)"
      "\<forall>j < length (states rc). states rc' ! j = Initialized \<longrightarrow> states rc ! j = Initialized"
    using states_deliver [OF d b2] s2 a by (auto simp: nth_list_update split: if_splits)
  then show ?thesis unfolding to_deliver_def using filter_update_less [OF a(2,1)] by blast
qed

end
