(* ===== verification/CC_Receiver.thy ===== *)
theory CC_Receiver
  imports CC_Effects
begin

text \<open>
  The receiver (\<^verbatim>\<open>receiver.rs\<close> in \<^verbatim>\<open>catchain/src\<close>): the scheduler that delivers the blocks that are ready, the blocks that
  arrive from the network, from the node itself and from the database, and the steps that the receiver makes.
\<close>

subsection \<open>The scheduler\<close>

lemma to_deliver_queue [simp]: "to_deliver (rc\<lparr>rc_blocks_to_run := as\<rparr>) = to_deliver rc"
  by (simp add: to_deliver_def states_def)

lemma scheduler_step:
  assumes "process ext (rc\<lparr>rc_blocks_to_run := as\<rparr>) a = Some rc'"
  shows "to_deliver rc' < to_deliver rc \<or> rc' = rc\<lparr>rc_blocks_to_run := as\<rparr>"
proof -
  from assms obtain b where b: "block_at (rc\<lparr>rc_blocks_to_run := as\<rparr>) a = Some b" by (auto simp: process_def bind_eq_Some_conv)
  show ?thesis using process_decreases [OF assms b] process_other [OF assms b] by (cases "rb_state b = Initialized") simp_all
qed

function run_scheduler :: "catchain_ext \<Rightarrow> receiver \<Rightarrow> receiver option" where
  "run_scheduler ext rc =
     (case rc_blocks_to_run rc of
        [] \<Rightarrow> Some rc
      | a # as \<Rightarrow> do { rc \<leftarrow> process ext (rc\<lparr>rc_blocks_to_run := as\<rparr>) a; run_scheduler ext rc })"
  by pat_completeness simp_all
termination
proof (relation "measures [\<lambda>(ext, rc). to_deliver rc, \<lambda>(ext, rc). length (rc_blocks_to_run rc)]", goal_cases)
  case (2 ext rc a as rc')
  then show ?case using scheduler_step [OF 2(2)] by auto
qed simp

declare run_scheduler.simps [simp del]

subsection \<open>New blocks\<close>

text \<open>The result of an operation that can fail is the address of the block, or nothing.\<close>

definition create_with_payload :: "catchain_ext \<Rightarrow> receiver \<Rightarrow> wire_block \<Rightarrow> bytes \<Rightarrow> (address option \<times> receiver) option" where
  "create_with_payload ext rc block payload =
     do { key_hash \<leftarrow> get_source_key_hash rc (as_usize (wb_src block));
          let body = received_block_new\<lparr>rb_data_hash := cx_hash ext payload, rb_signature := wb_signature block,
            rb_hash := block_id_hash ext (rc_incarnation rc) key_hash (wb_height block) (cx_hash ext payload),
            rb_source_id := as_usize (wb_src block), rb_height := wb_height block, rb_incarnation := rc_incarnation rc\<rparr>;
          let a = length (rc_heap rc);
          rc \<leftarrow> process_new_block ext [] (rc\<lparr>rc_heap := rc_heap rc @ [body]\<rparr>) (as_usize (wb_src block)) a;
          (ok, rc) \<leftarrow> initialize ext rc a block payload;
          Some (if ok then Some a else None, rc) }"

definition add_received_block :: "receiver \<Rightarrow> address \<Rightarrow> receiver option" where
  "add_received_block rc a = do { b \<leftarrow> block_at rc a; Some (rc\<lparr>rc_blocks := (rc_blocks rc)(rb_hash b \<mapsto> a)\<rparr>) }"

definition create_block_with_payload :: "catchain_ext \<Rightarrow> receiver \<Rightarrow> wire_block \<Rightarrow> bytes \<Rightarrow> (address option \<times> receiver) option" where
  "create_block_with_payload ext rc block payload =
     (if wb_height block = 0 then Some (Some (rc_root_block rc), rc)
      else
        do { hash \<leftarrow> get_block_id_hash ext rc block payload;
             (case rc_blocks rc hash of
                Some a \<Rightarrow>
                  do { b \<leftarrow> block_at rc a;
                       if \<not> is_initialized b
                       then do { (ok, rc) \<leftarrow> initialize ext rc a block payload; Some (if ok then Some a else None, rc) }
                       else Some (Some a, rc) }
              | None \<Rightarrow>
                  do { (r, rc) \<leftarrow> create_with_payload ext rc block payload;
                       (case r of
                          None \<Rightarrow> Some (None, rc)
                        | Some a \<Rightarrow> do { rc \<leftarrow> add_received_block rc a; Some (Some a, rc) }) }) })"

definition known_initialized :: "receiver \<Rightarrow> block_hash \<Rightarrow> address option option" where
  "known_initialized rc hash =
     (case rc_blocks rc hash of
        None \<Rightarrow> Some None
      | Some a \<Rightarrow> do { b \<leftarrow> block_at rc a; Some (if is_initialized b then Some a else None) })"

text \<open>The block of another validator; when it is taken, it is written to the database.\<close>

definition take_block :: "catchain_ext \<Rightarrow> receiver \<Rightarrow> block_hash \<Rightarrow> wire_block \<Rightarrow> bytes \<Rightarrow> (address option \<times> receiver) option" where
  "take_block ext rc hash block payload =
     do { rs_assert (\<not> (as_usize (wb_src block) = rc_local_idx rc \<and> (\<not> rc_allow_unsafe_self_blocks_resync rc \<or> rc_started rc)));
          (r, rc) \<leftarrow> create_block_with_payload ext rc block payload;
          (case r of
             None \<Rightarrow> Some (None, rc)
           | Some a \<Rightarrow> Some (Some a, rc\<lparr>rc_posted := rc_posted rc @ [BlockWritten hash]\<rparr>)) }"

definition receive_block :: "catchain_ext \<Rightarrow> receiver \<Rightarrow> wire_block \<Rightarrow> bytes \<Rightarrow> (address option \<times> receiver) option" where
  "receive_block ext rc block payload =
     do { hash \<leftarrow> get_block_id_hash ext rc block payload;
          known \<leftarrow> known_initialized rc hash;
          (case known of
             Some a \<Rightarrow> Some (Some a, rc)
           | None \<Rightarrow>
               if wb_incarnation block \<noteq> rc_incarnation rc then Some (None, rc)
               else
                 do { ok \<leftarrow> validate_block_with_payload ext rc block payload;
                      if \<not> ok then Some (None, rc) else take_block ext rc hash block payload }) }"

definition block_written_to_db :: "catchain_ext \<Rightarrow> receiver \<Rightarrow> block_hash \<Rightarrow> receiver option" where
  "block_written_to_db ext rc hash = do { a \<leftarrow> rc_blocks rc hash; rc \<leftarrow> written rc a; run_scheduler ext rc }"

definition got_fork_proof :: "catchain_ext \<Rightarrow> receiver \<Rightarrow> block_dep \<Rightarrow> block_dep \<Rightarrow> receiver option" where
  "got_fork_proof ext rc left right =
     do { ok \<leftarrow> validate_block_dependency ext rc left;
          if \<not> ok then Some rc
          else
            do { ok \<leftarrow> validate_block_dependency ext rc right;
                 if \<not> ok then Some rc
                 else if \<not> is_fork_proof left right then Some rc
                 else accept_fork_proof rc left right } }"

subsection \<open>Own blocks\<close>

fun export_deps :: "receiver \<Rightarrow> block_hash list \<Rightarrow> block_dep list option" where
  "export_deps rc [] = Some []"
| "export_deps rc (h # hs) =
     do { a \<leftarrow> rc_blocks rc h; b \<leftarrow> block_at rc a; ds \<leftarrow> export_deps rc hs; Some (export_tl_dep b # ds) }"

text \<open>A block of the node itself: signed, written to the database, and only then created.\<close>

definition add_block_impl :: "catchain_ext \<Rightarrow> receiver \<Rightarrow> bytes \<Rightarrow> block_hash list \<Rightarrow> receiver option" where
  "add_block_impl ext rc payload deps =
     do { let rc = rc\<lparr>rc_active_send := True\<rparr>;
          sid \<leftarrow> get_source_by_hash rc (rc_local_id rc);
          s \<leftarrow> receiver_get_source rc sid;
          rs_assert (src_id s = rc_local_idx rc);
          last_sent_block \<leftarrow> block_at rc (rc_last_sent_block rc);
          let prev = export_tl_dep last_sent_block;
          dep_tls \<leftarrow> export_deps rc deps;
          let block = \<lparr> wb_incarnation = rc_incarnation rc, wb_src = int (rc_local_idx rc), wb_height = bd_height prev + 1,
            wb_prev = prev, wb_deps = dep_tls, wb_signature = [] \<rparr>;
          key_hash \<leftarrow> get_source_key_hash rc (as_usize (wb_src block));
          (case cx_sign ext (cx_serialize_id ext (rc_incarnation rc) key_hash (wb_height block) (cx_hash ext payload)) of
             None \<Rightarrow> Some rc
           | Some signature \<Rightarrow> Some (rc\<lparr>rc_posted := rc_posted rc @ [OwnBlock (block\<lparr>wb_signature := signature\<rparr>) payload]\<rparr>)) }"

definition add_block :: "catchain_ext \<Rightarrow> receiver \<Rightarrow> bytes \<Rightarrow> block_hash list \<Rightarrow> receiver option" where
  "add_block ext rc payload deps =
     (if rc_active_send rc then Some (rc\<lparr>rc_pending_blocks := rc_pending_blocks rc @ [(payload, deps)]\<rparr>)
      else add_block_impl ext rc payload deps)"

definition send_next_block :: "catchain_ext \<Rightarrow> receiver \<Rightarrow> receiver option" where
  "send_next_block ext rc =
     (let rc = rc\<lparr>rc_active_send := False\<rparr> in
      case rc_pending_blocks rc of
        [] \<Rightarrow> Some rc
      | (payload, dep_hashes) # rest \<Rightarrow> add_block ext (rc\<lparr>rc_pending_blocks := rest\<rparr>) payload dep_hashes)"

definition own_block_written :: "catchain_ext \<Rightarrow> receiver \<Rightarrow> wire_block \<Rightarrow> bytes \<Rightarrow> receiver option" where
  "own_block_written ext rc block payload =
     do { (r, rc) \<leftarrow> create_block_with_payload ext rc block payload;
          rc \<leftarrow> (case r of None \<Rightarrow> Some rc | Some a \<Rightarrow> written (rc\<lparr>rc_last_sent_block := a\<rparr>) a);
          rc \<leftarrow> run_scheduler ext rc;
          send_next_block ext rc }"

subsection \<open>The database\<close>

text \<open>\<open>db\<close> is the content of the database when the receiver starts, and \<open>db_root\<close> the hash that is stored under the key zero.\<close>

definition read_db :: "catchain_ext \<Rightarrow> receiver \<Rightarrow> receiver option" where
  "read_db ext rc =
     do { rc \<leftarrow> (if rc_db_root_block rc \<noteq> 0
            then do { rc \<leftarrow> run_scheduler ext rc;
                      let last_sent_block = (case rc_blocks rc (rc_db_root_block rc) of None \<Rightarrow> rc_last_sent_block rc | Some a \<Rightarrow> a);
                      b \<leftarrow> block_at rc last_sent_block;
                      rs_assert (is_delivered b);
                      Some (rc\<lparr>rc_last_sent_block := last_sent_block\<rparr>) }
            else Some rc);
          Some (rc\<lparr>rc_read_db := True\<rparr>) }"

definition read_db_from :: "(block_hash \<rightharpoonup> bytes) \<Rightarrow> receiver \<Rightarrow> block_hash \<Rightarrow> receiver option" where
  "read_db_from db rc hash =
     do { raw_data \<leftarrow> db hash;
          Some (rc\<lparr>rc_pending_in_db := 1, rc_db_root_block := hash, rc_posted := rc_posted rc @ [ReadBlock hash raw_data]\<rparr>) }"

definition start_up_db :: "catchain_ext \<Rightarrow> (block_hash \<rightharpoonup> bytes) \<Rightarrow> block_hash option \<Rightarrow> receiver \<Rightarrow> receiver option" where
  "start_up_db ext db db_root rc = (case db_root of Some hash \<Rightarrow> read_db_from db rc hash | None \<Rightarrow> read_db ext rc)"

fun request_blocks :: "(block_hash \<rightharpoonup> bytes) \<Rightarrow> receiver \<Rightarrow> block_hash list \<Rightarrow> receiver option" where
  "request_blocks db rc [] = Some rc"
| "request_blocks db rc (h # hs) =
     do { known \<leftarrow> known_initialized rc h;
          (case known of
             Some a \<Rightarrow> request_blocks db rc hs
           | None \<Rightarrow>
               do { raw_data \<leftarrow> db h;
                    request_blocks db (rc\<lparr>rc_pending_in_db := rc_pending_in_db rc + 1, rc_posted := rc_posted rc @ [ReadBlock h raw_data]\<rparr>) hs }) }"

definition read_db_if_complete :: "catchain_ext \<Rightarrow> receiver \<Rightarrow> receiver option" where
  "read_db_if_complete ext rc = (if rc_pending_in_db rc = 0 then read_db ext rc else Some rc)"

definition request_dependencies :: "(block_hash \<rightharpoonup> bytes) \<Rightarrow> receiver \<Rightarrow> address \<Rightarrow> receiver option" where
  "request_dependencies db rc a =
     do { b \<leftarrow> block_at rc a;
          deps \<leftarrow> get_hashes rc (rb_block_deps b);
          p \<leftarrow> rb_prev b;
          prev \<leftarrow> block_at rc p;
          request_blocks db rc (deps @ [rb_hash prev]) }"

definition load_block :: "catchain_ext \<Rightarrow> (block_hash \<rightharpoonup> bytes) \<Rightarrow> receiver \<Rightarrow> wire_block \<Rightarrow> bytes \<Rightarrow> receiver option" where
  "load_block ext db rc block payload =
     do { (r, rc) \<leftarrow> create_block_with_payload ext rc block payload;
          a \<leftarrow> r;
          rc \<leftarrow> written rc a;
          rc \<leftarrow> request_dependencies db rc a;
          read_db_if_complete ext rc }"

definition read_block_from_db :: "catchain_ext \<Rightarrow> (block_hash \<rightharpoonup> bytes) \<Rightarrow> receiver \<Rightarrow> block_hash \<Rightarrow> bytes \<Rightarrow> receiver option" where
  "read_block_from_db ext db rc hash raw_data =
     (let rc = rc\<lparr>rc_pending_in_db := rc_pending_in_db rc - 1\<rparr> in
      case cx_parse_block ext raw_data of
        None \<Rightarrow> Some rc
      | Some (block, payload) \<Rightarrow>
          do { block_id_hash \<leftarrow> get_block_id_hash ext rc block payload;
               rs_assert (block_id_hash = hash);
               known \<leftarrow> known_initialized rc hash;
               (case known of
                  Some a \<Rightarrow> do { b \<leftarrow> block_at rc a; rs_assert (rb_in_db b); read_db_if_complete ext rc }
                | None \<Rightarrow>
                    do { receiver_get_source rc (as_usize (wb_src block));
                         rs_assert (wb_incarnation block = rc_incarnation rc);
                         ok \<leftarrow> validate_block_with_payload ext rc block payload;
                         if \<not> ok then Some rc else load_block ext db rc block payload }) })"

subsection \<open>The receiver as a whole\<close>

text \<open>\<open>ids\<close> are the public keys of the validators with their hashes, \<open>local_id\<close> is the hash of the local key.\<close>

definition receiver_new :: "catchain_ext \<Rightarrow> u256 \<Rightarrow> (u256 \<times> u256) list \<Rightarrow> u256 \<Rightarrow> bool \<Rightarrow> (block_hash \<rightharpoonup> bytes) \<Rightarrow> block_hash option \<Rightarrow> receiver option" where
  "receiver_new ext incarnation ids local_id allow_resync db db_root =
     do { let root = create_root ext (length ids) incarnation;
          local_idx \<leftarrow> map_of (zip (map snd ids) [0..<length ids]) local_id;
          start_up_db ext db db_root
            \<lparr> rc_incarnation = incarnation, rc_max_deps = 4, rc_heap = [root], rc_blocks = [rb_hash root \<mapsto> 0], rc_blocks_to_run = [],
              rc_root_block = 0, rc_last_sent_block = 0, rc_active_send = False, rc_pending_blocks = [],
              rc_sources = map (\<lambda>(i, key). source_new i key) (enumerate 0 (map fst ids)), rc_source_public_key_hashes = map snd ids,
              rc_local_id = local_id, rc_local_idx = local_idx, rc_total_forks = 0, rc_allow_unsafe_self_blocks_resync = allow_resync,
              rc_started = False, rc_pending_in_db = 0, rc_read_db = False, rc_db_root_block = 0, rc_posted = [], rc_calls = [] \<rparr> }"

text \<open>The calls from outside, and the closures of the task queue.\<close>

datatype receiver_step =
    ReceiveBlock wire_block bytes
  | GotForkProof block_dep block_dep
  | AddBlock bytes "block_hash list"
  | Process
  | RunPosted posted

fun run_posted :: "catchain_ext \<Rightarrow> (block_hash \<rightharpoonup> bytes) \<Rightarrow> receiver \<Rightarrow> posted \<Rightarrow> receiver option" where
  "run_posted ext db rc (BlockWritten hash) = block_written_to_db ext rc hash"
| "run_posted ext db rc (OwnBlock block payload) = own_block_written ext rc block payload"
| "run_posted ext db rc (ReadBlock hash raw_data) = read_block_from_db ext db rc hash raw_data"

fun step_receiver :: "catchain_ext \<Rightarrow> (block_hash \<rightharpoonup> bytes) \<Rightarrow> receiver \<Rightarrow> receiver_step \<Rightarrow> receiver option" where
  "step_receiver ext db rc (ReceiveBlock block payload) = map_option snd (receive_block ext rc block payload)"
| "step_receiver ext db rc (GotForkProof left right) = got_fork_proof ext rc left right"
| "step_receiver ext db rc (AddBlock payload deps) = add_block ext rc payload deps"
| "step_receiver ext db rc Process = (if rc_blocks_to_run rc \<noteq> [] then run_scheduler ext rc else Some rc)"
| "step_receiver ext db rc (RunPosted p) =
     (if p \<in> set (rc_posted rc) then run_posted ext db (rc\<lparr>rc_posted := remove1 p (rc_posted rc)\<rparr>) p else Some rc)"

inductive receiver_reachable :: "catchain_ext \<Rightarrow> (block_hash \<rightharpoonup> bytes) \<Rightarrow> receiver \<Rightarrow> bool" for ext db where
  started: "receiver_new ext incarnation ids local_id allow_resync db db_root = Some rc \<Longrightarrow> receiver_reachable ext db rc"
| stepped: "receiver_reachable ext db rc \<Longrightarrow> step_receiver ext db rc step = Some rc' \<Longrightarrow> receiver_reachable ext db rc'"

end
