(* ===== verification/CC_Invariant.thy ===== *)
theory CC_Invariant
  imports CC_Effects
begin

text \<open>
  The invariant of the graph of the received blocks, and that the changes of the graph keep it.
\<close>

subsection \<open>The invariant\<close>

abbreviation state_of :: "graph \<Rightarrow> address \<Rightarrow> received_block_state" where
  "state_of G a \<equiv> nd_state (gr_nodes G ! a)"

abbreviation rev_of :: "graph \<Rightarrow> address \<Rightarrow> address list" where
  "rev_of G a \<equiv> nd_rev_deps (gr_nodes G ! a)"

abbreviation deps_of :: "graph \<Rightarrow> address \<Rightarrow> address list" where
  "deps_of G a \<equiv> node_deps (gr_nodes G ! a)"

definition addresses :: "graph \<Rightarrow> address set" where
  "addresses G = {..<length (gr_nodes G)}"

definition node_ok :: "graph \<Rightarrow> address \<Rightarrow> bool" where
  "node_ok G a \<longleftrightarrow> set (deps_of G a) \<subseteq> addresses G \<and> set (rev_of G a) \<subseteq> addresses G \<and>
     (state_of G a = Null \<longrightarrow> deps_of G a = [] \<and> nd_deps (gr_nodes G ! a) = []) \<and>
     (state_of G a = Delivered \<longrightarrow> rev_of G a = [] \<and> (\<forall>d \<in> set (deps_of G a). state_of G d = Delivered)) \<and>
     (\<forall>r \<in> set (rev_of G a). state_of G r = Initialized \<or> state_of G r = Ill)"

text \<open>A block that waits is counted down by exactly those of its dependencies that are not delivered.\<close>

definition waiting_ok :: "graph \<Rightarrow> address \<Rightarrow> bool" where
  "waiting_ok G a \<longleftrightarrow> (state_of G a = Initialized \<longrightarrow>
     nd_prev (gr_nodes G ! a) \<noteq> None \<and> nd_pending (gr_nodes G ! a) = length (undelivered G (deps_of G a)) \<and>
     (\<forall>d \<in> set (deps_of G a). state_of G d \<noteq> Ill) \<and>
     (\<forall>d \<in> addresses G. state_of G d \<noteq> Delivered \<longrightarrow> count_list (rev_of G d) a = count_list (deps_of G a) d))"

definition queued_ok :: "graph \<Rightarrow> address \<Rightarrow> bool" where
  "queued_ok G a \<longleftrightarrow> (state_of G a = Initialized \<and> nd_pending (gr_nodes G ! a) = 0 \<and> nd_in_db (gr_nodes G ! a) \<longrightarrow> a \<in> set (gr_queue G))"

definition named_ok :: "graph \<Rightarrow> address \<Rightarrow> bool" where
  "named_ok G a \<longleftrightarrow> (state_of G a = Initialized \<or> state_of G a = Delivered \<longrightarrow> gr_blocks G (nd_hash (gr_nodes G ! a)) = Some a)"

definition frame_ok :: "graph \<Rightarrow> bool" where
  "frame_ok G \<longleftrightarrow> gr_root G \<in> addresses G \<and> state_of G (gr_root G) = Delivered \<and>
     (\<forall>a \<in> set (gr_queue G). a \<in> addresses G \<and> state_of G a \<noteq> Null \<and>
        (state_of G a = Initialized \<longrightarrow> nd_pending (gr_nodes G ! a) = 0 \<and> nd_in_db (gr_nodes G ! a))) \<and>
     (\<forall>h a. gr_blocks G h = Some a \<longrightarrow> a \<in> addresses G \<and> nd_hash (gr_nodes G ! a) = h) \<and>
     (\<forall>h. BlockWritten h \<in> set (gr_posted G) \<longrightarrow> (\<exists>a. gr_blocks G h = Some a \<and> state_of G a \<noteq> Null)) \<and>
     (\<forall>block payload. OwnBlock block payload \<in> set (gr_posted G) \<longrightarrow> wb_incarnation block = gr_incarnation G)"

definition causally_ordered :: "block_hash \<Rightarrow> listener_call list \<Rightarrow> bool" where
  "causally_ordered root es \<longleftrightarrow> (\<forall>i < length es. set (event_deps (es ! i)) \<subseteq> insert root (event_hash ` set (take i es)))"

definition events_ok :: "graph \<Rightarrow> bool" where
  "events_ok G \<longleftrightarrow> causally_ordered (nd_hash (gr_nodes G ! gr_root G)) (gr_events G) \<and> distinct (map event_hash (gr_events G)) \<and>
     (\<forall>a \<in> addresses G. state_of G a = Delivered \<and> a \<noteq> gr_root G \<longrightarrow> nd_hash (gr_nodes G ! a) \<in> event_hash ` set (gr_events G)) \<and>
     (\<forall>e \<in> set (gr_events G). \<exists>a. gr_blocks G (event_hash e) = Some a \<and> state_of G a = Delivered \<and> a \<noteq> gr_root G)"

text \<open>In the middle of an operation some blocks are exempt: \<open>W\<close> from the counting, \<open>Q\<close> from the queue, \<open>M\<close> from the table.\<close>

definition wf_graph :: "address set \<Rightarrow> address set \<Rightarrow> address set \<Rightarrow> graph \<Rightarrow> bool" where
  "wf_graph W Q M G \<longleftrightarrow> frame_ok G \<and> events_ok G \<and> (\<forall>a \<in> addresses G. node_ok G a) \<and>
     (\<forall>a \<in> addresses G - W. waiting_ok G a) \<and> (\<forall>a \<in> addresses G - Q. queued_ok G a) \<and> (\<forall>a \<in> addresses G - M. named_ok G a)"

lemmas wf_parts = node_ok_def waiting_ok_def queued_ok_def named_ok_def frame_ok_def events_ok_def

lemma addresses_simps [simp]:
  "addresses (put_node G a n) = addresses G" "addresses (update_nodes f G) = addresses G" "addresses (enqueue G q) = addresses G"
  "addresses (notify G e) = addresses G" "addresses (register_node G h a) = addresses G"
  "addresses (add_node G n) = insert (length (gr_nodes G)) (addresses G)"
  by (auto simp: addresses_def)

lemma wf_graphD:
  assumes "wf_graph W Q M G"
  shows "frame_ok G" and "events_ok G" and "a \<in> addresses G \<Longrightarrow> node_ok G a" and "a \<in> addresses G \<Longrightarrow> a \<notin> W \<Longrightarrow> waiting_ok G a"
    and "a \<in> addresses G \<Longrightarrow> a \<notin> Q \<Longrightarrow> queued_ok G a" and "a \<in> addresses G \<Longrightarrow> a \<notin> M \<Longrightarrow> named_ok G a"
  using assms by (simp_all add: wf_graph_def)

lemma wf_graphI:
  assumes "frame_ok G" and "events_ok G" and "\<And>a. a \<in> addresses G \<Longrightarrow> node_ok G a"
    and "\<And>a. a \<in> addresses G \<Longrightarrow> a \<notin> W \<Longrightarrow> waiting_ok G a" and "\<And>a. a \<in> addresses G \<Longrightarrow> a \<notin> Q \<Longrightarrow> queued_ok G a"
    and "\<And>a. a \<in> addresses G \<Longrightarrow> a \<notin> M \<Longrightarrow> named_ok G a"
  shows "wf_graph W Q M G"
  using assms by (simp add: wf_graph_def)

lemma node_deps_simps [simp]:
  "node_deps (n\<lparr>nd_pending := q\<rparr>) = node_deps n" "node_deps (n\<lparr>nd_rev_deps := rs\<rparr>) = node_deps n"
  "node_deps (n\<lparr>nd_state := s\<rparr>) = node_deps n" "node_deps (n\<lparr>nd_in_db := b\<rparr>) = node_deps n"
  by (simp_all add: node_deps_def split: option.splits)

lemma count_list_replicate [simp]: "count_list (replicate n a) x = (if x = a then n else 0)"
  by (induction n) auto

lemma undelivered_cong:
  assumes "set ds \<subseteq> A" and "\<And>d. d \<in> A \<Longrightarrow> state_of G' d = Delivered \<longleftrightarrow> state_of G d = Delivered"
  shows "undelivered G' ds = undelivered G ds"
  unfolding undelivered_def using assms by (intro filter_cong) auto

lemma frame_change:
  assumes "frame_ok G" and "addresses G' = addresses G" and "gr_root G' = gr_root G" and "gr_blocks G' = gr_blocks G" and "gr_posted G' = gr_posted G"
    and "gr_incarnation G' = gr_incarnation G"
    and "\<And>x. x \<in> addresses G \<Longrightarrow> nd_hash (gr_nodes G' ! x) = nd_hash (gr_nodes G ! x) \<and>
      (state_of G x = Delivered \<longrightarrow> state_of G' x = Delivered) \<and> (state_of G' x = Null \<longrightarrow> state_of G x = Null)"
    and "\<And>x. x \<in> set (gr_queue G') \<Longrightarrow> x \<in> addresses G \<and> state_of G' x \<noteq> Null \<and>
      (state_of G' x = Initialized \<longrightarrow> nd_pending (gr_nodes G' ! x) = 0 \<and> nd_in_db (gr_nodes G' ! x))"
  shows "frame_ok G'"
proof -
  have "\<exists>x. gr_blocks G h = Some x \<and> state_of G' x \<noteq> Null" if "BlockWritten h \<in> set (gr_posted G)" for h
    using assms(1,7) that unfolding frame_ok_def by metis
  then show ?thesis using assms unfolding frame_ok_def by auto
qed

lemma events_change:
  assumes "events_ok G" and "frame_ok G" and "addresses G' = addresses G" and "gr_root G' = gr_root G" and "gr_blocks G' = gr_blocks G"
    and "gr_events G' = gr_events G"
    and "\<And>x. x \<in> addresses G \<Longrightarrow> nd_hash (gr_nodes G' ! x) = nd_hash (gr_nodes G ! x) \<and> (state_of G' x = Delivered \<longleftrightarrow> state_of G x = Delivered)"
  shows "events_ok G'"
proof -
  have "\<exists>x. gr_blocks G (event_hash e) = Some x \<and> state_of G' x = Delivered \<and> x \<noteq> gr_root G" if "e \<in> set (gr_events G)" for e
    using assms(1,2,7) that unfolding events_ok_def frame_ok_def by metis
  moreover have "gr_root G \<in> addresses G" using assms(2) by (simp add: frame_ok_def)
  ultimately show ?thesis using assms(1,3-7) unfolding events_ok_def by simp
qed

subsection \<open>New nodes\<close>

lemma wf_add_null:
  assumes wf: "wf_graph W Q M G"
  shows "wf_graph W Q M (add_node G (null_node h))"
proof -
  let ?G = "add_node G (null_node h)" and ?k = "length (gr_nodes G)"
  have old: "gr_nodes ?G ! i = gr_nodes G ! i" if "i \<in> addresses G" for i using that by (simp add: addresses_def nth_append)
  have new: "gr_nodes ?G ! ?k = null_node h" by simp
  have newk: "state_of ?G ?k = Null" "rev_of ?G ?k = []" unfolding new by (simp_all add: null_node_def)
  have k: "?k \<notin> addresses G" by (simp add: addresses_def)
  note dest = wf_graphD [OF wf]
  have root: "gr_root G \<in> addresses G" and q: "\<And>a. a \<in> set (gr_queue G) \<Longrightarrow> a \<in> addresses G" and b: "\<And>h a. gr_blocks G h = Some a \<Longrightarrow> a \<in> addresses G"
    using dest(1) by (auto simp: frame_ok_def)
  show ?thesis
  proof (rule wf_graphI)
    show "frame_ok ?G" using dest(1) old root q b unfolding frame_ok_def by (auto simp del: graph_change_simps(8))
    have "\<exists>a. gr_blocks G (event_hash e) = Some a \<and> state_of ?G a = Delivered \<and> a \<noteq> gr_root G" if "e \<in> set (gr_events G)" for e
      using dest(2) that b old by (fastforce simp: events_ok_def simp del: graph_change_simps(8))
    then show "events_ok ?G" using dest(2) old root newk unfolding events_ok_def by (simp del: graph_change_simps(8))
    fix a assume "a \<in> addresses ?G"
    then consider "a \<in> addresses G" | "a = ?k" by auto
    note a = this
    show "node_ok ?G a" using a
    proof cases
      case 1
      have "set (deps_of G a) \<subseteq> addresses G" "set (rev_of G a) \<subseteq> addresses G" using dest(3) [OF 1] by (auto simp: node_ok_def)
      then have "\<forall>d \<in> set (deps_of G a). state_of ?G d = state_of G d" "\<forall>r \<in> set (rev_of G a). state_of ?G r = state_of G r" using old by (metis subsetD)+
      then show ?thesis using dest(3) [OF 1] unfolding node_ok_def old [OF 1] by (auto simp del: graph_change_simps(8))
    next
      case 2
      then show ?thesis unfolding node_ok_def 2 new by (simp add: null_node_def node_deps_def)
    qed
    show "waiting_ok ?G a" if "a \<notin> W" using a
    proof cases
      case 1
      have ds: "set (deps_of G a) \<subseteq> addresses G" "?k \<notin> set (deps_of G a)" using dest(3) [OF 1] k by (auto simp: node_ok_def)
      have "undelivered ?G (deps_of G a) = undelivered G (deps_of G a)" using ds(1) old by (intro undelivered_cong) auto
      then show ?thesis using dest(4) [OF 1 that] old 1 ds unfolding waiting_ok_def addresses_simps
        by (auto simp del: graph_change_simps(8) simp: newk count_notin)
    qed (simp add: waiting_ok_def null_node_def)
    show "queued_ok ?G a" if "a \<notin> Q" using a
    proof cases
      case 1
      show ?thesis using dest(5) [OF 1 that] unfolding queued_ok_def old [OF 1] by simp
    qed (simp add: queued_ok_def null_node_def)
    show "named_ok ?G a" if "a \<notin> M" using a
    proof cases
      case 1
      show ?thesis using dest(6) [OF 1 that] unfolding named_ok_def old [OF 1] by simp
    qed (simp add: named_ok_def null_node_def)
  qed
qed

text \<open>A name may be given to a block when it stands for nothing, or for a placeholder.\<close>

lemma wf_register:
  assumes wf: "wf_graph W Q M G" and a: "a \<in> addresses G" and h: "nd_hash (gr_nodes G ! a) = h"
    and free: "\<And>a'. gr_blocks G h = Some a' \<Longrightarrow> state_of G a' = Null"
  shows "wf_graph W Q (M - {a}) (register_node G h a)"
proof -
  let ?G = "register_node G h a"
  note dest = wf_graphD [OF wf]
  show ?thesis
  proof (rule wf_graphI)
    have "\<exists>a'. gr_blocks ?G k = Some a' \<and> state_of G a' \<noteq> Null" if "BlockWritten k \<in> set (gr_posted G)" for k
      using dest(1) that free unfolding frame_ok_def by (cases "k = h") auto
    then show "frame_ok ?G" using dest(1) a h unfolding frame_ok_def by (auto split: if_splits)
    have "event_hash e \<noteq> h" if "e \<in> set (gr_events G)" for e using dest(2) that free unfolding events_ok_def by fastforce
    then show "events_ok ?G" using dest(2) unfolding events_ok_def by auto
    fix x assume x: "x \<in> addresses ?G"
    then have x': "x \<in> addresses G" by simp
    show "node_ok ?G x" using dest(3) [OF x'] by (simp add: node_ok_def)
    show "waiting_ok ?G x" if "x \<notin> W" using dest(4) [OF x' that] by (simp add: waiting_ok_def undelivered_def)
    show "queued_ok ?G x" if "x \<notin> Q" using dest(5) [OF x' that] by (simp add: queued_ok_def)
    show "named_ok ?G x" if "x \<notin> M - {a}"
      using dest(6) [OF x'] that free h by (cases "x = a") (auto simp: named_ok_def)
  qed
qed

lemma wf_grows:
  assumes "grows G G'" and "wf_graph W Q M G"
  shows "wf_graph W Q M G' \<and> (\<forall>h a. gr_blocks G h = None \<and> gr_blocks G' h = Some a \<longrightarrow> state_of G' a = Null \<and> a \<notin> addresses G)"
  using assms
proof (induction rule: grows.induct)
  case (more G G' h)
  let ?A = "add_node G' (null_node h)" and ?k = "length (gr_nodes G')"
  have wf: "wf_graph W Q M G'" and new: "\<And>k a. gr_blocks G k = None \<Longrightarrow> gr_blocks G' k = Some a \<Longrightarrow> state_of G' a = Null \<and> a \<notin> addresses G"
    using more by blast+
  have le: "addresses G \<subseteq> addresses G'" using grows_keeps [OF more.hyps(1)] by (auto simp: addresses_def)
  have "wf_graph W Q (M - {?k}) (register_node ?A h ?k)"
    by (rule wf_register [OF wf_add_null [OF wf]]) (use more.hyps(2) in \<open>simp_all add: null_node_def addresses_def\<close>)
  moreover have "M - {?k} \<subseteq> M" by blast
  ultimately have "wf_graph W Q M (register_node ?A h ?k)" unfolding wf_graph_def by blast
  moreover have "state_of (register_node ?A h ?k) a = Null \<and> a \<notin> addresses G"
    if "gr_blocks G k = None" and "gr_blocks (register_node ?A h ?k) k = Some a" for k a
  proof (cases "k = h")
    case True
    then show ?thesis using that le by (auto simp: null_node_def addresses_def)
  next
    case False
    then have "gr_blocks G' k = Some a" using that by simp
    moreover from this have "a < ?k" using wf_graphD(1) [OF wf] by (auto simp: frame_ok_def addresses_def)
    ultimately show ?thesis using new that(1) by (simp add: nth_append)
  qed
  ultimately show ?case by blast
qed auto

subsection \<open>Initialisation keeps the invariant\<close>

lemma wf_link:
  assumes wf: "wf_graph {} {} M G" and a: "a \<in> addresses G" and null: "state_of G a = Null" and ds: "insert p (set ds) \<subseteq> addresses G"
  defines "L \<equiv> link_node a p ds G"
  shows "wf_graph {a} {a} (insert a M) L" and "state_of L a = Initialized" and "deps_of L a = p # ds" and "nd_prev (gr_nodes L ! a) = Some p"
    and "addresses L = addresses G" and "a \<notin> set (gr_queue L)" and "\<And>x. x \<in> addresses L \<Longrightarrow> a \<notin> set (rev_of L x)"
    and "nd_hash (gr_nodes L ! a) = nd_hash (gr_nodes G ! a)" and "gr_blocks L = gr_blocks G" and "\<And>x. x \<noteq> a \<Longrightarrow> gr_nodes L ! x = gr_nodes G ! x"
proof -
  note dest = wf_graphD [OF wf]
  have la: "a < length (gr_nodes G)" using a by (simp add: addresses_def)
  have nodeps: "nd_deps (gr_nodes G ! a) = []" using dest(3) [OF a] null by (simp add: node_ok_def)
  have La: "gr_nodes L ! a = (gr_nodes G ! a)\<lparr>nd_prev := Some p, nd_deps := ds, nd_state := Initialized\<rparr>"
    using la nodeps by (simp add: L_def link_node_def)
  show Lx: "gr_nodes L ! x = gr_nodes G ! x" if "x \<noteq> a" for x using that by (simp add: L_def link_node_def)
  have keep [simp]: "gr_queue L = gr_queue G" "gr_root L = gr_root G" "gr_posted L = gr_posted G" "gr_incarnation L = gr_incarnation G" "gr_events L = gr_events G"
    by (simp_all add: L_def link_node_def)
  show addr: "addresses L = addresses G" and bl: "gr_blocks L = gr_blocks G" by (simp_all add: L_def link_node_def)
  show "state_of L a = Initialized" "deps_of L a = p # ds" "nd_prev (gr_nodes L ! a) = Some p" "nd_hash (gr_nodes L ! a) = nd_hash (gr_nodes G ! a)"
    unfolding La by (simp_all add: node_deps_def)
  have aq: "a \<notin> set (gr_queue G)" using dest(1) null by (auto simp: frame_ok_def)
  then show "a \<notin> set (gr_queue L)" by simp
  have rev: "rev_of L x = rev_of G x" for x using La Lx by (cases "x = a") simp_all
  have noref: "a \<notin> set (rev_of G x)" if "x \<in> addresses G" for x using dest(3) [OF that] null by (auto simp: node_ok_def)
  then show "\<And>x. x \<in> addresses L \<Longrightarrow> a \<notin> set (rev_of L x)" using rev addr by simp
  have stx: "state_of L x = Delivered \<longleftrightarrow> state_of G x = Delivered" "state_of L x = Ill \<longleftrightarrow> state_of G x = Ill" "state_of G x = Null \<or> state_of L x = state_of G x" for x
    using La Lx null by (cases "x = a"; simp)+
  have hash: "nd_hash (gr_nodes L ! x) = nd_hash (gr_nodes G ! x)" for x using La Lx by (cases "x = a") simp_all
  show "wf_graph {a} {a} (insert a M) L"
  proof (rule wf_graphI)
    have root: "gr_root G \<noteq> a" using dest(1) null by (auto simp: frame_ok_def)
    have "\<exists>x. gr_blocks G h = Some x \<and> state_of L x \<noteq> Null" if "BlockWritten h \<in> set (gr_posted G)" for h
      using dest(1) that stx(3) unfolding frame_ok_def by metis
    moreover have "gr_nodes L ! x = gr_nodes G ! x" if "x \<in> set (gr_queue G)" for x using aq that Lx by metis
    ultimately show "frame_ok L" using dest(1) root unfolding frame_ok_def addr bl keep hash stx(1) by simp
    show "events_ok L" using dest(2) unfolding events_ok_def addr bl keep hash stx(1) .
    fix x assume "x \<in> addresses L"
    then have x: "x \<in> addresses G" by (simp add: addr)
    note ok = dest(3) [OF x]
    have revs: "\<forall>r \<in> set (rev_of G x). state_of L r = Initialized \<or> state_of L r = Ill"
      using ok noref [OF x] stx(3) unfolding node_ok_def by (metis received_block_state.distinct(1,3))
    show "node_ok L x"
    proof (cases "x = a")
      case True
      show ?thesis using ok ds revs unfolding node_ok_def addr rev True La by (simp add: node_deps_def)
    next
      case False
      show ?thesis using ok revs unfolding node_ok_def addr rev stx(1) Lx [OF False] by simp
    qed
    show "waiting_ok L x" if "x \<notin> {a}"
    proof -
      have "undelivered L (deps_of G x) = undelivered G (deps_of G x)" using stx(1) by (simp add: undelivered_def)
      then show ?thesis using dest(4) [OF x] that rev stx(1,2) Lx [of x] unfolding waiting_ok_def addr by simp
    qed
    show "queued_ok L x" if "x \<notin> {a}" using dest(5) [OF x] that Lx [of x] by (simp add: queued_ok_def)
    show "named_ok L x" if "x \<notin> insert a M" using dest(6) [OF x] that Lx [of x] bl by (simp add: named_ok_def)
  qed
qed

lemma wf_await:
  assumes wf: "wf_graph {a} {a} M G" and a: "a \<in> addresses G" and st: "state_of G a = Initialized" and prev: "nd_prev (gr_nodes G ! a) \<noteq> None"
    and self: "a \<notin> set (deps_of G a)" and good: "\<forall>d \<in> set (deps_of G a). state_of G d \<noteq> Ill"
    and queue: "a \<notin> set (gr_queue G)" and noref: "\<And>x. x \<in> addresses G \<Longrightarrow> a \<notin> set (rev_of G x)"
  defines "A \<equiv> await_node a G"
  shows "wf_graph {} {} M A" and "addresses A = addresses G" and "gr_blocks A = gr_blocks G" and "gr_posted A = gr_posted G"
    and "\<And>x. x \<in> addresses G \<Longrightarrow> state_of A x = state_of G x" and "\<And>x. x \<in> addresses G \<Longrightarrow> nd_hash (gr_nodes A ! x) = nd_hash (gr_nodes G ! x)"
proof -
  note dest = wf_graphD [OF wf]
  let ?ds = "deps_of G a" and ?q = "length (undelivered G (deps_of G a))"
  have nodes: "gr_nodes A ! x = (if x = a then (gr_nodes G ! x)\<lparr>nd_pending := ?q\<rparr> else rev_dep_node a ?ds x (gr_nodes G ! x))"
    if "x \<in> addresses G" for x using that by (simp add: A_def await_node_def Let_def addresses_def)
  have queue': "gr_queue A = gr_queue G @ (if ?q = 0 \<and> nd_in_db (gr_nodes G ! a) then [a] else [])" by (simp add: A_def await_node_def Let_def)
  have keep [simp]: "gr_root A = gr_root G" "gr_incarnation A = gr_incarnation G" "gr_events A = gr_events G" by (simp_all add: A_def await_node_def Let_def)
  show addr: "addresses A = addresses G" and bl: "gr_blocks A = gr_blocks G" and po: "gr_posted A = gr_posted G"
    by (simp_all add: A_def await_node_def Let_def)
  have fields: "state_of A x = state_of G x" "nd_hash (gr_nodes A ! x) = nd_hash (gr_nodes G ! x)" "deps_of A x = deps_of G x"
    "nd_prev (gr_nodes A ! x) = nd_prev (gr_nodes G ! x)" "nd_deps (gr_nodes A ! x) = nd_deps (gr_nodes G ! x)"
    "nd_in_db (gr_nodes A ! x) = nd_in_db (gr_nodes G ! x)" "nd_pending (gr_nodes A ! x) = (if x = a then ?q else nd_pending (gr_nodes G ! x))"
    "rev_of A x = rev_of G x @ replicate (if state_of G x = Delivered then 0 else count_list ?ds x) a"
    if "x \<in> addresses G" for x using nodes [OF that] self by (auto simp: rev_dep_node_def count_notin)
  show "\<And>x. x \<in> addresses G \<Longrightarrow> state_of A x = state_of G x" "\<And>x. x \<in> addresses G \<Longrightarrow> nd_hash (gr_nodes A ! x) = nd_hash (gr_nodes G ! x)" by (rule fields; assumption)+
  have und: "undelivered A xs = undelivered G xs" if "set xs \<subseteq> addresses G" for xs using that fields(1) by (intro undelivered_cong) auto
  show "wf_graph {} {} M A"
  proof (rule wf_graphI)
    have q: "x \<in> addresses G \<and> state_of A x \<noteq> Null \<and> (state_of A x = Initialized \<longrightarrow> nd_pending (gr_nodes A ! x) = 0 \<and> nd_in_db (gr_nodes A ! x))"
      if "x \<in> set (gr_queue A)" for x
      using dest(1) that a st queue fields [of x] unfolding frame_ok_def queue' by (auto split: if_splits)
    show "frame_ok A" by (rule frame_change [OF dest(1) addr _ bl po _ _ q]) (simp_all add: fields(1,2))
    show "events_ok A" using fields(1,2) by (intro events_change [OF dest(2,1) addr]) (simp_all add: bl)
    fix x assume "x \<in> addresses A"
    then have x: "x \<in> addresses G" by (simp add: addr)
    note f = fields [OF x] and ok = dest(3) [OF x]
    have "\<forall>y \<in> set (deps_of G x) \<union> set (rev_of G x). state_of A y = state_of G y" using ok fields(1) unfolding node_ok_def by blast
    then show "node_ok A x" using ok a st fields(1) [OF a] unfolding node_ok_def addr f by auto
    show "waiting_ok A x" if "x \<notin> {}"
    proof (cases "x = a")
      case True
      have "count_list (rev_of A d) a = count_list ?ds d" if "d \<in> addresses G" "state_of G d \<noteq> Delivered" for d
        using that noref [OF that(1)] by (simp add: fields(8) count_notin)
      moreover have "\<forall>d \<in> set ?ds. state_of A d \<noteq> Ill" using good dest(3) [OF a] fields(1) unfolding node_ok_def by auto
      ultimately show ?thesis using prev f und [of ?ds] dest(3) [OF a] fields(1) unfolding waiting_ok_def addr True node_ok_def by simp
    next
      case False
      have "count_list (rev_of A d) x = count_list (rev_of G d) x" if "d \<in> addresses G" for d
        using that False by (simp add: fields(8) count_notin)
      moreover have ds: "set (deps_of G x) \<subseteq> addresses G" using ok by (simp add: node_ok_def)
      moreover have "\<forall>d \<in> set (deps_of G x). state_of A d = state_of G d" using ds fields(1) by blast
      ultimately show ?thesis using dest(4) [OF x] False f und [OF ds] fields(1) unfolding waiting_ok_def addr by simp
    qed
    show "queued_ok A x" if "x \<notin> {}" using dest(5) [OF x] f queue' by (cases "x = a") (auto simp: queued_ok_def)
    show "named_ok A x" if "x \<notin> M" using dest(6) [OF x that] f bl by (simp add: named_ok_def)
  qed
qed

lemma dependants_wf:
  assumes nodes: "\<forall>x \<in> addresses G. node_ok G x" and a: "a \<in> addresses G" and st: "state_of G a = Initialized" and "x \<in> dependants (gr_nodes G) [a]"
  shows "x \<in> addresses G \<and> state_of G x = Initialized"
  using assms(4)
proof (induction rule: dependants.induct)
  case (rev_dep d r)
  then show ?case using nodes unfolding node_ok_def by blast
qed (use a st in simp)

lemma wf_marked:
  assumes wf: "wf_graph X X M G" and X: "X \<subseteq> {a}" "M \<subseteq> {a}" and a: "a \<in> addresses G" and st: "state_of G a = Initialized"
  shows "wf_graph {} {} {} (marked_ill a G)"
proof -
  note dest = wf_graphD [OF wf]
  let ?D = "dependants (gr_nodes G) [a]" and ?I = "marked_ill a G"
  have D: "x \<in> addresses G \<and> state_of G x = Initialized" if "x \<in> ?D" for x using dependants_wf [OF _ a st that] dest(3) by blast
  have aD: "a \<in> ?D" using st by (auto intro: dependants.start)
  have keep [simp]: "gr_queue ?I = gr_queue G" "gr_blocks ?I = gr_blocks G" "gr_root ?I = gr_root G" "gr_posted ?I = gr_posted G"
    "gr_incarnation ?I = gr_incarnation G" "gr_events ?I = gr_events G" and addr: "addresses ?I = addresses G" by (simp_all add: marked_ill_def)
  have fields: "nd_hash (gr_nodes ?I ! x) = nd_hash (gr_nodes G ! x)" "deps_of ?I x = deps_of G x" "rev_of ?I x = rev_of G x"
    "nd_prev (gr_nodes ?I ! x) = nd_prev (gr_nodes G ! x)" "nd_deps (gr_nodes ?I ! x) = nd_deps (gr_nodes G ! x)"
    "nd_in_db (gr_nodes ?I ! x) = nd_in_db (gr_nodes G ! x)" "nd_pending (gr_nodes ?I ! x) = nd_pending (gr_nodes G ! x)"
    "state_of ?I x = (if x \<in> ?D then Ill else state_of G x)"
    if "x \<in> addresses G" for x using that by (auto simp: marked_ill_def ill_node_def addresses_def)
  have stx: "state_of ?I x = Delivered \<longleftrightarrow> state_of G x = Delivered" "state_of ?I x = Null \<longleftrightarrow> state_of G x = Null" if "x \<in> addresses G" for x
    using fields(8) [OF that] D [of x] by auto
  show ?thesis
  proof (rule wf_graphI)
    have q: "x \<in> addresses G \<and> state_of ?I x \<noteq> Null \<and> (state_of ?I x = Initialized \<longrightarrow> nd_pending (gr_nodes ?I ! x) = 0 \<and> nd_in_db (gr_nodes ?I ! x))"
      if "x \<in> set (gr_queue ?I)" for x using dest(1) that fields [of x] unfolding frame_ok_def by (auto split: if_splits)
    show "frame_ok ?I" by (rule frame_change [OF dest(1) addr keep(3,2,4,5) _ q]) (simp_all add: fields(1) stx)
    show "events_ok ?I" using fields(1) stx by (intro events_change [OF dest(2,1) addr]) simp_all
    fix x assume "x \<in> addresses ?I"
    then have x: "x \<in> addresses G" by (simp add: addr)
    note f = fields [OF x] and ok = dest(3) [OF x]
    have ds: "set (deps_of G x) \<subseteq> addresses G" "set (rev_of G x) \<subseteq> addresses G" using ok by (simp_all add: node_ok_def)
    have "\<forall>r \<in> set (rev_of G x). state_of ?I r = Initialized \<or> state_of ?I r = Ill" using ok ds fields(8) unfolding node_ok_def by (metis subsetD)
    moreover have "\<forall>d \<in> set (deps_of G x). state_of ?I d = Delivered \<longleftrightarrow> state_of G d = Delivered" using ds stx(1) by blast
    ultimately show "node_ok ?I x" using ok unfolding node_ok_def addr f(1-7) stx [OF x] by simp
    have "waiting_ok ?I x \<and> queued_ok ?I x" if out: "x \<notin> ?D"
    proof -
      have notX: "x \<notin> X" using out aD X by blast
      note w = dest(4) [OF x notX]
      have "state_of ?I d \<noteq> Ill" if "state_of G x = Initialized" "d \<in> set (deps_of G x)" for d
      proof
        assume ill: "state_of ?I d = Ill"
        have d: "d \<in> addresses G" using that(2) ds(1) by blast
        have "state_of G d \<noteq> Ill" using w that by (simp add: waiting_ok_def)
        then have "d \<in> ?D" using fields(8) [OF d] ill by (simp split: if_splits)
        moreover from this have "count_list (rev_of G d) x = count_list (deps_of G x) d"
          using w that(1) d conjunct2 [OF D] by (simp add: waiting_ok_def)
        then have "x \<in> set (rev_of G d)" using that(2) by (metis count_list_0_iff)
        ultimately have "x \<in> ?D" using that(1) dependants.rev_dep [of d "gr_nodes G" "[a]" x] by simp
        then show False using out by contradiction
      qed
      moreover have "undelivered ?I (deps_of G x) = undelivered G (deps_of G x)" using ds stx(1) by (intro undelivered_cong)
      moreover have "count_list (rev_of ?I d) x = count_list (rev_of G d) x" "state_of ?I d = Delivered \<longleftrightarrow> state_of G d = Delivered" if "d \<in> addresses G" for d
        using fields(3) [OF that] stx(1) [OF that] by simp_all
      moreover have "state_of ?I x = state_of G x" using f(8) out by simp
      ultimately have "waiting_ok ?I x" using w unfolding waiting_ok_def addr f(1-7) by simp
      moreover have "queued_ok ?I x" using dest(5) [OF x notX] f out unfolding queued_ok_def by simp
      ultimately show ?thesis by blast
    qed
    moreover have "waiting_ok ?I x \<and> queued_ok ?I x \<and> named_ok ?I x" if "x \<in> ?D"
      using f(8) that by (simp add: waiting_ok_def queued_ok_def named_ok_def)
    moreover have "named_ok ?I x" if "x \<notin> ?D"
    proof -
      have "x \<notin> M" using that aD X by blast
      then show ?thesis using dest(6) [OF x] f that by (simp add: named_ok_def)
    qed
    ultimately show "waiting_ok ?I x" "queued_ok ?I x" "named_ok ?I x" by blast+
  qed
qed

subsection \<open>Delivery keeps the invariant\<close>

lemma causally_ordered_append:
  "causally_ordered root (es @ [e]) \<longleftrightarrow> causally_ordered root es \<and> set (event_deps e) \<subseteq> insert root (event_hash ` set es)"
  unfolding causally_ordered_def by (auto simp: nth_append less_Suc_eq)

lemma undelivered_one:
  assumes "\<And>d. d \<in> set ds \<Longrightarrow> state_of G' d = Delivered \<longleftrightarrow> state_of G d = Delivered \<or> d = a" and "state_of G a \<noteq> Delivered"
  shows "length (undelivered G ds) = length (undelivered G' ds) + count_list ds a"
  using assms(1) by (induction ds) (use assms(2) in \<open>auto simp: undelivered_def\<close>)

lemma ready_block:
  assumes wf: "wf_graph {} Q {} G" and a: "a \<in> addresses G" and st: "state_of G a = Initialized" and p: "nd_pending (gr_nodes G ! a) = 0"
  shows "\<forall>d \<in> set (deps_of G a). state_of G d = Delivered" and "\<And>x. x \<in> addresses G \<Longrightarrow> a \<notin> set (rev_of G x)"
    and "\<And>r. r \<in> set (rev_of G a) \<Longrightarrow> state_of G r \<noteq> Ill \<Longrightarrow>
      state_of G r = Initialized \<and> r \<in> addresses G \<and> count_list (rev_of G a) r = count_list (deps_of G r) a \<and> count_list (rev_of G a) r \<le> nd_pending (gr_nodes G ! r)"
proof -
  note dest = wf_graphD [OF wf]
  have w: "waiting_ok G a" using dest(4) [OF a] by simp
  have "undelivered G (deps_of G a) = []" using w st p by (simp add: waiting_ok_def)
  then show deps: "\<forall>d \<in> set (deps_of G a). state_of G d = Delivered" by (auto simp: undelivered_def filter_empty_conv)
  show "a \<notin> set (rev_of G x)" if x: "x \<in> addresses G" for x
  proof
    assume "a \<in> set (rev_of G x)"
    then have "state_of G x \<noteq> Delivered" "count_list (rev_of G x) a \<noteq> 0" using dest(3) [OF x] by (auto simp: node_ok_def count_list_0_iff)
    moreover from this have "count_list (rev_of G x) a = count_list (deps_of G a) x" using w st x by (simp add: waiting_ok_def)
    ultimately have "x \<in> set (deps_of G a)" "state_of G x \<noteq> Delivered" by (metis count_list_0_iff)+
    then show False using deps by blast
  qed
  fix r assume r: "r \<in> set (rev_of G a)" "state_of G r \<noteq> Ill"
  then have i: "state_of G r = Initialized" "r \<in> addresses G" using dest(3) [OF a] by (auto simp: node_ok_def)
  have wr: "waiting_ok G r" using dest(4) [OF i(2)] by simp
  then have c: "count_list (rev_of G a) r = count_list (deps_of G r) a" using i a st by (simp add: waiting_ok_def)
  have "count_list ds a \<le> length (undelivered G ds)" for ds using st by (induction ds) (auto simp: undelivered_def)
  then show "state_of G r = Initialized \<and> r \<in> addresses G \<and> count_list (rev_of G a) r = count_list (deps_of G r) a \<and> count_list (rev_of G a) r \<le> nd_pending (gr_nodes G ! r)"
    using wr i c by (simp add: waiting_ok_def)
qed

text \<open>The delivery of the block \<open>a\<close>, which the listener learns of by \<open>e\<close>.\<close>

definition delivered_graph :: "address \<Rightarrow> listener_call \<Rightarrow> address list \<Rightarrow> graph \<Rightarrow> graph" where
  "delivered_graph a e q G = enqueue (update_nodes (delivered_node a (rev_of G a)) (notify G e)) q"

lemma delivered_graph_simps [simp]:
  "gr_queue (delivered_graph a e q G) = gr_queue G @ q" "gr_blocks (delivered_graph a e q G) = gr_blocks G"
  "gr_root (delivered_graph a e q G) = gr_root G" "gr_posted (delivered_graph a e q G) = gr_posted G" "gr_incarnation (delivered_graph a e q G) = gr_incarnation G"
  "gr_events (delivered_graph a e q G) = gr_events G @ [e]" "addresses (delivered_graph a e q G) = addresses G"
  by (simp_all add: delivered_graph_def)

lemma delivered_fields:
  fixes a q e
  assumes "x \<in> addresses G"
  defines "D \<equiv> delivered_graph a e q G"
  shows "nd_hash (gr_nodes D ! x) = nd_hash (gr_nodes G ! x)" and "deps_of D x = deps_of G x" and "nd_prev (gr_nodes D ! x) = nd_prev (gr_nodes G ! x)"
    and "nd_deps (gr_nodes D ! x) = nd_deps (gr_nodes G ! x)" and "nd_in_db (gr_nodes D ! x) = nd_in_db (gr_nodes G ! x)"
    and "state_of D x = (if x = a then Delivered else state_of G x)" and "rev_of D x = (if x = a then [] else rev_of G x)"
    and "x \<noteq> a \<Longrightarrow> nd_pending (gr_nodes D ! x) = nd_pending (gr_nodes G ! x) - (if state_of G x = Ill then 0 else count_list (rev_of G a) x)"
  using assms(1) by (auto simp: D_def delivered_graph_def delivered_node_def awaited_node_def addresses_def)

lemma deliver_events:
  assumes wf: "wf_graph {} Q {} G" and a: "a \<in> addresses G" and st: "state_of G a = Initialized" and p: "nd_pending (gr_nodes G ! a) = 0"
    and e: "event_hash e = nd_hash (gr_nodes G ! a)" "event_deps e = map (\<lambda>d. nd_hash (gr_nodes G ! d)) (deps_of G a)"
  shows "events_ok (delivered_graph a e q G)"
proof -
  let ?D = "delivered_graph a e q G"
  note dest = wf_graphD [OF wf] and ready = ready_block [OF wf a st p]
  have ev: "events_ok G" and root: "gr_root G \<in> addresses G" "a \<noteq> gr_root G" using dest(1,2) st by (auto simp: frame_ok_def)
  have name: "gr_blocks G (nd_hash (gr_nodes G ! a)) = Some a" using dest(6) [OF a] st by (simp add: named_ok_def)
  have "nd_hash (gr_nodes G ! d) \<in> insert (nd_hash (gr_nodes G ! gr_root G)) (event_hash ` set (gr_events G))" if "d \<in> set (deps_of G a)" for d
  proof -
    have "d \<in> addresses G" "state_of G d = Delivered" using that ready(1) dest(3) [OF a] by (auto simp: node_ok_def)
    then show ?thesis using ev by (cases "d = gr_root G") (auto simp: events_ok_def)
  qed
  then have "causally_ordered (nd_hash (gr_nodes G ! gr_root G)) (gr_events G @ [e])"
    using ev unfolding causally_ordered_append e(2) events_ok_def by auto
  moreover have "event_hash e \<notin> event_hash ` set (gr_events G)"
  proof
    assume "event_hash e \<in> event_hash ` set (gr_events G)"
    then obtain x where "gr_blocks G (event_hash e) = Some x" "state_of G x = Delivered" using ev unfolding events_ok_def by force
    then show False using name e(1) st by simp
  qed
  moreover have "\<exists>x. gr_blocks G (event_hash f) = Some x \<and> state_of ?D x = Delivered \<and> x \<noteq> gr_root G" if f: "f \<in> set (gr_events G @ [e])" for f
  proof (cases "f = e")
    case True
    then show ?thesis using name e(1) delivered_fields(6) [OF a] root by auto
  next
    case False
    then obtain x where "gr_blocks G (event_hash f) = Some x" "state_of G x = Delivered" "x \<noteq> gr_root G" using f ev by (auto simp: events_ok_def)
    moreover from this have "x \<in> addresses G" using dest(1) by (auto simp: frame_ok_def)
    ultimately show ?thesis using delivered_fields(6) [of x G] by auto
  qed
  moreover have "nd_hash (gr_nodes ?D ! x) \<in> event_hash ` set (gr_events G @ [e])" if "x \<in> addresses G" "state_of ?D x = Delivered" "x \<noteq> gr_root G" for x
    using that delivered_fields(1,6) [OF that(1), of a e q] e(1) ev unfolding events_ok_def by (cases "x = a") auto
  ultimately show ?thesis using ev delivered_fields(1) [OF root(1)] unfolding events_ok_def by simp
qed

lemma wf_deliver:
  assumes wf: "wf_graph {} {a} {} G" and a: "a \<in> addresses G" and st: "state_of G a = Initialized" and p: "nd_pending (gr_nodes G ! a) = 0"
    and e: "event_hash e = nd_hash (gr_nodes G ! a)" "event_deps e = map (\<lambda>d. nd_hash (gr_nodes G ! d)) (deps_of G a)"
    and q: "set q = released (gr_nodes G) (rev_of G a)"
  shows "wf_graph {} {} {} (delivered_graph a e q G)"
proof -
  let ?D = "delivered_graph a e q G" and ?rs = "rev_of G a"
  note dest = wf_graphD [OF wf] and ready = ready_block [OF wf a st p] and fields = delivered_fields [of _ G a e q]
  have pend: "nd_pending (gr_nodes ?D ! x) = nd_pending (gr_nodes G ! x) - count_list ?rs x"
    if "x \<in> addresses G" "x \<noteq> a" "state_of G x = Initialized" for x using fields(8) [OF that(1,2)] that(3) by simp
  show ?thesis
  proof (rule wf_graphI)
    have "x \<in> addresses G \<and> state_of ?D x \<noteq> Null \<and> (state_of ?D x = Initialized \<longrightarrow> nd_pending (gr_nodes ?D ! x) = 0 \<and> nd_in_db (gr_nodes ?D ! x))"
      if "x \<in> set (gr_queue G)" for x
    proof -
      have x: "x \<in> addresses G" and "state_of G x \<noteq> Null" "state_of G x = Initialized \<Longrightarrow> nd_pending (gr_nodes G ! x) = 0 \<and> nd_in_db (gr_nodes G ! x)"
        using dest(1) that by (auto simp: frame_ok_def)
      then show ?thesis using pend [OF x] fields(5,6) [OF x] by (cases "x = a") auto
    qed
    moreover have "x \<in> addresses G \<and> state_of ?D x \<noteq> Null \<and> (state_of ?D x = Initialized \<longrightarrow> nd_pending (gr_nodes ?D ! x) = 0 \<and> nd_in_db (gr_nodes ?D ! x))"
      if "x \<in> set q" for x
    proof -
      have r: "x \<in> set ?rs" "state_of G x \<noteq> Ill" "nd_pending (gr_nodes G ! x) = count_list ?rs x" "nd_in_db (gr_nodes G ! x)"
        using that unfolding q released_def by auto
      have i: "state_of G x = Initialized" "x \<in> addresses G" using ready(3) [OF r(1,2)] by auto
      then show ?thesis using r pend [OF i(2)] fields(5,6) [OF i(2)] by (cases "x = a") auto
    qed
    ultimately have qs: "x \<in> addresses G \<and> state_of ?D x \<noteq> Null \<and> (state_of ?D x = Initialized \<longrightarrow> nd_pending (gr_nodes ?D ! x) = 0 \<and> nd_in_db (gr_nodes ?D ! x))"
      if "x \<in> set (gr_queue ?D)" for x using that by auto
    show "frame_ok ?D" by (rule frame_change [OF dest(1) _ _ _ _ _ _ qs]) (simp_all add: fields(1,6))
    show "events_ok ?D" by (rule deliver_events [OF wf a st p e])
    fix x assume "x \<in> addresses ?D"
    then have x: "x \<in> addresses G" by simp
    note f = fields [OF x] and ok = dest(3) [OF x]
    have ds: "set (deps_of G x) \<subseteq> addresses G" "set (rev_of G x) \<subseteq> addresses G" using ok by (simp_all add: node_ok_def)
    have sd: "\<forall>d \<in> set (deps_of G x). state_of ?D d = (if d = a then Delivered else state_of G d)" using ds fields(6) by blast
    have sr: "\<forall>r \<in> set (rev_of G x). state_of ?D r = state_of G r" using ds(2) fields(6) ready(2) [OF x] by auto
    show "node_ok ?D x" using ok sd sr ready(1) unfolding node_ok_def f(1-7) by auto
    have i: "x \<noteq> a \<and> state_of G x = Initialized" if "state_of ?D x = Initialized" using that f(6) by (simp split: if_splits)
    show "waiting_ok ?D x"
      unfolding waiting_ok_def
    proof (rule impI)
      assume "state_of ?D x = Initialized"
      then have ix: "x \<noteq> a" "state_of G x = Initialized" using i by blast+
      have w: "waiting_ok G x" using dest(4) [OF x] by simp
      have "count_list ?rs x = count_list (deps_of G x) a" using w ix a st by (simp add: waiting_ok_def)
      moreover have "length (undelivered G (deps_of G x)) = length (undelivered ?D (deps_of G x)) + count_list (deps_of G x) a"
        using sd st by (intro undelivered_one) auto
      moreover have "count_list (rev_of ?D d) x = count_list (rev_of G d) x" "state_of G d \<noteq> Delivered" if "d \<in> addresses G" "state_of ?D d \<noteq> Delivered" for d
        using fields(6,7) [OF that(1)] that(2) by (auto split: if_splits)
      ultimately show "nd_prev (gr_nodes ?D ! x) \<noteq> None \<and> nd_pending (gr_nodes ?D ! x) = length (undelivered ?D (deps_of ?D x)) \<and>
          (\<forall>d \<in> set (deps_of ?D x). state_of ?D d \<noteq> Ill) \<and>
          (\<forall>d \<in> addresses ?D. state_of ?D d \<noteq> Delivered \<longrightarrow> count_list (rev_of ?D d) x = count_list (deps_of ?D x) d)"
        using w ix sd pend [OF x ix] unfolding waiting_ok_def f(2,3) by auto
    qed
    show "queued_ok ?D x"
      unfolding queued_ok_def
    proof (rule impI, elim conjE)
      assume r: "state_of ?D x = Initialized" "nd_pending (gr_nodes ?D ! x) = 0" "nd_in_db (gr_nodes ?D ! x)"
      then have ix: "x \<noteq> a" "state_of G x = Initialized" using i by blast+
      have w: "waiting_ok G x" "queued_ok G x" using dest(4,5) [OF x] ix by simp_all
      have c: "count_list ?rs x \<le> nd_pending (gr_nodes G ! x)"
        using ready(3) [of x] ix by (cases "x \<in> set ?rs") (simp_all add: count_notin)
      show "x \<in> set (gr_queue ?D)"
      proof (cases "nd_pending (gr_nodes G ! x) = 0")
        case True
        then show ?thesis using w(2) ix r(3) f(5) by (simp add: queued_ok_def)
      next
        case False
        then have "nd_pending (gr_nodes G ! x) = count_list ?rs x" "count_list ?rs x \<noteq> 0" using c r(2) pend [OF x ix] by simp_all
        then have "x \<in> released (gr_nodes G) ?rs" using ix r(3) f(5) by (auto simp: released_def count_list_0_iff)
        then show ?thesis using q by simp
      qed
    qed
    show "named_ok ?D x" using dest(6) [OF x] st f(1,6) by (auto simp: named_ok_def split: if_splits)
  qed
qed

end
