(* ===== verification/CC_Delivery.thy ===== *)
theory CC_Delivery
  imports CC_Receiver CC_Invariant
begin

text \<open>
  The steps of the receiver keep the invariant of the graph; what follows for the deliveries: blocks are delivered once each, after
  everything they depend on, and the scheduler leaves no block behind that could be delivered.
\<close>

subsection \<open>The scheduler\<close>

lemma bind_SomeE:
  assumes "Option.bind x f = Some y"
  obtains z where "x = Some z" and "f z = Some y"
  using assms by (cases x) simp_all

lemma bind_pair_SomeE:
  assumes "Option.bind x (\<lambda>(u, v). f u v) = Some y"
  obtains u v where "x = Some (u, v)" and "f u v = Some y"
  using assms by (cases x) auto

definition wf_receiver :: "receiver \<Rightarrow> bool" where
  "wf_receiver rc \<longleftrightarrow> wf_graph {} {} {} (graph_of rc)"

lemma addresses_graph_of: "addresses (graph_of rc) = {..<length (rc_heap rc)}"
  by (simp add: addresses_def)

lemma block_at_address:
  assumes "block_at rc a = Some b"
  shows "a \<in> addresses (graph_of rc)" and "gr_nodes (graph_of rc) ! a = node_of b"
  using block_at_node [OF assms] by (simp_all add: addresses_def)

lemma wf_weaken: "wf_graph W Q M G \<Longrightarrow> W \<subseteq> W' \<Longrightarrow> Q \<subseteq> Q' \<Longrightarrow> M \<subseteq> M' \<Longrightarrow> wf_graph W' Q' M' G"
  unfolding wf_graph_def by blast

lemma process_wf:
  assumes p: "process ext rc a = Some rc'" and wf: "wf_graph {} {a} {} (graph_of rc)"
  shows "wf_receiver rc'"
proof -
  let ?G = "graph_of rc"
  from p obtain b where b: "block_at rc a = Some b" by (auto simp: process_def bind_eq_Some_conv)
  note a = block_at_address [OF b]
  show ?thesis
  proof (cases "rb_state b = Initialized")
    case False
    then have "queued_ok ?G a" unfolding queued_ok_def a(2) by simp
    then have "wf_graph {} {} {} ?G" using wf unfolding wf_graph_def by blast
    then show ?thesis using process_other [OF p b False] by (simp add: wf_receiver_def)
  next
    case True
    then have st: "state_of ?G a = Initialized" unfolding a(2) by simp
    obtain rc2 b2 where pend: "rb_pending_deps b = 0" "rb_in_db b" and b2: "block_at rc2 a = Some b2"
      and g: "graph_of rc2 = ?G \<or> graph_of rc2 = marked_ill a ?G" and d: "deliver rc2 a = Some rc'"
      by (rule process_parts [OF p b True])
    from g show ?thesis
    proof
      assume ill: "graph_of rc2 = marked_ill a ?G"
      have "a \<in> dependants (gr_nodes ?G) [a]" using st by (auto intro: dependants.start)
      then have "state_of (graph_of rc2) a = Ill" using a(1) unfolding ill by (simp add: marked_ill_def ill_node_def addresses_def)
      then have "rb_state b2 = Ill" unfolding block_at_address(2) [OF b2] by simp
      then have "rc' = rc2" using d b2 by (simp add: deliver_def)
      moreover have "wf_graph {} {} {} (marked_ill a ?G)" by (rule wf_marked [OF wf_weaken [OF wf, of "{a}" "{a}" "{}"] _ _ a(1) st]) simp_all
      ultimately show ?thesis using ill by (simp add: wf_receiver_def)
    next
      assume same: "graph_of rc2 = ?G"
      have n: "node_of b2 = node_of b" using block_at_address(2) [OF b2] a(2) unfolding same by simp
      have nb: "rb_state b2 = Initialized" "rb_rev_deps b2 = rev_of ?G a" "rb_hash b2 = nd_hash (gr_nodes ?G ! a)" "rb_prev b2 = nd_prev (gr_nodes ?G ! a)"
        using True a(2) n by (metis node_of_simps)+
      have p0: "nd_pending (gr_nodes ?G ! a) = 0" unfolding a(2) using pend by simp
      note ready = ready_block [OF wf a(1) st p0]
      have self: "a \<notin> set (rb_rev_deps b2)" unfolding nb(2) using ready(2) a(1) by blast
      have cnt: "\<forall>r \<in> set (rb_rev_deps b2). state_of (graph_of rc2) r \<noteq> Ill \<longrightarrow> count_list (rb_rev_deps b2) r \<le> nd_pending (gr_nodes (graph_of rc2) ! r)"
        unfolding nb(2) same using ready(3) by blast
      have prev: "rb_prev b2 \<noteq> None" unfolding nb(4) using wf_graphD(4) [OF wf a(1)] st by (simp add: waiting_ok_def)
      obtain e q where e: "event_hash e = rb_hash b2" "event_deps e = map (\<lambda>d. nd_hash (gr_nodes (graph_of rc2) ! d)) (node_deps (node_of b2))"
        and r: "graph_of rc' = enqueue (update_nodes (delivered_node a (rb_rev_deps b2)) (notify (graph_of rc2) e)) q"
        and q: "set q = released (gr_nodes (graph_of rc2)) (rb_rev_deps b2)"
        using graph_deliver [OF d b2 _ self cnt] nb(1) prev by (metis received_block_state.distinct(7))
      have "graph_of rc' = delivered_graph a e q ?G" unfolding r delivered_graph_def nb(2) same ..
      then show ?thesis
        using wf_deliver [OF wf a(1) st p0, of e q] e q unfolding same nb n a(2) [symmetric] by (simp add: wf_receiver_def del: graph_of_simps)
    qed
  qed
qed

lemma wf_pop:
  assumes "wf_receiver rc" and "rc_blocks_to_run rc = a # as"
  shows "wf_graph {} {a} {} (graph_of (rc\<lparr>rc_blocks_to_run := as\<rparr>))"
proof -
  let ?G = "graph_of rc" and ?P = "graph_of (rc\<lparr>rc_blocks_to_run := as\<rparr>)"
  have wf: "wf_graph {} {} {} ?G" using assms(1) by (simp add: wf_receiver_def)
  note dest = wf_graphD [OF wf]
  have addr: "addresses ?P = addresses ?G" by (simp add: addresses_def)
  show ?thesis
  proof (rule wf_graphI)
    show "frame_ok ?P" using dest(1) assms(2) unfolding frame_ok_def addr by simp
    show "events_ok ?P" using dest(2) unfolding events_ok_def addr by simp
    fix x assume "x \<in> addresses ?P"
    then have x: "x \<in> addresses ?G" by (simp add: addr)
    show "node_ok ?P x" using dest(3) [OF x] unfolding node_ok_def addr by simp
    show "waiting_ok ?P x" using dest(4) [OF x] unfolding waiting_ok_def addr by (simp add: undelivered_def)
    show "queued_ok ?P x" if "x \<notin> {a}" using dest(5) [OF x] that assms(2) unfolding queued_ok_def by auto
    show "named_ok ?P x" using dest(6) [OF x] unfolding named_ok_def by simp
  qed
qed

lemma run_scheduler_wf:
  "run_scheduler ext rc = Some rc' \<Longrightarrow> wf_receiver rc \<Longrightarrow> wf_receiver rc' \<and> rc_blocks_to_run rc' = []"
proof (induction ext rc arbitrary: rc' rule: run_scheduler.induct)
  case (1 ext rc)
  show ?case
  proof (cases "rc_blocks_to_run rc")
    case Nil
    then show ?thesis using 1 by (simp add: run_scheduler.simps)
  next
    case (Cons a as)
    then obtain rc1 where p: "process ext (rc\<lparr>rc_blocks_to_run := as\<rparr>) a = Some rc1" and r: "run_scheduler ext rc1 = Some rc'"
      using "1.prems"(1) by (auto simp: run_scheduler.simps [of ext rc] bind_eq_Some_conv)
    show ?thesis by (rule "1.IH" [OF Cons p r process_wf [OF p wf_pop [OF "1.prems"(2) Cons]]])
  qed
qed

subsection \<open>New blocks\<close>

text \<open>What an operation keeps: addresses and names, and the names it adds are those of placeholders.\<close>

definition keeps :: "graph \<Rightarrow> graph \<Rightarrow> bool" where
  "keeps G G' \<longleftrightarrow> gr_posted G' = gr_posted G \<and> gr_incarnation G' = gr_incarnation G \<and> addresses G \<subseteq> addresses G' \<and>
     gr_blocks G \<subseteq>\<^sub>m gr_blocks G' \<and> (\<forall>x \<in> addresses G. nd_hash (gr_nodes G' ! x) = nd_hash (gr_nodes G ! x) \<and> (state_of G x \<noteq> Null \<longrightarrow> state_of G' x \<noteq> Null)) \<and>
     (\<forall>h x. gr_blocks G h = None \<and> gr_blocks G' h = Some x \<longrightarrow> state_of G' x = Null)"

lemma grows_keeps': "grows G G' \<Longrightarrow> wf_graph W Q M G \<Longrightarrow> keeps G G'"
  using grows_keeps [of G G'] wf_grows [of G G' W Q M] by (auto simp: keeps_def addresses_def)

lemma initialize_wf:
  assumes i: "initialize ext rc a block payload = Some (ok, rc')" and b: "block_at rc a = Some b" and null: "rb_state b = Null" and wf: "wf_receiver rc"
  shows "if ok then wf_graph {} {} {a} (graph_of rc') \<and> keeps (graph_of rc) (graph_of rc') \<and> state_of (graph_of rc') a = Initialized else wf_receiver rc'"
proof -
  note a = block_at_address [OF b]
  obtain G p ds where g: "grows (graph_of rc) G" and refs: "\<forall>d \<in> insert p (set ds). d = gr_root G \<or> (\<exists>h. gr_blocks G h = Some d)"
    and ok: "ok \<longleftrightarrow> (\<forall>d \<in> set (deps_of (link_node a p ds G) a). state_of (link_node a p ds G) d \<noteq> Ill)"
    and ill: "\<not> ok \<longrightarrow> graph_of rc' = update_nodes (ill_node (dependants (gr_nodes (link_node a p ds G)) [a])) (link_node a p ds G)"
    and wait: "ok \<longrightarrow> graph_of rc' = await_node a (link_node a p ds G) \<and> a \<notin> set (deps_of (link_node a p ds G) a)"
    by (rule graph_initialize [OF i b null])
  have wf0: "wf_graph {} {} {} (graph_of rc)" using wf by (simp add: wf_receiver_def)
  note grown = wf_grows [OF g wf0] and kept = grows_keeps [OF g]
  let ?L = "link_node a p ds G"
  have wfG: "wf_graph {} {} {} G" using grown by blast
  have aG: "a \<in> addresses G" "gr_nodes G ! a = node_of b" using a kept by (auto simp: addresses_def)
  have ref: "insert p (set ds) \<subseteq> addresses G" using refs wf_graphD(1) [OF wfG] by (auto simp: frame_ok_def)
  have nullG: "state_of G a = Null" unfolding aG(2) using null by simp
  note L = wf_link [OF wfG aG(1) nullG ref]
  have aL: "a \<in> addresses ?L" using aG L(5) by simp
  show ?thesis
  proof (cases ok)
    case False
    then have "graph_of rc' = marked_ill a ?L" using ill by (simp add: marked_ill_def)
    moreover have "wf_graph {} {} {} (marked_ill a ?L)" by (rule wf_marked [OF L(1) _ _ aL L(2)]) simp_all
    ultimately show ?thesis using False by (simp add: wf_receiver_def)
  next
    case True
    then have A: "graph_of rc' = await_node a ?L" and self: "a \<notin> set (deps_of ?L a)" and good: "\<forall>d \<in> set (deps_of ?L a). state_of ?L d \<noteq> Ill"
      using ok wait by blast+
    have prev: "nd_prev (gr_nodes ?L ! a) \<noteq> None" using L(4) by simp
    note W = wf_await [OF L(1) aL L(2) prev self good L(6,7)]
    have wfA: "wf_graph {} {} {a} (graph_of rc')" using W(1) unfolding A by simp
    have stA: "state_of (graph_of rc') x = (if x = a then Initialized else state_of G x)" "nd_hash (gr_nodes (graph_of rc') ! x) = nd_hash (gr_nodes G ! x)"
      if "x \<in> addresses G" for x using that W(5,6) [of x] L(2,5,8) L(10) [of x] unfolding A by (cases "x = a"; simp)+
    have addr: "addresses (graph_of rc') = addresses G" "gr_blocks (graph_of rc') = gr_blocks G" "gr_posted (graph_of rc') = gr_posted G"
      "gr_incarnation (graph_of rc') = gr_incarnation G" unfolding A using W(2-4) L(5,9) by (simp_all add: link_node_def await_node_def Let_def)
    have k: "keeps (graph_of rc) G" by (rule grows_keeps' [OF g wf0])
    have "state_of (graph_of rc') x = Null" if "gr_blocks (graph_of rc) h = None" "gr_blocks G h = Some x" for h x
    proof -
      have "state_of G x = Null" "x \<notin> addresses (graph_of rc)" using grown that by blast+
      moreover have "x \<in> addresses G" using that(2) wf_graphD(1) [OF wfG] by (auto simp: frame_ok_def)
      ultimately show ?thesis using stA(1) a(1) by auto
    qed
    moreover have "nd_hash (gr_nodes (graph_of rc') ! x) = nd_hash (gr_nodes (graph_of rc) ! x) \<and> (state_of (graph_of rc) x \<noteq> Null \<longrightarrow> state_of (graph_of rc') x \<noteq> Null)"
      if x: "x \<in> addresses (graph_of rc)" for x
    proof -
      have "x \<in> addresses G" using x k by (auto simp: keeps_def)
      then show ?thesis using stA x k unfolding keeps_def by simp
    qed
    ultimately have "keeps (graph_of rc) (graph_of rc')" using k unfolding keeps_def addr by blast
    then show ?thesis using wfA True stA(1) [OF aG(1)] by simp
  qed
qed

lemma name_again:
  assumes "wf_graph {} {} {a} G" and "gr_blocks G (nd_hash (gr_nodes G ! a)) = Some a"
  shows "wf_graph {} {} {} G"
  using assms unfolding wf_graph_def named_ok_def by auto

lemma initialize_known_wf:
  assumes i: "initialize ext rc a block payload = Some (ok, rc')" and h: "rc_blocks rc h = Some a" and wf: "wf_receiver rc"
  shows "wf_receiver rc'" and "ok \<Longrightarrow> rc_blocks rc' h = Some a \<and> state_of (graph_of rc') a \<noteq> Null \<and> a \<in> addresses (graph_of rc')"
    and "ok \<Longrightarrow> keeps (graph_of rc) (graph_of rc')"
proof -
  have frame: "frame_ok (graph_of rc)" using wf wf_graphD(1) by (auto simp: wf_receiver_def)
  then have a: "a \<in> addresses (graph_of rc)" "nd_hash (gr_nodes (graph_of rc) ! a) = h" using h by (auto simp: frame_ok_def)
  from i obtain b where b: "block_at rc a = Some b" by (auto simp: initialize_def bind_eq_Some_conv)
  have same: "keeps (graph_of rc) (graph_of rc)" by (auto simp: keeps_def)
  have "wf_receiver rc' \<and> (ok \<longrightarrow> rc_blocks rc' h = Some a \<and> state_of (graph_of rc') a \<noteq> Null \<and> a \<in> addresses (graph_of rc') \<and> keeps (graph_of rc) (graph_of rc'))"
  proof (cases "rb_state b = Null")
    case False
    then have "rc' = rc" using initialize_again [OF i b] by simp
    moreover have "state_of (graph_of rc) a \<noteq> Null" using block_at_address(2) [OF b] False by simp
    ultimately show ?thesis using wf h a same by simp
  next
    case True
    note r = initialize_wf [OF i b True wf]
    show ?thesis
    proof (cases ok)
      case True
      then have k: "keeps (graph_of rc) (graph_of rc')" and w: "wf_graph {} {} {a} (graph_of rc')" and st: "state_of (graph_of rc') a = Initialized" using r by simp_all
      have h': "gr_blocks (graph_of rc') h = Some a" using k h unfolding keeps_def map_le_def by (metis domI graph_of_simps(3))
      have "nd_hash (gr_nodes (graph_of rc') ! a) = h" "a \<in> addresses (graph_of rc')" using k a unfolding keeps_def by auto
      then have "wf_receiver rc'" using name_again [OF w] h' unfolding wf_receiver_def by blast
      then show ?thesis using h' k st \<open>a \<in> addresses (graph_of rc')\<close> by simp
    qed (use r in simp)
  qed
  then show "wf_receiver rc'" "ok \<Longrightarrow> rc_blocks rc' h = Some a \<and> state_of (graph_of rc') a \<noteq> Null \<and> a \<in> addresses (graph_of rc')"
    "ok \<Longrightarrow> keeps (graph_of rc) (graph_of rc')" by blast+
qed

lemma create_with_payload_wf:
  assumes c: "create_with_payload ext rc block payload = Some (r, rc')" and h: "get_block_id_hash ext rc block payload = Some h"
    and inc: "wb_incarnation block = rc_incarnation rc" and free: "rc_blocks rc h = None" and wf: "wf_receiver rc"
  shows "case r of None \<Rightarrow> wf_receiver rc'
    | Some a \<Rightarrow> \<exists>rc''. add_received_block rc' a = Some rc'' \<and> wf_receiver rc'' \<and> rc_blocks rc'' h = Some a \<and> state_of (graph_of rc'') a \<noteq> Null \<and>
        a \<in> addresses (graph_of rc'')"
proof -
  let ?k = "length (rc_heap rc)" and ?N = "add_node (graph_of rc) (null_node h)"
  from c h inc obtain rc1 rc2 ok where rc1: "graph_of rc1 = ?N" and i: "initialize ext rc1 ?k block payload = Some (ok, rc')"
    and r: "r = (if ok then Some ?k else None)"
    unfolding create_with_payload_def Let_def get_block_id_hash_def
    by (auto simp: bind_eq_Some_conv graph_of_def add_node_def null_node_def node_of_def received_block_new_def dest!: graph_process_new_block)
  have "wf_graph {} {} {} (graph_of rc1)" unfolding rc1 using wf wf_add_null by (simp add: wf_receiver_def)
  then have wf1: "wf_receiver rc1" by (simp add: wf_receiver_def)
  from i obtain b where b: "block_at rc1 ?k = Some b" by (auto simp: initialize_def bind_eq_Some_conv)
  have nb: "node_of b = null_node h" using block_at_address(2) [OF b] unfolding rc1 by (simp add: nth_append)
  then have null: "rb_state b = Null" by (metis node_of_simps(1) node.select_convs(1) null_node_def)
  note w = initialize_wf [OF i b null wf1]
  show ?thesis
  proof (cases ok)
    case False
    then show ?thesis using w r by simp
  next
    case True
    then have w1: "wf_graph {} {} {?k} (graph_of rc')" and k: "keeps ?N (graph_of rc')" and st: "state_of (graph_of rc') ?k = Initialized"
      using w unfolding rc1 by simp_all
    have kN: "?k \<in> addresses ?N" and "nd_hash (gr_nodes ?N ! ?k) = h" by (simp_all add: null_node_def nth_append)
    then have k': "?k \<in> addresses (graph_of rc')" and hk: "nd_hash (gr_nodes (graph_of rc') ! ?k) = h" using k unfolding keeps_def by auto
    have "gr_blocks ?N h = None" using free by simp
    then have fresh: "state_of (graph_of rc') x = Null" if "gr_blocks (graph_of rc') h = Some x" for x using k that unfolding keeps_def by blast
    have reg: "wf_graph {} {} ({?k} - {?k}) (register_node (graph_of rc') h ?k)" by (rule wf_register [OF w1 k' hk fresh])
    have "?k < length (rc_heap rc')" using k' by (simp add: addresses_graph_of)
    then have "block_at rc' ?k = Some (rc_heap rc' ! ?k)" and "rb_hash (rc_heap rc' ! ?k) = h" using hk by (simp_all add: block_at_def index_eq_Some_iff)
    then have add: "add_received_block rc' ?k = Some (rc'\<lparr>rc_blocks := (rc_blocks rc')(h \<mapsto> ?k)\<rparr>)" by (simp add: add_received_block_def)
    have g: "graph_of (rc'\<lparr>rc_blocks := (rc_blocks rc')(h \<mapsto> ?k)\<rparr>) = register_node (graph_of rc') h ?k" by (simp add: graph_of_def register_node_def)
    show ?thesis using True r add reg g st k' by (simp add: wf_receiver_def del: graph_of_simps)
  qed
qed

lemma create_block_with_payload_wf:
  assumes c: "create_block_with_payload ext rc block payload = Some (r, rc')" and inc: "wb_incarnation block = rc_incarnation rc" and wf: "wf_receiver rc"
  shows "wf_receiver rc'" and "r = Some a \<Longrightarrow> state_of (graph_of rc') a \<noteq> Null \<and> a \<in> addresses (graph_of rc')"
    and "r = Some a \<Longrightarrow> wb_height block \<noteq> 0 \<Longrightarrow> get_block_id_hash ext rc block payload = Some h \<Longrightarrow> rc_blocks rc' h = Some a"
proof -
  have wf0: "wf_graph {} {} {} (graph_of rc)" using wf by (simp add: wf_receiver_def)
  have frame: "frame_ok (graph_of rc)" by (rule wf_graphD(1) [OF wf0])
  have "wf_receiver rc' \<and> (\<forall>a. r = Some a \<longrightarrow> state_of (graph_of rc') a \<noteq> Null \<and> a \<in> addresses (graph_of rc') \<and>
      (wb_height block \<noteq> 0 \<longrightarrow> (\<forall>h. get_block_id_hash ext rc block payload = Some h \<longrightarrow> rc_blocks rc' h = Some a)))"
  proof (cases "wb_height block = 0")
    case True
    then show ?thesis using c wf frame by (auto simp: create_block_with_payload_def frame_ok_def)
  next
    case False
    with c obtain h where h: "get_block_id_hash ext rc block payload = Some h" by (auto simp: create_block_with_payload_def bind_eq_Some_conv)
    show ?thesis
    proof (cases "rc_blocks rc h")
      case (Some x)
      with c False h obtain b where b: "block_at rc x = Some b" by (auto simp: create_block_with_payload_def bind_eq_Some_conv)
      show ?thesis
      proof (cases "is_initialized b")
        case True
        then have "state_of (graph_of rc) x \<noteq> Null" using block_at_address(2) [OF b] by (auto simp: is_initialized_def)
        then show ?thesis using c False h Some b True wf block_at_address(1) [OF b] by (auto simp: create_block_with_payload_def)
      next
        case ni: False
        with c False h Some b obtain ok where i: "initialize ext rc x block payload = Some (ok, rc')" and r: "r = (if ok then Some x else None)"
          by (auto simp: create_block_with_payload_def bind_eq_Some_conv)
        show ?thesis using initialize_known_wf [OF i Some wf] r h by (auto simp del: graph_of_simps)
      qed
    next
      case None
      with c False h obtain r1 rc1 where c1: "create_with_payload ext rc block payload = Some (r1, rc1)"
        and rest: "(case r1 of None \<Rightarrow> Some (None, rc1) | Some a \<Rightarrow> do { rc \<leftarrow> add_received_block rc1 a; Some (Some a, rc) }) = Some (r, rc')"
        by (auto simp: create_block_with_payload_def bind_eq_Some_conv)
      show ?thesis using create_with_payload_wf [OF c1 h inc None wf] rest h by (cases r1) (auto simp del: graph_of_simps)
    qed
  qed
  then show "wf_receiver rc'" "r = Some a \<Longrightarrow> state_of (graph_of rc') a \<noteq> Null \<and> a \<in> addresses (graph_of rc')"
    "r = Some a \<Longrightarrow> wb_height block \<noteq> 0 \<Longrightarrow> get_block_id_hash ext rc block payload = Some h \<Longrightarrow> rc_blocks rc' h = Some a" by blast+
qed

subsection \<open>Steps\<close>

definition posted_ok :: "receiver \<Rightarrow> posted \<Rightarrow> bool" where
  "posted_ok rc p = (case p of BlockWritten h \<Rightarrow> (\<exists>a. rc_blocks rc h = Some a \<and> state_of (graph_of rc) a \<noteq> Null)
     | OwnBlock block payload \<Rightarrow> wb_incarnation block = rc_incarnation rc | ReadBlock h raw_data \<Rightarrow> True)"

lemma wf_posted:
  assumes "wf_receiver rc" and "\<And>p. p \<in> set ps \<Longrightarrow> p \<in> set (rc_posted rc) \<or> posted_ok rc p"
  shows "wf_receiver (rc\<lparr>rc_posted := ps\<rparr>)"
proof -
  let ?G = "graph_of rc" and ?P = "graph_of (rc\<lparr>rc_posted := ps\<rparr>)"
  have wf: "wf_graph {} {} {} ?G" using assms(1) by (simp add: wf_receiver_def)
  note dest = wf_graphD [OF wf]
  have addr: "addresses ?P = addresses ?G" by (simp add: addresses_def)
  show ?thesis
    unfolding wf_receiver_def
  proof (rule wf_graphI)
    have "\<exists>a. rc_blocks rc h = Some a \<and> state_of ?G a \<noteq> Null" if "BlockWritten h \<in> set ps" for h
      using assms(2) [OF that] dest(1) by (auto simp: posted_ok_def frame_ok_def)
    moreover have "wb_incarnation block = rc_incarnation rc" if "OwnBlock block payload \<in> set ps" for block payload
      using assms(2) [OF that] dest(1) by (auto simp: posted_ok_def frame_ok_def)
    ultimately show "frame_ok ?P" using dest(1) unfolding frame_ok_def addr by simp
    show "events_ok ?P" using dest(2) unfolding events_ok_def addr by simp
    fix x assume "x \<in> addresses ?P"
    then have x: "x \<in> addresses ?G" by (simp add: addr)
    show "node_ok ?P x" using dest(3) [OF x] unfolding node_ok_def addr by simp
    show "waiting_ok ?P x" using dest(4) [OF x] unfolding waiting_ok_def addr by (simp add: undelivered_def)
    show "queued_ok ?P x" using dest(5) [OF x] unfolding queued_ok_def by simp
    show "named_ok ?P x" using dest(6) [OF x] unfolding named_ok_def by simp
  qed
qed

lemma written_wf:
  assumes w: "written rc a = Some rc'" and wf: "wf_receiver rc" and st: "state_of (graph_of rc) a \<noteq> Null"
  shows "wf_receiver rc'"
proof -
  let ?G = "graph_of rc"
  from w obtain b where b: "block_at rc a = Some b" by (auto simp: written_def bind_eq_Some_conv)
  note a = block_at_address [OF b]
  show ?thesis
  proof (cases "rb_in_db b")
    case True
    then show ?thesis using w b wf by (simp add: written_def)
  next
    case False
    with w b obtain rc1 where p: "put_block rc a (b\<lparr>rb_in_db := True\<rparr>) = Some rc1" and rc': "rc' = (if rb_pending_deps b = 0 then run_block rc1 a else rc1)"
      by (auto simp: written_def bind_eq_Some_conv)
    let ?W = "graph_of rc'"
    have "node_of (b\<lparr>rb_in_db := True\<rparr>) = (gr_nodes ?G ! a)\<lparr>nd_in_db := True\<rparr>" unfolding a(2) by (simp add: node_of_def)
    then have W: "?W = enqueue (put_node ?G a ((gr_nodes ?G ! a)\<lparr>nd_in_db := True\<rparr>)) (if nd_pending (gr_nodes ?G ! a) = 0 then [a] else [])"
      using graph_put_block [OF p] a(2) unfolding rc' by (auto simp: graph_run_block enqueue_def)
    have la: "a < length (gr_nodes ?G)" using a(1) by (simp add: addresses_def)
    have nodes: "gr_nodes ?W ! x = (if x = a then (gr_nodes ?G ! a)\<lparr>nd_in_db := True\<rparr> else gr_nodes ?G ! x)" for x
      unfolding W using la by (simp add: nth_list_update del: graph_of_simps)
    have f: "state_of ?W x = state_of ?G x" "rev_of ?W x = rev_of ?G x" "deps_of ?W x = deps_of ?G x" "nd_hash (gr_nodes ?W ! x) = nd_hash (gr_nodes ?G ! x)"
      "nd_prev (gr_nodes ?W ! x) = nd_prev (gr_nodes ?G ! x)" "nd_deps (gr_nodes ?W ! x) = nd_deps (gr_nodes ?G ! x)"
      "nd_pending (gr_nodes ?W ! x) = nd_pending (gr_nodes ?G ! x)" "nd_in_db (gr_nodes ?W ! x) = (x = a \<or> nd_in_db (gr_nodes ?G ! x))" for x
      using nodes [of x] by (simp_all del: graph_of_simps)
    have keep: "gr_blocks ?W = gr_blocks ?G" "gr_root ?W = gr_root ?G" "gr_posted ?W = gr_posted ?G" "gr_incarnation ?W = gr_incarnation ?G"
      "gr_events ?W = gr_events ?G" "addresses ?W = addresses ?G"
      "gr_queue ?W = gr_queue ?G @ (if nd_pending (gr_nodes ?G ! a) = 0 then [a] else [])" unfolding W by (simp_all del: graph_of_simps)
    have wf0: "wf_graph {} {} {} ?G" using wf by (simp add: wf_receiver_def)
    note dest = wf_graphD [OF wf0]
    have "wf_graph {} {} {} ?W"
    proof (rule wf_graphI)
      have "x \<in> addresses ?G \<and> state_of ?W x \<noteq> Null \<and> (state_of ?W x = Initialized \<longrightarrow> nd_pending (gr_nodes ?W ! x) = 0 \<and> nd_in_db (gr_nodes ?W ! x))"
        if "x \<in> set (gr_queue ?W)" for x
        using dest(1) that a(1) st unfolding f keep frame_ok_def by (auto simp del: graph_of_simps split: if_splits)
      then show "frame_ok ?W" using dest(1) unfolding frame_ok_def f keep by (simp del: graph_of_simps)
      show "events_ok ?W" using dest(2) unfolding events_ok_def f keep .
      fix x assume "x \<in> addresses ?W"
      then have x: "x \<in> addresses ?G" by (simp add: keep)
      show "node_ok ?W x" using dest(3) [OF x] unfolding node_ok_def f keep .
      show "waiting_ok ?W x" using dest(4) [OF x] unfolding waiting_ok_def f keep undelivered_def by simp
      show "queued_ok ?W x" using dest(5) [OF x] unfolding queued_ok_def f keep by auto
      show "named_ok ?W x" using dest(6) [OF x] unfolding named_ok_def f keep by simp
    qed
    then show ?thesis by (simp add: wf_receiver_def)
  qed
qed

lemma graph_wf: "graph_of rc' = graph_of rc \<Longrightarrow> wf_receiver rc' = wf_receiver rc"
  by (simp add: wf_receiver_def)

lemma validated_height: "validate_block_with_payload ext rc block payload = Some True \<Longrightarrow> 0 < wb_height block"
  unfolding validate_block_with_payload_def pre_validate_block_def Let_def by (cases "wb_height block \<le> 0") (simp_all split: if_splits)

lemma take_block_wf:
  assumes t: "take_block ext rc h block payload = Some (r, rc')" and h: "get_block_id_hash ext rc block payload = Some h"
    and inc: "wb_incarnation block = rc_incarnation rc" and height: "wb_height block \<noteq> 0" and wf: "wf_receiver rc"
  shows "wf_receiver rc'"
proof -
  from t obtain r1 rc1 where c: "create_block_with_payload ext rc block payload = Some (r1, rc1)"
    and rest: "(case r1 of None \<Rightarrow> Some (None, rc1) | Some a \<Rightarrow> Some (Some a, rc1\<lparr>rc_posted := rc_posted rc1 @ [BlockWritten h]\<rparr>)) = Some (r, rc')"
    unfolding take_block_def bind_eq_Some_conv by (elim exE conjE) (simp split: prod.splits)
  note w = create_block_with_payload_wf [OF c inc wf]
  show ?thesis
  proof (cases r1)
    case None
    then show ?thesis using w(1) rest by simp
  next
    case (Some a)
    have "posted_ok rc1 (BlockWritten h)" using w(2) [OF Some] w(3) [OF Some height h] by (simp add: posted_ok_def)
    then have "wf_receiver (rc1\<lparr>rc_posted := rc_posted rc1 @ [BlockWritten h]\<rparr>)" by (intro wf_posted [OF w(1)]) auto
    then show ?thesis using rest Some by simp
  qed
qed

lemma receive_block_wf:
  assumes r: "receive_block ext rc block payload = Some (r, rc')" and wf: "wf_receiver rc"
  shows "wf_receiver rc'"
proof -
  from r obtain h known where h: "get_block_id_hash ext rc block payload = Some h" and k: "known_initialized rc h = Some known"
    unfolding receive_block_def bind_eq_Some_conv by blast
  show ?thesis
  proof (cases "known = None \<and> wb_incarnation block = rc_incarnation rc")
    case False
    then show ?thesis using r h k wf by (cases known) (auto simp: receive_block_def)
  next
    case True
    then obtain ok where v: "validate_block_with_payload ext rc block payload = Some ok"
      and t: "(if \<not> ok then Some (None, rc) else take_block ext rc h block payload) = Some (r, rc')"
      using r h k by (auto simp: receive_block_def bind_eq_Some_conv)
    show ?thesis
    proof (cases ok)
      case ok: True
      then show ?thesis using take_block_wf [OF _ h conjunct2 [OF True] _ wf] t v validated_height [of ext rc block payload] by auto
    qed (use t wf in simp)
  qed
qed

lemma block_written_to_db_wf:
  assumes b: "block_written_to_db ext rc h = Some rc'" and wf: "wf_receiver rc" and st: "\<And>a. rc_blocks rc h = Some a \<Longrightarrow> state_of (graph_of rc) a \<noteq> Null"
  shows "wf_receiver rc'"
proof -
  from b obtain a rc1 where "rc_blocks rc h = Some a" and w: "written rc a = Some rc1" and s: "run_scheduler ext rc1 = Some rc'"
    by (auto simp: block_written_to_db_def bind_eq_Some_conv)
  then show ?thesis using run_scheduler_wf [OF s written_wf [OF w wf st]] by blast
qed

lemma got_fork_proof_wf:
  assumes "got_fork_proof ext rc l r = Some rc'"
  shows "graph_of rc' = graph_of rc"
  using assms unfolding got_fork_proof_def by (auto simp: bind_eq_Some_conv dest: graph_accept_fork_proof split: if_splits)

lemma add_block_impl_wf:
  assumes a: "add_block_impl ext rc payload deps = Some rc'" and wf: "wf_receiver rc"
  shows "wf_receiver rc'"
proof -
  let ?rc = "rc\<lparr>rc_active_send := True\<rparr>"
  have wf1: "wf_receiver ?rc" using wf by (simp add: wf_receiver_def)
  consider "rc' = ?rc" | block where "rc' = ?rc\<lparr>rc_posted := rc_posted ?rc @ [OwnBlock block payload]\<rparr>" "wb_incarnation block = rc_incarnation ?rc"
    using a unfolding add_block_impl_def Let_def bind_eq_Some_conv by (elim exE conjE) (fastforce split: option.splits)
  then show ?thesis
  proof cases
    case 2
    have "posted_ok ?rc (OwnBlock block payload)" using 2(2) by (simp add: posted_ok_def)
    then show ?thesis unfolding 2(1) by (intro wf_posted [OF wf1]) auto
  qed (use wf1 in simp)
qed

lemma add_block_wf:
  assumes "add_block ext rc payload deps = Some rc'" and "wf_receiver rc"
  shows "wf_receiver rc'"
proof (cases "rc_active_send rc")
  case True
  then have "graph_of rc' = graph_of rc" using assms(1) by (simp add: add_block_def) (drule sym, simp)
  then show ?thesis using assms(2) by (simp add: wf_receiver_def)
next
  case False
  then have "add_block_impl ext rc payload deps = Some rc'" using assms(1) by (simp add: add_block_def)
  then show ?thesis using assms(2) by (rule add_block_impl_wf)
qed

lemma send_next_block_wf:
  assumes "send_next_block ext rc = Some rc'" and "wf_receiver rc"
  shows "wf_receiver rc'"
proof (cases "rc_pending_blocks rc")
  case Nil
  then have "graph_of rc' = graph_of rc" using assms(1) by (simp add: send_next_block_def) (drule sym, simp)
  then show ?thesis using assms(2) by (simp add: wf_receiver_def)
next
  case (Cons pb rest)
  then have "add_block ext (rc\<lparr>rc_active_send := False, rc_pending_blocks := rest\<rparr>) (fst pb) (snd pb) = Some rc'"
    using assms(1) by (simp add: send_next_block_def case_prod_beta)
  then show ?thesis by (rule add_block_wf) (use assms(2) in \<open>simp add: wf_receiver_def\<close>)
qed

lemma written_or_not_wf:
  assumes "(case r of None \<Rightarrow> Some rc | Some a \<Rightarrow> written (rc\<lparr>rc_last_sent_block := a\<rparr>) a) = Some rc'" and "wf_receiver rc"
    and "\<And>a. r = Some a \<Longrightarrow> state_of (graph_of rc) a \<noteq> Null"
  shows "wf_receiver rc'"
proof (cases r)
  case (Some a)
  have "wf_receiver (rc\<lparr>rc_last_sent_block := a\<rparr>)" using assms(2) by (simp add: wf_receiver_def)
  moreover have "state_of (graph_of (rc\<lparr>rc_last_sent_block := a\<rparr>)) a \<noteq> Null" using assms(3) [OF Some] by simp
  moreover have "written (rc\<lparr>rc_last_sent_block := a\<rparr>) a = Some rc'" using assms(1) Some by simp
  ultimately show ?thesis using written_wf by blast
qed (use assms in simp)

lemma own_block_written_wf:
  assumes o: "own_block_written ext rc block payload = Some rc'" and inc: "wb_incarnation block = rc_incarnation rc" and wf: "wf_receiver rc"
  shows "wf_receiver rc'"
proof -
  from o obtain r rc1 where c: "create_block_with_payload ext rc block payload = Some (r, rc1)"
    and o1: "do { rc \<leftarrow> (case r of None \<Rightarrow> Some rc1 | Some a \<Rightarrow> written (rc1\<lparr>rc_last_sent_block := a\<rparr>) a); rc \<leftarrow> run_scheduler ext rc; send_next_block ext rc } = Some rc'"
    unfolding own_block_written_def by (elim bind_pair_SomeE)
  from o1 obtain rc2 rc3 where w: "(case r of None \<Rightarrow> Some rc1 | Some a \<Rightarrow> written (rc1\<lparr>rc_last_sent_block := a\<rparr>) a) = Some rc2"
    and s: "run_scheduler ext rc2 = Some rc3" and n: "send_next_block ext rc3 = Some rc'"
    by (elim bind_SomeE) blast
  note cw = create_block_with_payload_wf [OF c inc wf]
  have "wf_receiver rc2" by (rule written_or_not_wf [OF w cw(1)]) (use cw(2) in blast)
  then show ?thesis using run_scheduler_wf [OF s] send_next_block_wf [OF n] by blast
qed

subsection \<open>The database\<close>

lemma read_db_wf:
  assumes r: "read_db ext rc = Some rc'" and wf: "wf_receiver rc"
  shows "wf_receiver rc'"
proof (cases "rc_db_root_block rc = 0")
  case True
  then have "graph_of rc' = graph_of rc" using r by (simp add: read_db_def) (drule sym, simp)
  then show ?thesis using wf by (simp add: wf_receiver_def)
next
  case False
  from r obtain rc2 where r2: "(if rc_db_root_block rc \<noteq> 0
      then do { rc \<leftarrow> run_scheduler ext rc;
                let last_sent_block = (case rc_blocks rc (rc_db_root_block rc) of None \<Rightarrow> rc_last_sent_block rc | Some a \<Rightarrow> a);
                b \<leftarrow> block_at rc last_sent_block; rs_assert (is_delivered b); Some (rc\<lparr>rc_last_sent_block := last_sent_block\<rparr>) }
      else Some rc) = Some rc2" and rc': "rc' = rc2\<lparr>rc_read_db := True\<rparr>" unfolding read_db_def by (elim bind_SomeE) simp
  from r2 False obtain rc1 a where s: "run_scheduler ext rc = Some rc1" and rc2: "rc2 = rc1\<lparr>rc_last_sent_block := a\<rparr>"
    unfolding Let_def by (simp only: if_True simp_thms) (elim bind_SomeE, rule that, assumption, simp only: option.inject, erule sym)
  show ?thesis using run_scheduler_wf [OF s wf] unfolding rc' rc2 by (simp add: wf_receiver_def)
qed

lemma request_blocks_wf: "request_blocks db rc hs = Some rc' \<Longrightarrow> wf_receiver rc \<Longrightarrow> wf_receiver rc'"
proof (induction db rc hs rule: request_blocks.induct)
  case (2 db rc h hs)
  from "2.prems"(1) obtain known where k: "known_initialized rc h = Some known"
    and rest: "(case known of Some a \<Rightarrow> request_blocks db rc hs | None \<Rightarrow> do { raw_data \<leftarrow> db h;
      request_blocks db (rc\<lparr>rc_pending_in_db := rc_pending_in_db rc + 1, rc_posted := rc_posted rc @ [ReadBlock h raw_data]\<rparr>) hs }) = Some rc'"
    unfolding request_blocks.simps by (elim bind_SomeE) blast
  show ?case
  proof (cases known)
    case None
    with rest obtain raw where d: "db h = Some raw"
      and r: "request_blocks db (rc\<lparr>rc_pending_in_db := rc_pending_in_db rc + 1, rc_posted := rc_posted rc @ [ReadBlock h raw]\<rparr>) hs = Some rc'"
      by (simp only: option.case) (elim bind_SomeE, blast)
    have "wf_receiver (rc\<lparr>rc_pending_in_db := rc_pending_in_db rc + 1\<rparr>)" using "2.prems"(2) by (simp add: wf_receiver_def)
    then have "wf_receiver (rc\<lparr>rc_pending_in_db := rc_pending_in_db rc + 1, rc_posted := rc_posted rc @ [ReadBlock h raw]\<rparr>)"
      by (rule wf_posted) (auto simp: posted_ok_def)
    then show ?thesis using "2.IH"(1) [OF k None d r] by blast
  next
    case (Some a)
    then show ?thesis using "2.IH"(2) [OF k Some] rest "2.prems"(2) by simp
  qed
qed simp

lemma read_db_if_complete_wf: "read_db_if_complete ext rc = Some rc' \<Longrightarrow> wf_receiver rc \<Longrightarrow> wf_receiver rc'"
  using read_db_wf by (simp add: read_db_if_complete_def split: if_splits)

lemma load_block_wf:
  assumes l: "load_block ext db rc block payload = Some rc'" and inc: "wb_incarnation block = rc_incarnation rc" and wf: "wf_receiver rc"
  shows "wf_receiver rc'"
proof -
  from l obtain r rc1 where c: "create_block_with_payload ext rc block payload = Some (r, rc1)"
    and l1: "do { a \<leftarrow> r; rc \<leftarrow> written rc1 a; rc \<leftarrow> request_dependencies db rc a; read_db_if_complete ext rc } = Some rc'"
    unfolding load_block_def by (elim bind_pair_SomeE)
  from l1 obtain a rc2 rc3 where r: "r = Some a" and w: "written rc1 a = Some rc2" and q: "request_dependencies db rc2 a = Some rc3"
    and d: "read_db_if_complete ext rc3 = Some rc'" by (elim bind_SomeE)
  note cw = create_block_with_payload_wf [OF c inc wf]
  have "wf_receiver rc2" using written_wf [OF w cw(1)] cw(2) [OF r] by blast
  moreover from q obtain hs where "request_blocks db rc2 hs = Some rc3" unfolding request_dependencies_def by (elim bind_SomeE)
  ultimately show ?thesis using request_blocks_wf read_db_if_complete_wf [OF d] by blast
qed

lemma read_block_from_db_wf:
  assumes r: "read_block_from_db ext db rc hash raw = Some rc'" and wf: "wf_receiver rc"
  shows "wf_receiver rc'"
proof -
  let ?rc = "rc\<lparr>rc_pending_in_db := rc_pending_in_db rc - 1\<rparr>"
  have wf1: "wf_receiver ?rc" using wf by (simp add: wf_receiver_def)
  show ?thesis
  proof (cases "cx_parse_block ext raw")
    case None
    then have "?rc = rc'" using r by (simp add: read_block_from_db_def)
    then show ?thesis using wf1 by simp
  next
    case (Some bp)
    obtain block payload where bp: "bp = (block, payload)" by (cases bp)
    from r Some bp obtain known where k: "known_initialized ?rc hash = Some known"
      and rest: "(case known of
            Some a \<Rightarrow> do { b \<leftarrow> block_at ?rc a; rs_assert (rb_in_db b); read_db_if_complete ext ?rc }
          | None \<Rightarrow>
              do { receiver_get_source ?rc (as_usize (wb_src block));
                   rs_assert (wb_incarnation block = rc_incarnation ?rc);
                   ok \<leftarrow> validate_block_with_payload ext ?rc block payload;
                   if \<not> ok then Some ?rc else load_block ext db ?rc block payload }) = Some rc'"
      unfolding read_block_from_db_def Let_def by (simp only: option.case prod.case) (elim bind_SomeE)
    show ?thesis
    proof (cases known)
      case (Some a)
      with rest have "read_db_if_complete ext ?rc = Some rc'" by (simp only: option.case) (elim bind_SomeE)
      then show ?thesis using wf1 by (rule read_db_if_complete_wf)
    next
      case None
      with rest obtain u ok where u: "rs_assert (wb_incarnation block = rc_incarnation ?rc) = Some u"
        and l: "(if \<not> ok then Some ?rc else load_block ext db ?rc block payload) = Some rc'" by (simp only: option.case) (elim bind_SomeE)
      show ?thesis
      proof (cases ok)
        case True
        then have "load_block ext db ?rc block payload = Some rc'" using l by simp
        then show ?thesis by (rule load_block_wf) (use u wf1 in simp_all)
      next
        case False
        then have "?rc = rc'" using l by simp
        then show ?thesis using wf1 by simp
      qed
    qed
  qed
qed

subsection \<open>Reachable receivers\<close>

lemma start_up_db_wf:
  assumes s: "start_up_db ext db db_root rc = Some rc'" and wf: "wf_receiver rc"
  shows "wf_receiver rc'"
proof (cases db_root)
  case None
  then show ?thesis using s read_db_wf [OF _ wf] by (simp add: start_up_db_def)
next
  case (Some h)
  with s obtain raw where "rc\<lparr>rc_pending_in_db := 1, rc_db_root_block := h, rc_posted := rc_posted rc @ [ReadBlock h raw]\<rparr> = rc'"
    unfolding start_up_db_def read_db_from_def by (simp only: option.case) (elim bind_SomeE, simp)
  moreover have "wf_receiver (rc\<lparr>rc_pending_in_db := 1, rc_db_root_block := h, rc_posted := rc_posted rc @ [ReadBlock h raw]\<rparr>)"
    by (rule wf_posted) (use wf in \<open>auto simp: posted_ok_def wf_receiver_def\<close>)
  ultimately show ?thesis by simp
qed

lemma root_graph_wf:
  "wf_graph {} {} {} \<lparr> gr_nodes = [\<lparr> nd_state = Delivered, nd_prev = None, nd_deps = [], nd_rev_deps = [], nd_pending = 0, nd_in_db = False, nd_hash = h \<rparr>],
     gr_queue = [], gr_blocks = [h \<mapsto> 0], gr_root = 0, gr_posted = [], gr_incarnation = i, gr_events = [] \<rparr>"
  by (rule wf_graphI) (auto simp: wf_parts addresses_def node_deps_def causally_ordered_def split: if_splits)

lemma receiver_new_wf:
  assumes "receiver_new ext incarnation ids local_id allow_resync db db_root = Some rc"
  shows "wf_receiver rc"
proof -
  from assms obtain idx where s: "start_up_db ext db db_root
      \<lparr> rc_incarnation = incarnation, rc_max_deps = 4, rc_heap = [create_root ext (length ids) incarnation],
        rc_blocks = [rb_hash (create_root ext (length ids) incarnation) \<mapsto> 0], rc_blocks_to_run = [],
        rc_root_block = 0, rc_last_sent_block = 0, rc_active_send = False, rc_pending_blocks = [],
        rc_sources = map (\<lambda>(i, key). source_new i key) (enumerate 0 (map fst ids)), rc_source_public_key_hashes = map snd ids,
        rc_local_id = local_id, rc_local_idx = idx, rc_total_forks = 0, rc_allow_unsafe_self_blocks_resync = allow_resync,
        rc_started = False, rc_pending_in_db = 0, rc_read_db = False, rc_db_root_block = 0, rc_posted = [], rc_calls = [] \<rparr> = Some rc"
    unfolding receiver_new_def Let_def by (elim bind_SomeE)
  show ?thesis
    by (rule start_up_db_wf [OF s]) (use root_graph_wf in \<open>simp add: wf_receiver_def graph_of_def node_of_def create_root_def received_block_new_def\<close>)
qed

lemma run_posted_wf:
  assumes p: "p \<in> set (rc_posted rc)" and r: "run_posted ext db (rc\<lparr>rc_posted := remove1 p (rc_posted rc)\<rparr>) p = Some rc'" and wf: "wf_receiver rc"
  shows "wf_receiver rc'"
proof -
  let ?rc = "rc\<lparr>rc_posted := remove1 p (rc_posted rc)\<rparr>"
  have wf1: "wf_receiver ?rc" by (rule wf_posted [OF wf]) (use set_remove1_subset in fastforce)
  have frame: "frame_ok (graph_of rc)" using wf wf_graphD(1) by (simp add: wf_receiver_def)
  show ?thesis
  proof (cases p)
    case (BlockWritten h)
    have "state_of (graph_of ?rc) a \<noteq> Null" if "rc_blocks ?rc h = Some a" for a
      using frame p that unfolding BlockWritten frame_ok_def by fastforce
    moreover have "block_written_to_db ext ?rc h = Some rc'" using r BlockWritten by simp
    ultimately show ?thesis using block_written_to_db_wf [OF _ wf1] by blast
  next
    case (OwnBlock block payload)
    have "wb_incarnation block = rc_incarnation ?rc" using frame p unfolding OwnBlock frame_ok_def by (simp, blast)
    moreover have "own_block_written ext ?rc block payload = Some rc'" using r OwnBlock by simp
    ultimately show ?thesis using own_block_written_wf [OF _ _ wf1] by blast
  next
    case (ReadBlock h raw)
    then show ?thesis using r read_block_from_db_wf [OF _ wf1] by simp
  qed
qed

lemma step_wf:
  assumes s: "step_receiver ext db rc step = Some rc'" and wf: "wf_receiver rc"
  shows "wf_receiver rc'"
proof (cases step)
  case (ReceiveBlock block payload)
  then obtain r where "receive_block ext rc block payload = Some (r, rc')" using s by (cases "receive_block ext rc block payload") auto
  then show ?thesis using receive_block_wf wf by blast
next
  case (GotForkProof l r)
  then have "graph_of rc' = graph_of rc" using s got_fork_proof_wf by simp
  then show ?thesis using wf by (simp add: wf_receiver_def)
next
  case (AddBlock payload deps)
  then show ?thesis using s add_block_wf wf by simp
next
  case Process
  then show ?thesis using s wf run_scheduler_wf by (cases "rc_blocks_to_run rc = []") auto
next
  case (RunPosted p)
  then show ?thesis using s wf run_posted_wf [of p rc ext db rc'] by (cases "p \<in> set (rc_posted rc)") auto
qed

lemma receiver_reachable_wf: "receiver_reachable ext db rc \<Longrightarrow> wf_receiver rc"
  by (induction rule: receiver_reachable.induct) (use receiver_new_wf step_wf in blast)+

subsection \<open>What the listener relies on\<close>

text \<open>
  The contract between the receiver and its listener: in every state of the receiver, the blocks that were announced come after
  the blocks they name. What the listener makes of it is proved once: everything below an announced block was announced before.
\<close>

inductive below :: "listener_call list \<Rightarrow> block_hash \<Rightarrow> block_hash \<Rightarrow> bool" for es where
  named: "e \<in> set es \<Longrightarrow> d \<in> set (event_deps e) \<Longrightarrow> below es d (event_hash e)"
| further: "below es c d \<Longrightarrow> below es d h \<Longrightarrow> below es c h"

locale causal_feed =
  fixes state :: "'r \<Rightarrow> bool" and feed :: "'r \<Rightarrow> listener_call list" and root :: "'r \<Rightarrow> block_hash"
  assumes causal: "state r \<Longrightarrow> causally_ordered (root r) (feed r)"
    and once: "state r \<Longrightarrow> distinct (map event_hash (feed r))"
    and root_first: "state r \<Longrightarrow> root r \<notin> event_hash ` set (feed r)"
begin

lemma announced_before:
  assumes "state r" and "i < length (feed r)" and "d \<in> set (event_deps (feed r ! i))"
  shows "d = root r \<or> (\<exists>j < i. event_hash (feed r ! j) = d)"
proof -
  have "d \<in> insert (root r) (event_hash ` set (take i (feed r)))" using causal [OF assms(1)] assms(2,3) unfolding causally_ordered_def by blast
  then show ?thesis using assms(2) by (auto simp: in_set_conv_nth) blast
qed

lemma index_unique:
  assumes "state r" and "i < length (feed r)" and "j < length (feed r)" and "event_hash (feed r ! i) = event_hash (feed r ! j)"
  shows "i = j"
  using once [OF assms(1)] assms(2-4) nth_eq_iff_index_eq [of "map event_hash (feed r)" i j] by simp

lemma below_before:
  assumes "state r" and "below (feed r) c h" and "i < length (feed r)" and "event_hash (feed r ! i) = h"
  shows "c = root r \<or> (\<exists>j < i. event_hash (feed r ! j) = c)"
  using assms(2-4)
proof (induction arbitrary: i rule: below.induct)
  case (named e d)
  from named(1) obtain k where k: "k < length (feed r)" "feed r ! k = e" by (auto simp: in_set_conv_nth)
  then have "k = i" using index_unique [OF assms(1)] named(3,4) by simp
  then show ?case using announced_before [OF assms(1) named(3)] k named(2) by simp
next
  case (further c d h)
  from further.IH(2) [OF further.prems] consider "d = root r" | j where "j < i" "event_hash (feed r ! j) = d" by blast
  then show ?case
  proof cases
    case 1
    from further.hyps(1) have "d \<in> event_hash ` set (feed r)" by (induction rule: below.induct) auto
    then show ?thesis using root_first [OF assms(1)] 1 by simp
  next
    case 2
    have "c = root r \<or> (\<exists>k < j. event_hash (feed r ! k) = c)" using further.IH(1) 2 further.prems(1) by simp
    then show ?thesis using 2(1) less_trans by blast
  qed
qed

end

definition deliveries :: "receiver \<Rightarrow> listener_call list" where
  "deliveries rc = filter is_delivery (rc_calls rc)"

definition root_hash :: "receiver \<Rightarrow> block_hash" where
  "root_hash rc = rb_hash (rc_heap rc ! rc_root_block rc)"

lemma reachable_root: "receiver_reachable ext db rc \<Longrightarrow> nd_hash (gr_nodes (graph_of rc) ! gr_root (graph_of rc)) = root_hash rc"
  using wf_graphD(1) [of "{}" "{}" "{}" "graph_of rc"] receiver_reachable_wf [of ext db rc]
  by (simp add: wf_receiver_def frame_ok_def addresses_def root_hash_def)

lemma reachable_root_first:
  assumes "receiver_reachable ext db rc"
  shows "root_hash rc \<notin> event_hash ` set (deliveries rc)"
proof
  let ?G = "graph_of rc"
  have wf: "wf_graph {} {} {} ?G" using receiver_reachable_wf [OF assms] by (simp add: wf_receiver_def)
  note dest = wf_graphD [OF wf]
  have root: "gr_root ?G \<in> addresses ?G" "state_of ?G (gr_root ?G) = Delivered" using dest(1) by (simp_all add: frame_ok_def)
  then have "gr_blocks ?G (root_hash rc) = Some (gr_root ?G)" using dest(6) [OF root(1)] unfolding reachable_root [OF assms, symmetric] by (simp add: named_ok_def)
  moreover assume "root_hash rc \<in> event_hash ` set (deliveries rc)"
  then obtain a where "gr_blocks ?G (root_hash rc) = Some a" "a \<noteq> gr_root ?G" using dest(2) by (auto simp: events_ok_def deliveries_def)
  ultimately show False by simp
qed

interpretation listener: causal_feed "receiver_reachable ext db" deliveries root_hash for ext db
proof
  fix rc assume r: "receiver_reachable ext db rc"
  have ev: "events_ok (graph_of rc)" using wf_graphD(2) receiver_reachable_wf [OF r] by (auto simp: wf_receiver_def)
  then show "causally_ordered (root_hash rc) (deliveries rc)" unfolding events_ok_def reachable_root [OF r] by (simp add: deliveries_def)
  show "distinct (map event_hash (deliveries rc))" using ev by (simp add: events_ok_def deliveries_def)
  show "root_hash rc \<notin> event_hash ` set (deliveries rc)" by (rule reachable_root_first [OF r])
qed

lemma delivered_announced:
  assumes "receiver_reachable ext db rc" and "block_at rc a = Some b" and "rb_state b = Delivered" and "a \<noteq> rc_root_block rc"
  shows "rb_hash b \<in> set (map event_hash (deliveries rc))"
proof -
  note a = block_at_address [OF assms(2)]
  have "events_ok (graph_of rc)" using receiver_reachable_wf [OF assms(1)] wf_graphD(2) by (auto simp: wf_receiver_def)
  then have "state_of (graph_of rc) a = Delivered \<and> a \<noteq> gr_root (graph_of rc) \<longrightarrow> nd_hash (gr_nodes (graph_of rc) ! a) \<in> event_hash ` set (gr_events (graph_of rc))"
    using a(1) unfolding events_ok_def by blast
  then show ?thesis using assms(3,4) unfolding a(2) by (simp add: deliveries_def)
qed

text \<open>The links of the blocks of a reachable receiver.\<close>

definition all_deps :: "received_block \<Rightarrow> address list" where
  "all_deps b = (case rb_prev b of None \<Rightarrow> [] | Some p \<Rightarrow> p # rb_block_deps b)"

lemma node_deps_of [simp]: "node_deps (node_of b) = all_deps b"
  by (simp add: node_deps_def all_deps_def split: option.splits)

lemma reachable_block:
  assumes "receiver_reachable ext db rc" and "block_at rc a = Some b"
  shows "set (all_deps b) \<subseteq> {..<length (rc_heap rc)}" and "rb_state b = Null \<Longrightarrow> all_deps b = []"
    and "rb_state b = Delivered \<Longrightarrow> \<forall>d \<in> set (all_deps b). rb_state (rc_heap rc ! d) = Delivered"
    and "rb_state b = Initialized \<Longrightarrow> (\<forall>d \<in> set (all_deps b). rb_state (rc_heap rc ! d) \<noteq> Ill) \<and>
      rb_pending_deps b = length (filter (\<lambda>d. rb_state (rc_heap rc ! d) \<noteq> Delivered) (all_deps b)) \<and>
      (rb_pending_deps b = 0 \<and> rb_in_db b \<longrightarrow> a \<in> set (rc_blocks_to_run rc))"
proof -
  let ?G = "graph_of rc"
  have wf: "wf_graph {} {} {} ?G" using receiver_reachable_wf [OF assms(1)] by (simp add: wf_receiver_def)
  note dest = wf_graphD [OF wf] and a = block_at_address [OF assms(2)]
  note ok = dest(3) [OF a(1)]
  show ds: "set (all_deps b) \<subseteq> {..<length (rc_heap rc)}" using ok unfolding node_ok_def a(2) by (simp add: addresses_def)
  have st: "state_of ?G d = rb_state (rc_heap rc ! d)" if "d \<in> set (all_deps b)" for d using ds that by auto
  show "all_deps b = []" if "rb_state b = Null" using ok that unfolding node_ok_def a(2) by simp
  show "\<forall>d \<in> set (all_deps b). rb_state (rc_heap rc ! d) = Delivered" if "rb_state b = Delivered"
    using ok that st unfolding node_ok_def a(2) by simp
  have w: "waiting_ok ?G a" "queued_ok ?G a" using dest(4,5) [OF a(1)] by simp_all
  have u: "undelivered ?G (all_deps b) = filter (\<lambda>d. rb_state (rc_heap rc ! d) \<noteq> Delivered) (all_deps b)"
    unfolding undelivered_def by (rule filter_cong [OF refl]) (simp only: st)
  show "(\<forall>d \<in> set (all_deps b). rb_state (rc_heap rc ! d) \<noteq> Ill) \<and>
      rb_pending_deps b = length (filter (\<lambda>d. rb_state (rc_heap rc ! d) \<noteq> Delivered) (all_deps b)) \<and>
      (rb_pending_deps b = 0 \<and> rb_in_db b \<longrightarrow> a \<in> set (rc_blocks_to_run rc))" if "rb_state b = Initialized"
    using w that u st unfolding waiting_ok_def queued_ok_def a(2) by simp
qed

end
