(* ===== verification/CC_Faults.thy ===== *)
theory CC_Faults
  imports CC_Delivery
begin

text \<open>What the validation of blocks guarantees, and inputs at which the receiver stops.\<close>

lemma count_list_1: "distinct xs \<Longrightarrow> x \<in> set xs \<Longrightarrow> count_list xs x = 1"
  by (induction xs) (auto simp: count_notin)

lemma run_scheduler_reachable:
  assumes "receiver_reachable ext db rc" and "run_scheduler ext rc = Some rc'"
  shows "receiver_reachable ext db rc'"
proof (cases "rc_blocks_to_run rc = []")
  case True
  then show ?thesis using assms by (simp add: run_scheduler.simps)
next
  case False
  then have "step_receiver ext db rc Process = Some rc'" using assms(2) by simp
  then show ?thesis using assms(1) receiver_reachable.stepped by blast
qed

subsection \<open>Validation\<close>

lemma distinct_sources_iff: "distinct_sources used deps \<longleftrightarrow> distinct (map bd_src deps) \<and> set (map bd_src deps) \<inter> used = {}"
  by (induction used deps rule: distinct_sources.induct) auto

lemma validated_dependency_height: "validate_block_dependency ext rc dep = Some True \<Longrightarrow> 0 \<le> bd_height dep"
  by (cases "bd_height dep < 0") (simp_all add: validate_block_dependency_def pre_validate_block_dependency_def)

lemma validated_dependencies: "validate_dependencies ext rc deps = Some True \<Longrightarrow> \<forall>d \<in> set deps. 0 \<le> bd_height d"
proof (induction deps)
  case (Cons d ds)
  from Cons.prems have "validate_block_dependency ext rc d = Some True" "validate_dependencies ext rc ds = Some True"
    by (auto simp: bind_eq_Some_conv split: if_splits)
  then show ?case using Cons.IH validated_dependency_height by simp
qed simp

lemma pre_validate_blockD:
  assumes "pre_validate_block ext rc block payload = Some True"
  shows "wb_incarnation block = rc_incarnation rc \<and> 0 < wb_height block \<and> 0 \<le> wb_src block \<and> as_usize (wb_src block) < length (rc_sources rc) \<and>
    bd_height (wb_prev block) + 1 = wb_height block \<and> length (wb_deps block) \<le> rc_max_deps rc \<and>
    distinct_sources {wb_src block} (wb_deps block) \<and> 0 \<le> bd_height (wb_prev block) \<and> (\<forall>d \<in> set (wb_deps block). 0 \<le> bd_height d) \<and> payload \<noteq> []"
proof -
  from assms have "validate_block_dependency ext rc (wb_prev block) = Some True" "validate_dependencies ext rc (wb_deps block) = Some True"
    unfolding pre_validate_block_def Let_def by (auto simp: bind_eq_Some_conv split: if_splits)
  note validated_dependency_height [OF this(1)] validated_dependencies [OF this(2)]
  then show ?thesis using assms unfolding pre_validate_block_def Let_def by (auto simp: bind_eq_Some_conv split: if_splits)
qed

subsection \<open>Panics\<close>

lemma create_with_payload_repeated:
  assumes "get_block_id_hash ext rc block payload = Some h" and "wb_incarnation block = rc_incarnation rc"
    and "receiver_get_source rc (as_usize (wb_src block)) = Some s" and "\<not> is_fork_found s"
    and "map_of (src_blocks s) (wb_height block) = Some e" and "block_at rc e = Some x" and "rb_hash x = h"
  shows "create_with_payload ext rc block payload = None"
proof -
  have "e < length (rc_heap rc)" "rc_heap rc ! e = x" using assms(6) by (simp_all add: block_at_def index_eq_Some_iff)
  then show ?thesis using assms
    by (auto simp: create_with_payload_def get_block_id_hash_def process_new_block_def receiver_get_source_def block_at_def index_eq_Some_iff nth_append
        Let_def bind_eq_Some_conv bind_eq_None_conv rs_assert_def)
qed

lemma process_prev_dependency:
  assumes "block_at rc a = Some b" and "rb_state b = Initialized" and "rb_prev b = Some p" and "rb_block_deps b = p # ds"
  shows "process ext rc a = None"
proof (rule ccontr)
  assume "process ext rc a \<noteq> None"
  then obtain rc' where "process ext rc a = Some rc'" by blast
  then obtain rc1 rc2 where f: "initialize_fork rc a = Some rc1" and d: "pre_deliver ext rc1 a = Some rc2"
    using assms(1,2) unfolding process_def by (auto elim!: bind_SomeE)
  from d obtain b1 where b1: "block_at rc1 a = Some b1" unfolding pre_deliver_def by (elim bind_SomeE)
  have n: "node_of b1 = node_of b" using block_at_node(3) [OF b1] block_at_node(3) [OF assms(1)] unfolding graph_initialize_fork [OF f] by simp
  have "rb_state b1 = Initialized" "rb_prev b1 = Some p" "rb_block_deps b1 = p # ds" using assms(2-4) n by (metis node_of_simps(1-3))+
  then show False using d b1 by (auto simp: pre_deliver_def bind_eq_Some_conv)
qed

end
