(* ===== verification/CC_Example.thy ===== *)
theory CC_Example
  imports CC_Faults
begin

text \<open>
  A concrete receiver with two validators, and the blocks the other one sends. The properties of the receiver are
  instantiated on the states it goes through.
\<close>

text \<open>
  Stand-ins for the code outside the repository: an identifier is serialised to a byte of each of its parts, the hash reads
  the bytes as a number, a signature is valid when it repeats the key, the payload 9 is a proof of a fork (of a block with
  itself), and the node signs with its key 5.
\<close>

definition example_dep :: block_dep where
  "example_dep = \<lparr> bd_src = 1, bd_height = 1, bd_data_hash = 3, bd_signature = [6] \<rparr>"

definition example_catchain :: catchain_ext where
  "example_catchain = \<lparr> cx_serialize_id = (\<lambda>incarnation key height data. [ucast incarnation, ucast key, word_of_int height, ucast data]),
     cx_hash = foldl (\<lambda>h b. h * 256 + ucast b) 0,
     cx_verify = (\<lambda>key bytes signature. signature = [ucast key]),
     cx_parse_data = (\<lambda>bytes. if bytes = [9] then Some (DataFork example_dep example_dep) else None),
     cx_serialize_fork = (\<lambda>(left, right). [9]),
     cx_parse_block = (\<lambda>bytes. None),
     cx_sign = (\<lambda>bytes. Some [5]),
     cx_log_warn = False \<rparr>"

fun run_steps :: "catchain_ext \<Rightarrow> (block_hash \<rightharpoonup> bytes) \<Rightarrow> receiver \<Rightarrow> receiver_step list \<Rightarrow> receiver option" where
  "run_steps ext db rc [] = Some rc"
| "run_steps ext db rc (s # ss) = do { rc \<leftarrow> step_receiver ext db rc s; run_steps ext db rc ss }"

lemma run_steps_reachable:
  "run_steps ext db rc ss = Some rc' \<Longrightarrow> receiver_reachable ext db rc \<Longrightarrow> receiver_reachable ext db rc'"
  by (induction ss arbitrary: rc) (auto simp: bind_eq_Some_conv intro: receiver_reachable.stepped)

definition example_start :: "receiver option" where
  "example_start = receiver_new example_catchain 7 [(5, 5), (6, 6)] 5 False Map.empty None"

definition example_run :: "receiver_step list \<Rightarrow> receiver option" where
  "example_run ss = do { rc \<leftarrow> example_start; run_steps example_catchain Map.empty rc ss }"

lemma example_run_reachable: "example_run ss = Some rc \<Longrightarrow> receiver_reachable example_catchain Map.empty rc"
  unfolding example_run_def example_start_def by (auto simp: bind_eq_Some_conv intro: run_steps_reachable receiver_reachable.started)

text \<open>The first block of the other validator with the payload 3, and the next one.\<close>

definition example_root_dep :: block_dep where
  "example_root_dep = \<lparr> bd_src = 2, bd_height = 0, bd_data_hash = 7, bd_signature = [] \<rparr>"

definition example_first :: wire_block where
  "example_first = \<lparr> wb_incarnation = 7, wb_src = 1, wb_height = 1, wb_prev = example_root_dep, wb_deps = [], wb_signature = [6] \<rparr>"

definition example_second :: wire_block where
  "example_second = \<lparr> wb_incarnation = 7, wb_src = 1, wb_height = 2, wb_prev = example_dep, wb_deps = [], wb_signature = [6] \<rparr>"

text \<open>The second block arrives and is written before the first.\<close>

definition example_steps :: "receiver_step list" where
  "example_steps = [ReceiveBlock example_second [4], ReceiveBlock example_first [3], RunPosted (BlockWritten 0x07060204), RunPosted (BlockWritten 0x07060103)]"

text \<open>A first block with a wrong proof of a fork, and the block after it.\<close>

definition example_after_ill :: wire_block where
  "example_after_ill = example_second\<lparr>wb_prev := example_dep\<lparr>bd_data_hash := 9\<rparr>\<rparr>"

definition example_ill_steps :: "receiver_step list" where
  "example_ill_steps = [ReceiveBlock example_first [9], RunPosted (BlockWritten 0x07060109), ReceiveBlock example_after_ill [4]]"

text \<open>A first block that names the root as a dependency too.\<close>

definition example_on_root :: wire_block where
  "example_on_root = example_first\<lparr>wb_deps := [example_root_dep]\<rparr>"

text \<open>Another block of the height 1.\<close>

definition example_other :: received_block where
  "example_other = received_block_new\<lparr>rb_hash := 8, rb_source_id := 1, rb_height := 1\<rparr>"

lemma case_option_ex: "(case x of None \<Rightarrow> False | Some y \<Rightarrow> P y) \<Longrightarrow> \<exists>y. x = Some y \<and> P y"
  by (cases x) simp_all

lemmas example_starts = case_option_ex [where x = example_start]

lemma example_runs:
  "\<exists>rc. example_run ss = Some rc \<and> receiver_reachable example_catchain Map.empty rc \<and> P rc"
  if "case example_run ss of None \<Rightarrow> False | Some rc \<Rightarrow> P rc"
  using case_option_ex [OF that] example_run_reachable by blast

end
