(* ===== verification/CC_Components.thy ===== *)
theory CC_Components
  imports CC_Example
begin

text \<open>
  The properties of the receiver of the catchain, instantiated on the example receiver.
\<close>

text \<open>
  C6. Causal delivery: in every state the receiver of the catchain can reach, whatever blocks the network
  sends, in whatever order they are received, written and read back, a block is announced to the listener
  only after every block below it in the graph of dependencies.
\<close>

theorem everything_below_is_delivered_first:
  assumes "receiver_reachable ext db rc" and "i < length (deliveries rc)" and "below (deliveries rc) c (event_hash (deliveries rc ! i))"
  shows "c = root_hash rc \<or> (\<exists>j < i. event_hash (deliveries rc ! j) = c)"
  by (rule listener.below_before [OF assms(1,3,2) refl])

theorem everything_below_is_delivered_first_witness:
  "\<exists>rc. example_run example_steps = Some rc \<and> (\<exists>j < 1. event_hash (deliveries rc ! j) = 0x07060103)"
proof -
  have result: "case example_run example_steps of None \<Rightarrow> False | Some rc \<Rightarrow> length (deliveries rc) = 2 \<and> 0x07060103 \<in> set (event_deps (deliveries rc ! 1)) \<and> root_hash rc \<noteq> 0x07060103" by code_simp
  obtain rc where run: "example_run example_steps = Some rc" and reach: "receiver_reachable example_catchain Map.empty rc"
    and shape: "length (deliveries rc) = 2 \<and> 0x07060103 \<in> set (event_deps (deliveries rc ! 1)) \<and> root_hash rc \<noteq> 0x07060103" using example_runs [OF result] by blast
  have "below (deliveries rc) 0x07060103 (event_hash (deliveries rc ! 1))" using shape by (intro below.named) simp_all
  moreover have "1 < length (deliveries rc)" using shape by simp
  ultimately have "0x07060103 = root_hash rc \<or> (\<exists>j < 1. event_hash (deliveries rc ! j) = 0x07060103)"
    using everything_below_is_delivered_first [OF reach] by blast
  then show ?thesis using run shape by metis
qed

text \<open>
  C7. A block of the catchain that is delivered has been announced to the listener exactly once.
\<close>

theorem blocks_are_delivered_once:
  assumes "receiver_reachable ext db rc" and "block_at rc a = Some b" and "rb_state b = Delivered" and "a \<noteq> rc_root_block rc"
  shows "length (filter (\<lambda>e. event_hash e = rb_hash b) (deliveries rc)) = 1"
proof -
  have "distinct (map event_hash (deliveries rc))" by (rule listener.once [OF assms(1)])
  then have "count_list (map event_hash (deliveries rc)) (rb_hash b) = 1"
    using delivered_announced [OF assms] by (rule count_list_1)
  then show ?thesis by (simp add: count_list_eq_length_filter filter_map comp_def eq_commute)
qed

theorem blocks_are_delivered_once_witness:
  "\<exists>rc. example_run example_steps = Some rc \<and> length (filter (\<lambda>e. event_hash e = 0x07060204) (deliveries rc)) = 1"
proof -
  have result: "case example_run example_steps of None \<Rightarrow> False | Some rc \<Rightarrow> map_option rb_hash (block_at rc 1) = Some 0x07060204 \<and> map_option rb_state (block_at rc 1) = Some Delivered \<and> rc_root_block rc = 0" by code_simp
  obtain rc where run: "example_run example_steps = Some rc" and reach: "receiver_reachable example_catchain Map.empty rc"
    and shape: "map_option rb_hash (block_at rc 1) = Some 0x07060204 \<and> map_option rb_state (block_at rc 1) = Some Delivered \<and> rc_root_block rc = 0" using example_runs [OF result] by blast
  then obtain b where b: "block_at rc 1 = Some b" "rb_hash b = 0x07060204" "rb_state b = Delivered" by auto
  show ?thesis using blocks_are_delivered_once [OF reach b(1,3)] b(2) shape run by simp
qed

text \<open>
  C8. When the scheduler of the receiver returns, its queue is empty, and a block that is in the database
  and still waits has a dependency that is itself neither delivered nor bad: no block that could be
  delivered is left behind.
\<close>

theorem no_ready_block_is_left:
  assumes "receiver_reachable ext db rc" and "run_scheduler ext rc = Some rc'" and "block_at rc' a = Some b"
    and "rb_state b = Initialized" and "rb_in_db b"
  shows "rc_blocks_to_run rc' = [] \<and> (\<exists>d \<in> set (all_deps b). rb_state (rc_heap rc' ! d) \<in> {Null, Initialized})"
proof -
  have empty: "rc_blocks_to_run rc' = []" using run_scheduler_wf [OF assms(2) receiver_reachable_wf [OF assms(1)]] by blast
  have reach: "receiver_reachable ext db rc'" by (rule run_scheduler_reachable [OF assms(1,2)])
  note b = reachable_block(4) [OF reach assms(3,4)]
  have "rb_pending_deps b \<noteq> 0" using b assms(5) empty by auto
  then obtain d where "d \<in> set (all_deps b)" "rb_state (rc_heap rc' ! d) \<noteq> Delivered" using b by (auto simp: filter_empty_conv)
  moreover from this have "rb_state (rc_heap rc' ! d) \<in> {Null, Initialized}" using b by (cases "rb_state (rc_heap rc' ! d)") auto
  ultimately show ?thesis using empty by blast
qed

theorem no_ready_block_is_left_witness:
  "\<exists>rc b. example_run [ReceiveBlock example_second [4], RunPosted (BlockWritten 0x07060204)] = Some rc \<and> block_at rc 1 = Some b \<and>
     (\<exists>d \<in> set (all_deps b). rb_state (rc_heap rc ! d) \<in> {Null, Initialized})"
proof -
  have result: "case example_run [ReceiveBlock example_second [4], RunPosted (BlockWritten 0x07060204)] of None \<Rightarrow> False | Some rc \<Rightarrow> rc_blocks_to_run rc = [] \<and> map_option rb_state (block_at rc 1) = Some Initialized \<and> map_option rb_in_db (block_at rc 1) = Some True" by code_simp
  obtain rc where run: "example_run [ReceiveBlock example_second [4], RunPosted (BlockWritten 0x07060204)] = Some rc" and reach: "receiver_reachable example_catchain Map.empty rc"
    and shape: "rc_blocks_to_run rc = [] \<and> map_option rb_state (block_at rc 1) = Some Initialized \<and> map_option rb_in_db (block_at rc 1) = Some True" using example_runs [OF result] by blast
  have ends: "run_scheduler example_catchain rc = Some rc" using shape by (simp add: run_scheduler.simps)
  from shape obtain b where b: "block_at rc 1 = Some b" "rb_state b = Initialized" "rb_in_db b" by auto
  show ?thesis using no_ready_block_is_left [OF reach ends b] run b(1) by blast
qed

text \<open>
  C9. A block with a dependency, or a previous block, that is marked as bad is marked as bad itself: the
  receiver never delivers it.
\<close>

theorem blocks_on_bad_blocks_are_bad:
  assumes "receiver_reachable ext db rc" and "block_at rc a = Some b" and "d \<in> set (all_deps b)" and "rb_state (rc_heap rc ! d) = Ill"
  shows "rb_state b = Ill"
proof (cases "rb_state b")
  case Null
  then show ?thesis using reachable_block(2) [OF assms(1,2)] assms(3) by simp
next
  case Initialized
  then show ?thesis using reachable_block(4) [OF assms(1,2)] assms(3,4) by auto
next
  case Delivered
  then show ?thesis using reachable_block(3) [OF assms(1,2)] assms(3,4) by auto
qed

theorem blocks_on_bad_blocks_are_bad_witness:
  "\<exists>rc b. example_run example_ill_steps = Some rc \<and> block_at rc 2 = Some b \<and> rb_state b = Ill"
proof -
  have result: "case example_run example_ill_steps of None \<Rightarrow> False | Some rc \<Rightarrow> map_option all_deps (block_at rc 2) = Some [1] \<and> rb_state (rc_heap rc ! 1) = Ill" by code_simp
  obtain rc where run: "example_run example_ill_steps = Some rc" and reach: "receiver_reachable example_catchain Map.empty rc"
    and shape: "map_option all_deps (block_at rc 2) = Some [1] \<and> rb_state (rc_heap rc ! 1) = Ill" using example_runs [OF result] by blast
  from shape obtain b where b: "block_at rc 2 = Some b" "1 \<in> set (all_deps b)" by auto
  show ?thesis using blocks_on_bad_blocks_are_bad [OF reach b] shape run b(1) by blast
qed

text \<open>
  C17. Marking a block as bad marks exactly the blocks that wait for it, directly or through others, and
  changes the state of no other block.
\<close>

theorem bad_blocks_mark_their_dependants:
  assumes "set_ill held [a] rc = Some rc'" and "i < length (rc_heap rc)"
  shows "rb_state (rc_heap rc' ! i) = (if i \<in> dependants (map node_of (rc_heap rc)) [a] then Ill else rb_state (rc_heap rc ! i))"
proof -
  note g = graph_set_ill [OF assms(1)]
  have len: "length (rc_heap rc') = length (rc_heap rc)" using arg_cong [OF g, of "\<lambda>G. length (gr_nodes G)"] by simp
  have "nd_state (gr_nodes (graph_of rc') ! i) = (if i \<in> dependants (map node_of (rc_heap rc)) [a] then Ill else nd_state (gr_nodes (graph_of rc) ! i))"
    unfolding g using assms(2) by (simp add: ill_node_def)
  then show ?thesis using assms(2) len by simp
qed

theorem bad_blocks_mark_their_dependants_witness:
  "\<exists>rc rc'. example_run [ReceiveBlock example_second [4]] = Some rc \<and> set_ill [] [2] rc = Some rc' \<and> rb_state (rc_heap rc' ! 1) = Ill"
proof -
  have result: "case example_run [ReceiveBlock example_second [4]] of None \<Rightarrow> False | Some rc \<Rightarrow> set_ill [] [2] rc \<noteq> None \<and> length (rc_heap rc) = 3 \<and> rb_rev_deps (rc_heap rc ! 2) = [1] \<and> rb_state (rc_heap rc ! 2) = Null \<and> rb_state (rc_heap rc ! 1) = Initialized" by code_simp
  obtain rc where run: "example_run [ReceiveBlock example_second [4]] = Some rc" and reach: "receiver_reachable example_catchain Map.empty rc"
    and shape: "set_ill [] [2] rc \<noteq> None \<and> length (rc_heap rc) = 3 \<and> rb_rev_deps (rc_heap rc ! 2) = [1] \<and> rb_state (rc_heap rc ! 2) = Null \<and> rb_state (rc_heap rc ! 1) = Initialized" using example_runs [OF result] by blast
  from shape obtain rc' where rc': "set_ill [] [2] rc = Some rc'" by blast
  have "2 \<in> dependants (map node_of (rc_heap rc)) [2]" using shape by (intro dependants.start) simp_all
  then have "1 \<in> dependants (map node_of (rc_heap rc)) [2]"
    using shape dependants.rev_dep [of 2 "map node_of (rc_heap rc)" "[2]" 1] by simp
  then show ?thesis using bad_blocks_mark_their_dependants [OF rc', of 1] shape run rc' by auto
qed



text \<open>
  C19. The counter of a block that waits is the number of its dependencies that are not delivered, so it is
  never more than their number and the subtraction at each delivery never wraps around.
\<close>

theorem pending_counter_is_exact:
  assumes "receiver_reachable ext db rc" and "block_at rc a = Some b" and "rb_state b = Initialized"
  shows "rb_pending_deps b = length (filter (\<lambda>d. rb_state (rc_heap rc ! d) \<noteq> Delivered) (all_deps b)) \<and>
    rb_pending_deps b \<le> length (all_deps b)"
  using reachable_block(4) [OF assms] length_filter_le by simp

theorem pending_counter_is_exact_witness:
  "\<exists>rc b. example_run [ReceiveBlock example_second [4]] = Some rc \<and> block_at rc 1 = Some b \<and> rb_pending_deps b \<le> length (all_deps b)"
proof -
  have result: "case example_run [ReceiveBlock example_second [4]] of None \<Rightarrow> False | Some rc \<Rightarrow> map_option rb_state (block_at rc 1) = Some Initialized" by code_simp
  obtain rc where run: "example_run [ReceiveBlock example_second [4]] = Some rc" and reach: "receiver_reachable example_catchain Map.empty rc"
    and shape: "map_option rb_state (block_at rc 1) = Some Initialized" using example_runs [OF result] by blast
  from shape obtain b where b: "block_at rc 1 = Some b" "rb_state b = Initialized" by auto
  show ?thesis using pending_counter_is_exact [OF reach b] run b(1) by blast
qed

text \<open>
  C26. A block that names a validator that does not exist stops the receiver: the key of the source is
  looked up before the block is validated.
\<close>

theorem block_of_unknown_source_panics:
  assumes "length (rc_source_public_key_hashes rc) \<le> as_usize (wb_src block)"
  shows "receive_block ext rc block payload = None"
  using assms by (simp add: receive_block_def get_block_id_hash_def get_source_key_hash_def index_def)

theorem block_of_unknown_source_panics_witness:
  "\<exists>rc. example_start = Some rc \<and> receive_block example_catchain rc (example_first\<lparr>wb_src := 2\<rparr>) [3] = None"
proof -
  have "case example_start of None \<Rightarrow> False | Some rc \<Rightarrow> length (rc_source_public_key_hashes rc) = 2" by code_simp
  then obtain rc where rc: "example_start = Some rc" "length (rc_source_public_key_hashes rc) = 2"
    using example_starts by blast
  have "receive_block example_catchain rc (example_first\<lparr>wb_src := 2\<rparr>) [3] = None"
    by (rule block_of_unknown_source_panics) (simp add: rc(2) as_usize_def)
  then show ?thesis using rc(1) by blast
qed






text \<open>
  C40. A block that passes the validation belongs to this session and to one of its validators, follows the
  previous block by height, names at most the allowed number of dependencies, one per source and none of its
  own, and has a payload.
\<close>

theorem validated_blocks_are_well_shaped:
  assumes "validate_block_with_payload ext rc block payload = Some True"
  shows "wb_incarnation block = rc_incarnation rc \<and> 0 < wb_height block \<and> 0 \<le> wb_src block \<and> as_usize (wb_src block) < length (rc_sources rc) \<and>
    bd_height (wb_prev block) = wb_height block - 1 \<and> length (wb_deps block) \<le> rc_max_deps rc \<and>
    distinct (wb_src block # map bd_src (wb_deps block)) \<and> (\<forall>d \<in> set (wb_prev block # wb_deps block). 0 \<le> bd_height d) \<and> payload \<noteq> []"
proof -
  from assms have pre: "pre_validate_block ext rc block payload = Some True"
    unfolding validate_block_with_payload_def by (elim bind_SomeE) (simp split: if_splits)
  then show ?thesis using pre_validate_blockD [OF pre] by (auto simp: distinct_sources_iff)
qed

theorem validated_blocks_are_well_shaped_witness:
  "\<exists>rc. example_start = Some rc \<and> 0 < wb_height example_first \<and> bd_height (wb_prev example_first) = wb_height example_first - 1"
proof -
  have "case example_start of None \<Rightarrow> False | Some rc \<Rightarrow> validate_block_with_payload example_catchain rc example_first [3] = Some True" by code_simp
  then obtain rc where rc: "example_start = Some rc" "validate_block_with_payload example_catchain rc example_first [3] = Some True"
    using example_starts by blast
  show ?thesis using validated_blocks_are_well_shaped [OF rc(2)] rc(1) by blast
qed

end
