(* ===== verification/Spec2Isabelle.thy ===== *)
theory Spec2Isabelle
  imports VS_Components CC_Components
begin

text \<open>
  \<^bold>\<open>The validator session of the node.\<close> Validators agree, round by round, on one block each. In a round the
  validators of the highest priority submit block candidates, all validators approve candidates, and in a
  sequence of attempts they vote for a candidate and precommit to the one with votes of more than two thirds of
  the weight; a precommitted candidate is signed, and with signatures of more than two thirds of the weight the
  round is decided. Every validator keeps one session state per block of the catchain, changed by messages and
  implicit actions and merged with the states of other validators. A panic of any of these functions stops the
  node, and an update that loses a statement or a merge that depends on the order of its arguments makes the
  states of the validators diverge.

  \<^bold>\<open>Parts and theories\<close> (files under src/validator-session/src):

  \<^item> VS_Prelude: panics as \<^const>\<open>None\<close>, indexing, word lemmas.
  \<^item> VS_Vector (vector.rs, utils.rs, lib.rs): vectors, sorted vectors and their merges. The locale
    sorting_predicate states that a comparison of the code compares one key; under it a sorted vector is a
    finite map, a push its update, a merge pointwise. The shortcuts of the merges are sound.
  \<^item> VS_Description (session_description.rs): validators, weights, cutoff, priorities, times, hashes and
    signatures. The locale voting_power holds the laws of weights and the intersection of quorums.
  \<^item> VS_Candidates (sent_block.rs, block_candidate.rs, vote_candidate.rs): blocks with their approvals and
    votes. The locale mergeable is the contract of a merge: total, idempotent, commutative, associative.
  \<^item> VS_Attempt (round_attempt.rs): one attempt. The locale round_interface states what an attempt needs of
    the round that calls it.
  \<^item> VS_Round, VS_Round_Invariant, VS_Choices, VS_Round_Merge (round.rs): the current round, its invariant and
    that every handler and every implicit action keeps it, the choices of a validator, the merge.
  \<^item> VS_Old_Round (old_round.rs): decided rounds.
  \<^item> VS_Session, VS_Session_Merge, VS_Decision (session_state.rs): the session, its invariant, the end of the
    loop of implicit actions, the merge, the states reachable by messages, implicit actions and merges, and the
    decision of a round.
  \<^item> VS_Processor, VS_Publish (session_processor.rs): the processor that computes the states of the blocks of
    the catchain, publishes the messages of the validator and reports finished rounds; the loop of created
    messages, the replay of a published block by other validators, the reports.
  \<^item> VS_Lock, VS_Ledger, VS_Agreement (round.rs and session_state.rs together): agreement of the validators. VS_Lock
    shows that a round remembers the precommit of a validator through all messages and merges, as long as no later
    attempt has the votes for another block, and that its votes follow it. VS_Ledger collects the votes and the
    precommits of the correct validators in a round and shows that no two blocks can be precommitted. VS_Agreement
    lifts this to histories: sets of session states of all validators, made by messages, implicit actions and merges,
    in which the correct validators extend only their own latest state.
  \<^item> VS_Example: a run of a session with four validators from the empty state to a decided round.
  \<^item> VS_Components: the properties of the single components.

  \<^bold>\<open>The receiver of the catchain\<close> (files under src/catchain/src). The catchain is the reliable broadcast below the session: every
  validator links its blocks to its previous block and to blocks of others, and the receiver delivers a block to its listener when
  it is stored and everything it depends on has been delivered. A validator that makes two blocks of one height is marked, and bad
  blocks are not delivered.

  \<^item> CC_Source (receiver_source.rs, and the structs of the other files): the data, and the operations on the blocks, heights, forks
    and blame of one validator.
  \<^item> CC_Block (received_block.rs, and the validation in receiver.rs): creation, initialisation, validation and delivery of a block,
    and the marking of bad blocks. Blocks live in an explicit store, since they refer to each other and change in place.
  \<^item> CC_Graph, CC_Effects: the abstraction to a graph of blocks, and what each operation does to the graph.
  \<^item> CC_Receiver (receiver.rs): the scheduler with the proof that it ends, received and own blocks, fork proofs, the database, and
    the steps of the receiver as a relation.
  \<^item> CC_Invariant, CC_Delivery: the invariant of the graph, that every step keeps it, and what follows for the deliveries. The locale
    causal_feed is the contract between the receiver and its listener.
  \<^item> CC_Faults, CC_Example, CC_Components: validation and failures, a receiver with two validators, and the properties.

  \<^bold>\<open>Correspondence.\<close> A struct is a record with the fields of the code, prefixed (\<^verbatim>\<open>rs_\<close> for a round,
  \<^verbatim>\<open>ra_\<close> for an attempt, \<^verbatim>\<open>ss_\<close> for a session, \<^verbatim>\<open>or_\<close> for a decided round, \<^verbatim>\<open>rb_\<close>, \<^verbatim>\<open>src_\<close>
  and \<^verbatim>\<open>rc_\<close> for a received block, a source and the receiver); a function keeps its name,
  prefixed by its component where names coincide. A panic (a failed assertion, an index out of range, a missing
  value) is \<^const>\<open>None\<close>. Integers have their width; \<^verbatim>\<open>i32\<close> priorities are integers, since their range is
  proved. Objects of the session are values: a comparison of pointers or hashes of the code is an equality of values. Blocks of
  the catchain are addresses of a store, and a borrow of a cell that is borrowed already is a panic. Fields that
  hold a hash, a pool or statistics are omitted. TL serialisation, SHA-256, key identifiers and signature checks are
  the functions of the record \<^typ>\<open>externals\<close>; that different submissions have different identifiers is the named
  hypothesis \<^const>\<open>no_collisions\<close> over the set of the submissions that occur. The external code of the catchain is the record
  \<^typ>\<open>catchain_ext\<close>; the theorems on deliveries assume nothing of it.

  \<^bold>\<open>What is shown.\<close> When at most a third of the weight is with validators that do not follow the protocol, two states
  of a session never hold different committed blocks for a round, and any two of them can be merged. For single states, whoever
  sends the messages: the invariant of rounds, decided rounds and sessions is kept by every message, every
  implicit action and every merge, none of which panics; the statements of a validator are only added by its own
  messages and never lost; the loop of implicit actions ends; merges are unions and do not depend on the order;
  decided rounds carry quorums of approvals and signatures and never change their block; validators vote as the
  protocol says; created messages take effect; a block that a validator publishes gives the same state at every
  other validator; finished rounds are reported once and in order. For the receiver of the catchain, whatever arrives and in
  whatever order: blocks are delivered once each and after everything below them, the scheduler ends and leaves no block that could be
  delivered, the counters of waiting blocks are exact, and what depends on a bad block is bad; inputs at which the receiver stops are
  shown as such. The limits are those of the machine integers: at most \<open>2 ^ 31\<close>
  validators, a total weight below \<open>2 ^ 63\<close>, and round numbers below \<open>2 ^ 32 - 1\<close> (\<^const>\<open>wf_desc\<close> and
  \<open>round_number_left\<close>). The loop of implicit actions and the loop of created messages are partial functions, in which a
  loop without end has no value: the first is proved to return, the second is proved to return when the clock of
  the validator does not go back, and not to return in a state after the clock went back. No function uses fuel.

  \<^bold>\<open>Not modelled.\<close> The memory pools and the object cache (cache.rs), since objects are values; the threads and the
  timeouts of callbacks (session.rs, task_queue.rs and parts of session_processor.rs); statistics (slashing.rs);
  text dumps. Of the catchain, the synchronisation with neighbours and the answers to queries (receiver.rs), which run over
  the network, and the choice of the blocks to merge by a random generator (catchain.rs). The storage, the network, the collator and
  the block validator compute on external libraries and input and output.
\<close>

text \<open>
  C1. Agreement: when at most a third of the weight is with validators that do not follow the protocol, two
  states of a session, of any two validators at any time, never hold different committed blocks for the same
  round.
\<close>

theorem committed_blocks_never_fork:
  assumes "wf_desc desc" and "no_collisions desc B" and "mostly_correct desc H" and "session_history desc B H S L"
    and "st \<in> S" and "st' \<in> S"
    and "get_committed_block st k = Some (Some block)" and "get_committed_block st' k = Some (Some block')"
  shows "block' = block"
proof -
  obtain d where d: "unat k < length (session_old_rounds st)" "session_old_rounds st ! unat k = d" "or_block d = block"
    by (rule committed_old_round [OF assms(7)])
  obtain d' where d': "unat k < length (session_old_rounds st')" "session_old_rounds st' ! unat k = d'" "or_block d' = block'"
    by (rule committed_old_round [OF assms(8)])
  have "session_agree st st'" by (rule history_agree [OF assms(4,1-3,5,6)])
  with d d' show ?thesis by (auto simp: session_agree_def session_compatible_def)
qed

theorem committed_blocks_never_fork_witness:
  "\<exists>block. get_committed_block example_decided 0 = Some (Some block) \<and> get_committed_block example_later 0 = Some (Some block)"
proof -
  have *: "get_committed_block example_decided 0 = Some (Some (Some example_sent_block))"
    "get_committed_block example_later 0 = Some (Some (Some example_sent_block))"
    by (simp_all add: get_committed_block_def example_decided_def example_later_def)
  have "Some example_sent_block = Some example_sent_block"
    by (rule committed_blocks_never_fork [OF example_wf example_no_collisions example_mostly_correct example_is_history _ _ *])
      (simp_all add: example_history_def)
  with * show ?thesis by simp
qed

text \<open>
  C2. Under the same bound on the weight of the others, the states of any two validators at any time can be
  merged, in either order with the same result: no assertion of the merge fails, the result is well formed
  and extends both states.
\<close>

theorem states_of_a_session_always_merge:
  assumes "wf_desc desc" and "no_collisions desc B" and "mostly_correct desc H" and "session_history desc B H S L"
    and "l \<in> S" and "r \<in> S" and "round_number_left l" and "round_number_left r"
  shows "\<exists>m. session_merge desc l r = Some m \<and> session_merge desc r l = Some m \<and> wf_session desc B m \<and>
    session_extends (nodes_count desc) l m \<and> session_extends (nodes_count desc) r m"
proof -
  note agree = history_agree [OF assms(4,1-3,5,6)]
  have "session_compatible l r" using agree(1) by (simp add: session_agree_def)
  then show ?thesis
    using session_merge_total [OF assms(1,2) agree(2,3) _ assms(7,8)] session_merge_commute [OF assms(2) agree(2,3)]
    by auto
qed

theorem states_of_a_session_always_merge_witness:
  "\<exists>m. session_merge example_desc example_precommitted example_later = Some m \<and> session_merge example_desc example_later example_precommitted = Some m"
proof -
  have "example_precommitted \<in> example_history" "example_later \<in> example_history" by (simp_all add: example_history_def)
  moreover have "round_number_left example_precommitted" "round_number_left example_later"
    by (simp_all add: example_state_defs example_later_def example_decided_def create_current_round_def)
  ultimately show ?thesis
    using states_of_a_session_always_merge [OF example_wf example_no_collisions example_mostly_correct example_is_history] by blast
qed



text \<open>
  C4. The loop of implicit actions of a validator ends: it returns a well-formed session in which the
  validator has no implicit action left, so a further step changes nothing.
\<close>

theorem make_all_returns:
  assumes "wf_desc desc" and "wf_session desc B st" and "unat i < nodes_count desc"
  shows "\<exists>st'. make_all desc st i a = Some st' \<and> wf_session desc B st' \<and> session_extends (nodes_count desc) st st' \<and>
    session_make_one desc st' i a = Some (st', False)"
  using assms by (rule make_all_total)

theorem make_all_returns_witness:
  "\<exists>st'. make_all example_desc example_approved 1 2001 = Some st' \<and> wf_session example_desc example_submissions st' \<and>
     session_extends 4 example_approved st' \<and> session_make_one example_desc st' 1 2001 = Some (st', False)"
  using make_all_returns [OF example_wf example_session_wf(2), of 1 2001] by simp

text \<open>
  C5. When the clock of a validator is not behind the attempt it has reached, the loop in which the
  processor creates and applies its messages ends after at most three messages, the last of them empty, with
  a well-formed session that the published messages lead to.
\<close>

theorem created_messages_end:
  assumes "wf_desc desc" and "no_collisions desc B" and "unat i < nodes_count desc" and "wf_session desc B st"
    and "clock_ok st i a" and "no_attempt_wrap desc (ss_current_round st) i a"
  shows "\<exists>st' msgs. action_loop desc i a st messages = Some (st', messages @ msgs) \<and> length msgs \<le> 3 \<and>
    is_empty_message (last msgs) \<and> apply_actions desc i a msgs st = Some st' \<and> wf_session desc B st' \<and>
    session_extends (nodes_count desc) st st'"
proof -
  obtain st' msgs m where loop: "action_loop desc i a st messages = Some (st', messages @ msgs @ [m])"
    "apply_actions desc i a (msgs @ [m]) st = Some st'" "length msgs \<le> unsaid (ss_current_round st) (unat i) a"
    "wf_session desc B st'" "session_extends (nodes_count desc) st st'" "is_empty_message m"
    using action_loop_ends [OF assms, of messages] by blast
  have "unsaid (ss_current_round st) (unat i) a \<le> 2" by (simp add: unsaid_def)
  with loop show ?thesis by (intro exI [of _ st'] exI [of _ "msgs @ [m]"]) simp
qed

theorem created_messages_end_witness:
  "\<exists>st' msgs. action_loop example_desc 0 2000 example_voted [] = Some (st', msgs) \<and> length msgs \<le> 3 \<and>
     is_empty_message (last msgs) \<and> apply_actions example_desc 0 2000 msgs example_voted = Some st'"
proof -
  have "clock_ok example_voted 0 2000" by (simp add: clock_ok_def MIN_ATTEMPT_ID_def example_state_defs)
  from created_messages_end [OF example_wf example_no_collisions _ example_session_wf(3) this example_no_wrap, of "[]"]
  show ?thesis by auto
qed

text \<open>
  C10. Merging two sessions that do not contradict each other does not panic, gives a well-formed session,
  and loses nothing that either of them decided: every decided round of both keeps its block and gains the
  signatures of the other.
\<close>

theorem session_merge_keeps_both:
  assumes "wf_desc desc" and "no_collisions desc B" and "wf_session desc B l" and "wf_session desc B r"
    and "session_compatible l r" and "round_number_left l" and "round_number_left r"
  shows "\<exists>m. session_merge desc l r = Some m \<and> wf_session desc B m \<and>
    session_extends (nodes_count desc) l m \<and> session_extends (nodes_count desc) r m"
  using assms by (rule session_merge_total)

theorem session_merge_keeps_both_witness:
  "\<exists>m. session_merge example_desc example_voted example_decided = Some m \<and> wf_session example_desc example_submissions m \<and>
     session_extends 4 example_voted m \<and> session_extends 4 example_decided m"
  using session_merge_keeps_both [OF example_wf example_no_collisions example_session_wf(3,5)]
  by (simp add: session_compatible_def session_old_rounds_def example_state_defs example_decided_def create_current_round_def)

text \<open>
  C11. The merge of two sessions that do not contradict each other does not depend on which of them is the
  left one.
\<close>

theorem session_merge_order:
  assumes "no_collisions desc B" and "wf_session desc B l" and "wf_session desc B r" and "session_compatible l r"
  shows "session_merge desc l r = session_merge desc r l"
  using assms by (rule session_merge_commute)

theorem session_merge_order_witness:
  "session_merge example_desc example_approved example_voted = session_merge example_desc example_voted example_approved"
  using session_merge_order [OF example_no_collisions example_session_wf(2,3)]
  by (simp add: session_compatible_def session_old_rounds_def round_compatible_def example_state_defs)

text \<open>
  C12. A session that started empty and went through messages, implicit actions and merges with other such
  sessions is well formed, and no next step of it panics: every message is handled, the implicit actions
  end, and every agreeing session can be merged.
\<close>

theorem reachable_sessions_never_panic:
  assumes "wf_desc desc" and "no_collisions desc B" and "reachable desc B st"
  shows "wf_session desc B st \<and>
    (\<forall>i m a. unat i < nodes_count desc \<longrightarrow> message_ok B i m \<longrightarrow> round_number_left st \<longrightarrow> session_apply_action desc st i a m \<noteq> None) \<and>
    (\<forall>i a. unat i < nodes_count desc \<longrightarrow> make_all desc st i a \<noteq> None) \<and>
    (\<forall>r. reachable desc B r \<longrightarrow> session_agree st r \<longrightarrow> round_number_left st \<longrightarrow> round_number_left r \<longrightarrow> session_merge desc st r \<noteq> None)"
proof -
  have st: "wf_session desc B st" by (rule reachable_wf [OF assms(3,1,2)])
  have "session_merge desc st r \<noteq> None" if "reachable desc B r" "session_agree st r" "round_number_left st" "round_number_left r" for r
    using session_merge_total [OF assms(1,2) st reachable_wf [OF that(1) assms(1,2)] _ that(3,4)] that(2)
    by (auto simp: session_agree_def)
  then show ?thesis
    using st session_apply_action_total [OF assms(1,2) st] make_all_total [OF assms(1) st] by (metis option.distinct(1))
qed

theorem reachable_sessions_never_panic_witness:
  "wf_session example_desc example_submissions example_decided \<and>
   session_apply_action example_desc example_decided 3 7 (Empty 5 7) \<noteq> None \<and> make_all example_desc example_decided 2 5000 \<noteq> None"
  using reachable_sessions_never_panic [OF example_wf example_no_collisions example_reachable(5)]
  by (simp add: message_ok_def example_decided_def create_current_round_def)

text \<open>
  C13. A block that a reachable session reports as committed in a round has, among the signatures and
  approvals the session reports for that round, commit signatures and approvals of validators with more than
  two thirds of the total weight each.
\<close>

theorem committed_blocks_have_quorums:
  assumes "wf_desc desc" and "no_collisions desc B" and "reachable desc B st" and "get_committed_block st s = Some (Some block)"
  shows "\<exists>signatures approvals. get_committed_block_signatures st s = Some (Some signatures) \<and>
    get_committed_block_approve_signatures st s = Some (Some approvals) \<and> known_block desc B block \<and>
    2 * total_of desc < 3 * weight_of desc (\<lambda>i. signatures ! i \<noteq> None) \<and>
    2 * total_of desc < 3 * weight_of desc (\<lambda>i. approvals ! i \<noteq> None)"
  using assms by (rule committed_quorums)

theorem committed_blocks_have_quorums_witness:
  "\<exists>signatures approvals. get_committed_block_signatures example_decided 0 = Some (Some signatures) \<and>
     get_committed_block_approve_signatures example_decided 0 = Some (Some approvals) \<and>
     known_block example_desc example_submissions (Some example_sent_block) \<and>
     2 * total_of example_desc < 3 * weight_of example_desc (\<lambda>i. signatures ! i \<noteq> None) \<and>
     2 * total_of example_desc < 3 * weight_of example_desc (\<lambda>i. approvals ! i \<noteq> None)"
  by (rule committed_blocks_have_quorums [OF example_wf example_no_collisions example_reachable(5)])
    (simp add: get_committed_block_def example_decided_def)

text \<open>
  C14. A message for the current round is applied to that round; the round is decided exactly when the
  commit signatures then reach the cutoff. The decided round gets the precommitted block and all signatures,
  the block had the votes and precommits of one attempt, and the session continues with an empty round of
  the next number.
\<close>

theorem round_decision_rule:
  assumes "wf_desc desc" and "no_collisions desc B" and "wf_session desc B st" and "unat i < nodes_count desc"
    and "message_ok B i m" and "round_number_left st" and "get_round_id m = rs_sequence_number (ss_current_round st)"
  shows "\<exists>r st'. round_apply_action desc (ss_current_round st) i (clamp_attempt_id (ss_attempt_ids st ! unat i) a) m = Some r \<and>
    session_apply_action desc st i a m = Some st' \<and>
    (if cutoff_of desc \<le> weight_of desc (round_signed r)
     then (\<exists>d s. session_old_rounds st' = session_old_rounds st @ [d] \<and> rs_precommitted_block r = Some (or_block d) \<and>
             or_signatures d = rs_signatures r \<and> round_precommitted desc r s \<and> round_voted desc r s (sent_block_get_id (or_block d)) \<and>
             ss_current_round st' = create_current_round desc (rs_sequence_number r + 1))
     else ss_current_round st' = r \<and> session_old_rounds st' = session_old_rounds st)"
  using assms by (rule session_decision_rule)

theorem round_decision_rule_witness:
  "\<exists>r st'. round_apply_action example_desc (ss_current_round example_precommitted) 0
      (clamp_attempt_id (ss_attempt_ids example_precommitted ! unat (0 :: u32)) 2000) (Commit 0 0x030B010203 [11, 1, 1, 2]) = Some r \<and>
    session_apply_action example_desc example_precommitted 0 2000 (Commit 0 0x030B010203 [11, 1, 1, 2]) = Some st' \<and>
    (if cutoff_of example_desc \<le> weight_of example_desc (round_signed r)
     then (\<exists>d s. session_old_rounds st' = session_old_rounds example_precommitted @ [d] \<and> rs_precommitted_block r = Some (or_block d) \<and>
             or_signatures d = rs_signatures r \<and> round_precommitted example_desc r s \<and>
             round_voted example_desc r s (sent_block_get_id (or_block d)) \<and>
             ss_current_round st' = create_current_round example_desc (rs_sequence_number r + 1))
     else ss_current_round st' = r \<and> session_old_rounds st' = session_old_rounds example_precommitted)"
  by (rule round_decision_rule [OF example_wf example_no_collisions example_session_wf(4) _ example_messages_ok(5)])
    (simp_all add: example_state_defs get_round_id_def)





text \<open>
  C20. A message of validator i changes a well-formed round only by statements of i: approvals, votes,
  precommits and signatures of the others stay as they are, nothing is removed, a precommitted block stays,
  and i gets at most one new vote, in an attempt in which it had none.
\<close>

theorem round_step_adds_own_statements:
  assumes "wf_desc desc" and "no_collisions desc B" and "wf_round desc B r" and "unat i < nodes_count desc"
    and "s \<noteq> 0" and "message_ok B i m"
  shows "\<exists>r'. round_apply_action desc r i s m = Some r' \<and> wf_round desc B r' \<and> round_evolves (nodes_count desc) (unat i) r r'"
  using assms by (rule round_apply_action_total)

theorem round_step_adds_own_statements_witness:
  "\<exists>r'. round_apply_action example_desc (ss_current_round example_approved) 0 2000 (Vote 0 2000 0x030B010203) = Some r' \<and>
     wf_round example_desc example_submissions r' \<and> round_evolves 4 0 (ss_current_round example_approved) r'"
  using round_step_adds_own_statements [OF example_wf example_no_collisions wf_sessionD(2) [OF example_session_wf(2)], of 0 2000
      "Vote 0 2000 0x030B010203"] example_messages_ok(3) by simp

text \<open>
  C21. Merging two states of a round that do not contradict each other is the union of what they say: an
  approval, vote or precommit is in the merged round exactly when it is in one of the two, signatures are
  combined validator by validator, and a precommitted block of either is the precommitted block of the
  result.
\<close>

theorem round_merge_joins:
  assumes "wf_desc desc" and "no_collisions desc B" and "wf_round desc B l" and "wf_round desc B r" and "round_compatible l r"
  shows "\<exists>m. round_merge desc l r = Some m \<and> wf_round desc B m \<and> round_merged (nodes_count desc) l r m"
  using assms by (rule round_merge_total)

theorem round_merge_joins_witness:
  "\<exists>m. round_merge example_desc (ss_current_round example_voted) (ss_current_round example_precommitted) = Some m \<and>
     wf_round example_desc example_submissions m \<and>
     round_merged 4 (ss_current_round example_voted) (ss_current_round example_precommitted) m"
  using round_merge_joins [OF example_wf example_no_collisions wf_sessionD(2) [OF example_session_wf(3)] wf_sessionD(2) [OF example_session_wf(4)]]
  by (simp add: round_compatible_def example_state_defs)






text \<open>
  C25. A download query that names a key which is not one of the validators makes the processor panic, for
  every round up to the current one.
\<close>

theorem query_of_unknown_source_panics:
  assumes "env_parse_query env data = Some query" and "dq_round query \<le> get_current_round_sequence_number (sp_real_state p)"
    and "sd_rev_sources (sp_description p) (dq_src query) = None"
  shows "process_query env data p = None"
  using assms by (simp add: process_query_def get_source_index_def not_less [symmetric])

theorem query_of_unknown_source_panics_witness:
  "process_query (example_env\<lparr>env_parse_query := (\<lambda>_. Some \<lparr> dq_round = 0, dq_src = 99, dq_root_hash = 1, dq_file_hash = 2,
     dq_collated_data_file_hash = 3 \<rparr>)\<rparr>) [] (processor_create example_env example_desc) = None"
  by (rule query_of_unknown_source_panics [where query = "\<lparr> dq_round = 0, dq_src = 99, dq_root_hash = 1, dq_file_hash = 2,
      dq_collated_data_file_hash = 3 \<rparr>"])
    (simp_all add: processor_create_def example_desc_eq)

text \<open>
  C29. The acceptor of a vote-for proposal does not enforce that the slow attempts have begun: in an attempt
  in which the generator reports that no proposal is due because the fast attempts of the author are not
  over, the handler of a round still records a proposal of that author.
\<close>

theorem premature_vote_for_is_accepted:
  assumes "wf_desc desc" and "no_collisions desc B" and "wf_round desc B r" and "unat i < nodes_count desc" and "s \<noteq> 0"
    and "i = s mod get_total_nodes desc" and "rs_precommitted_block r = None" and "ra_vote_for (attempt_or_new desc r s) = None"
    and "c \<in> set (round_blocks r)" and "candidate_approved desc c"
    and "max_round_attempts (sd_options desc) > 0" and "first_attempt_of r i + max_round_attempts (sd_options desc) > s"
  shows "check_need_generate_vote_for desc r i s = Some False \<and>
    (\<exists>r'. round_apply_action desc r i s (VoteFor x y (block_candidate_get_id c)) = Some r' \<and>
       ra_vote_for (attempt_or_new desc r' s) = Some (bc_block c))"
  using vote_for_recorded [OF assms(1-10)] assms(11,12) by (simp add: check_need_generate_vote_for_total [OF assms(1,3,4)])

theorem premature_vote_for_is_accepted_witness:
  "check_need_generate_vote_for example_desc (ss_current_round example_approved) 0 2000 = Some False \<and>
   (\<exists>r'. round_apply_action example_desc (ss_current_round example_approved) 0 2000 (VoteFor 0 2000 0x030B010203) = Some r' \<and>
      ra_vote_for (attempt_or_new example_desc r' 2000) = Some (Some example_sent_block))"
  using premature_vote_for_is_accepted [OF example_wf example_no_collisions wf_sessionD(2) [OF example_session_wf(2)],
      of 0 2000 "example_candidate (Some [11, 2, 1, 2])" 0 2000] example_block_approved
  by (simp add: example_state_defs round_blocks_def block_candidate_get_id_def sent_block_get_id_def attempt_or_new_def
      round_attempts_def round_attempt_create_empty_def)

text \<open>
  C30. The message that the round creates for a validator, applied to the same round, has the effect it
  announces: a vote message adds the vote for its block where the validator had none in the attempt, a
  precommit message adds the precommit for the block that has the votes, and an empty message is only
  created when it changes no vote and no precommit of the attempt.
\<close>

theorem created_action_takes_effect:
  assumes "wf_desc desc" and "no_collisions desc B" and "wf_round desc B r" and "unat i < nodes_count desc" and "s \<noteq> 0"
    and "no_attempt_wrap desc r i s"
  shows "\<exists>m r'. round_create_action desc r i s = Some m \<and> round_apply_action desc r i s m = Some r' \<and>
    (case m of
       Vote _ _ b \<Rightarrow> (\<forall>b'. \<not> round_vote r s b' (unat i)) \<and> round_vote r' s b (unat i)
     | Precommit _ _ b \<Rightarrow> round_voted desc r s b \<and> \<not> round_precommit r s (unat i) \<and> round_precommit r' s (unat i)
     | Empty _ _ \<Rightarrow> round_vote r' = round_vote r \<and> (\<forall>j < nodes_count desc. round_precommit r' s j = round_precommit r s j)
     | _ \<Rightarrow> False)"
  using assms by (rule created_action_effect)

theorem created_action_takes_effect_witness:
  "\<exists>m r'. round_create_action example_desc (ss_current_round example_voted) 0 2000 = Some m \<and>
     round_apply_action example_desc (ss_current_round example_voted) 0 2000 m = Some r' \<and>
    (case m of
       Vote _ _ b \<Rightarrow> (\<forall>b'. \<not> round_vote (ss_current_round example_voted) 2000 b' 0) \<and> round_vote r' 2000 b 0
     | Precommit _ _ b \<Rightarrow> round_voted example_desc (ss_current_round example_voted) 2000 b \<and>
         \<not> round_precommit (ss_current_round example_voted) 2000 0 \<and> round_precommit r' 2000 0
     | Empty _ _ \<Rightarrow> round_vote r' = round_vote (ss_current_round example_voted) \<and>
         (\<forall>j < 4. round_precommit r' 2000 j = round_precommit (ss_current_round example_voted) 2000 j)
     | _ \<Rightarrow> False)"
  using created_action_takes_effect [OF example_wf example_no_collisions wf_sessionD(2) [OF example_session_wf(3)] _ _ example_no_wrap,
      unfolded unsigned_0 example_count] by simp

text \<open>
  C31. In a fast attempt, a validator that has not precommitted votes for a block that had the votes of the
  latest attempt in which any block had them.
\<close>

theorem unlocked_validator_follows_latest_votes:
  assumes "wf_desc desc" and "wf_round desc B r" and "unat i < nodes_count desc"
    and "last_precommit_of r i = 0" and "\<not> slow_mode desc r i s" and "round_voted desc r s' b"
  shows "\<exists>block a. choose_block_to_vote desc r i s vote_for = Some (Some block) \<and> a \<in> set (round_attempts r) \<and>
    attempt_voted desc a (sent_block_get_id block) \<and> s' \<le> ra_sequence_number a"
  using assms by (rule choose_block_latest)

theorem unlocked_validator_follows_latest_votes_witness:
  "\<exists>block a. choose_block_to_vote example_desc (ss_current_round example_voted) 1 2001 None = Some (Some block) \<and>
     a \<in> set (round_attempts (ss_current_round example_voted)) \<and>
     attempt_voted example_desc a (sent_block_get_id block) \<and> 2000 \<le> ra_sequence_number a"
  by (rule unlocked_validator_follows_latest_votes [OF example_wf wf_sessionD(2) [OF example_session_wf(3)] _ _ _ example_round_voted])
    (simp_all add: slow_mode_def example_state_defs)



text \<open>
  In a slow attempt, a validator that has not precommitted votes for the block that the author of the
  attempt proposed, if any block was sent.
\<close>

theorem slow_attempt_votes_for_proposal:
  assumes "wf_round desc B r" and "unat i < nodes_count desc" and "last_precommit_of r i = 0" and "slow_mode desc r i s"
  shows "choose_block_to_vote desc r i s vote_for = Some (if rs_sent_blocks r = None then None else vote_for)"
  using assms by (rule choose_block_slow)

text \<open>
  The merge of two states of a round that do not contradict each other does not depend on their order.
\<close>

theorem round_merge_order:
  assumes "no_collisions desc B" and "wf_round desc B l" and "wf_round desc B r" and "round_compatible l r"
  shows "round_merge desc l r = round_merge desc r l"
  using assms by (rule round_merge_commute)

text \<open>
  A validator is asked to approve, in strictly increasing priority, exactly the blocks that are the only
  block of their author and that it has not approved yet, and the empty block unless it has approved that.
\<close>

theorem blocks_to_approve:
  assumes "wf_desc desc" and "wf_round desc B r" and "unat i < nodes_count desc"
  shows "\<exists>bs. choose_blocks_to_approve desc r i = Some bs \<and>
    (\<forall>b. Some b \<in> set bs \<longleftrightarrow> (\<exists>c. sole_block (round_blocks r) c \<and> bc_block c = Some b \<and> \<not> approved_at c (unat i))) \<and>
    (None \<in> set bs \<longleftrightarrow> \<not> (\<exists>c \<in> set (round_blocks r). bc_block c = None \<and> approved_at c (unat i))) \<and>
    sorted_wrt (<) (map (block_priority desc (rs_sequence_number r)) bs)"
  using assms by (rule choose_blocks_to_approve_total)

text \<open>
  In a fast attempt with no votes so far, a validator that has not precommitted votes for an approved block
  of the best priority, and for nothing only when no block is approved.
\<close>

theorem fast_attempt_votes_best_priority:
  assumes "wf_desc desc" and "wf_round desc B r" and "unat i < nodes_count desc"
    and "last_precommit_of r i = 0" and "\<not> slow_mode desc r i s" and "\<And>s' b. \<not> round_voted desc r s' b"
  shows "\<exists>block. choose_block_to_vote desc r i s vote_for = Some block \<and>
    (block = None \<longrightarrow> (\<forall>c \<in> set (round_blocks r). \<not> candidate_approved desc c)) \<and>
    (\<forall>b. block = Some b \<longrightarrow> (\<exists>c \<in> set (round_blocks r). candidate_approved desc c \<and> bc_block c = b \<and>
       (\<forall>c' \<in> set (round_blocks r). candidate_approved desc c' \<longrightarrow>
          candidate_priority desc (rs_sequence_number r) c \<le> candidate_priority desc (rs_sequence_number r) c')))"
  using assms by (rule choose_block_least)

text \<open>
  Where the round reports that a validator has to propose a block to vote for, the proposal it generates
  names an approved block, and the round accepts that proposal: it becomes the vote-for block of the
  attempt.
\<close>

theorem needed_vote_for_is_recorded:
  assumes "wf_desc desc" and "no_collisions desc B" and "wf_round desc B r" and "unat i < nodes_count desc" and "s \<noteq> 0"
    and "check_need_generate_vote_for desc r i s = Some True"
  shows "\<exists>c r'. c \<in> set (round_blocks r) \<and> candidate_approved desc c \<and>
    generate_vote_for desc r random i s = Some (VoteFor (rs_sequence_number r) s (block_candidate_get_id c)) \<and>
    round_apply_action desc r i s (VoteFor (rs_sequence_number r) s (block_candidate_get_id c)) = Some r' \<and>
    ra_vote_for (attempt_or_new desc r' s) = Some (bc_block c)"
  using assms by (rule needed_vote_for)

end
